(* ===== verification/Prelude.thy ===== *)
theory Prelude
  imports Main "HOL-Library.Word"
begin

text \<open>
  Shared vocabulary of the development: 32-bit unsigned arithmetic written out on
  naturals, byte storage as lists that are read by slices and written in place, C strings,
  and the simplification collections the component theories use.
\<close>

unbundle bit_operations_syntax

named_theorems u32_simps \<open>unsigned int arithmetic that does not wrap\<close>
named_theorems mem_simps \<open>reads of byte storage after a write\<close>

section \<open>Unsigned 32-bit arithmetic\<close>

abbreviation U32 :: nat where
  "U32 \<equiv> 4294967296"

definition u32_add :: "nat \<Rightarrow> nat \<Rightarrow> nat" where
  "u32_add a b = (a + b) mod U32"

definition u32_sub :: "nat \<Rightarrow> nat \<Rightarrow> nat" where
  "u32_sub a b = (a + U32 - b) mod U32"

text \<open>The cast \<open>(unsigned int)x\<close> of a wider integer.\<close>

definition u32_of :: "nat \<Rightarrow> nat" where
  "u32_of a = a mod U32"

lemma u32_add_exact [u32_simps]: "a + b < U32 \<Longrightarrow> u32_add a b = a + b"
  by (simp add: u32_add_def)

lemma u32_sub_exact [u32_simps]:
  assumes "b \<le> a" "a < U32"
  shows "u32_sub a b = a - b"
proof -
  have "a + U32 - b = (a - b) + U32"
    using assms by simp
  then have "u32_sub a b = (a - b + U32) mod U32"
    by (simp only: u32_sub_def)
  also have "\<dots> = (a - b) mod U32"
    by (rule mod_add_self2)
  also have "\<dots> = a - b"
    using assms by simp
  finally show ?thesis .
qed

lemma u32_of_exact [u32_simps]: "a < U32 \<Longrightarrow> u32_of a = a"
  by (simp add: u32_of_def)

lemma u32_bounds [simp]: "u32_add a b < U32" "u32_sub a b < U32" "u32_of a < U32"
  by (simp_all add: u32_add_def u32_sub_def u32_of_def)

section \<open>Rounding up to a power of two\<close>

text \<open>\<open>ROUNDUP_POWEROFTWO\<close> of Common/BinUtils.h on an unsigned int.\<close>

definition ROUNDUP_POWEROFTWO :: "nat \<Rightarrow> nat \<Rightarrow> nat" where
  "ROUNDUP_POWEROFTWO v p =
     unat ((of_nat v + (push_bit p 1 - 1)) AND NOT (push_bit p 1 - 1) :: 32 word)"

lemma and_not_mask_word: "w AND NOT (mask p) = push_bit p (drop_bit p w)" for w :: "'a::len word"
  by (rule bit_word_eqI) (auto simp: bit_simps)

lemma ROUNDUP_eq:
  assumes "v + (2 ^ p - 1) < U32"
  shows "ROUNDUP_POWEROFTWO v p = (v + (2 ^ p - 1)) div 2 ^ p * 2 ^ p"
proof -
  let ?n = "v + (2 ^ p - 1)" and ?m = "2 ^ p - 1 :: 32 word"
  have m: "push_bit p 1 - 1 = ?m" "mask p = ?m"
    by (simp_all add: push_bit_eq_mult mask_eq_exp_minus_1)
  have "of_nat ?n = (of_nat v + ?m :: 32 word)"
    unfolding of_nat_add by (simp add: of_nat_diff)
  then have "ROUNDUP_POWEROFTWO v p = unat (of_nat ?n AND NOT (mask p) :: 32 word)"
    by (simp add: ROUNDUP_POWEROFTWO_def m)
  also have "\<dots> = unat (push_bit p (drop_bit p (of_nat ?n :: 32 word)))"
    by (simp only: and_not_mask_word)
  also have "\<dots> = (?n div 2 ^ p * 2 ^ p) mod 2 ^ 32"
    using assms unfolding unsigned_push_bit_eq unsigned_drop_bit_eq
    by (simp add: take_bit_eq_mod push_bit_eq_mult drop_bit_eq_div unat_of_nat)
  also have "\<dots> = ?n div 2 ^ p * 2 ^ p"
  proof -
    have "?n div 2 ^ p * 2 ^ p \<le> ?n"
      by (rule div_times_less_eq_dividend)
    from this assms have "?n div 2 ^ p * 2 ^ p < U32"
      by (rule le_less_trans)
    then show ?thesis
      by simp
  qed
  finally show ?thesis .
qed

lemma ROUNDUP_bounds:
  assumes "v + (2 ^ p - 1) < U32"
  shows "v \<le> ROUNDUP_POWEROFTWO v p" "ROUNDUP_POWEROFTWO v p \<le> v + (2 ^ p - 1)"
proof -
  define k :: nat where "k = 2 ^ p - 1"
  define a b where "a = (v + k) div 2 ^ p * 2 ^ p" and "b = (v + k) mod 2 ^ p"
  have e: "a + b = v + k"
    unfolding a_def b_def by (rule div_mult_mod_eq)
  have "b < 2 ^ p"
    by (simp add: b_def)
  then have b: "b \<le> k"
    by (simp add: k_def)
  have r: "ROUNDUP_POWEROFTWO v p = a"
    using ROUNDUP_eq [OF assms] by (simp only: a_def k_def)
  show "v \<le> ROUNDUP_POWEROFTWO v p" "ROUNDUP_POWEROFTWO v p \<le> v + (2 ^ p - 1)"
    unfolding r k_def [symmetric] using e b by linarith+
qed

section \<open>Storage as lists\<close>

definition seg :: "'b list \<Rightarrow> nat \<Rightarrow> nat \<Rightarrow> 'b list" where
  "seg buf pos n = take n (drop pos buf)"

definition mem_write :: "'b list \<Rightarrow> nat \<Rightarrow> 'b list \<Rightarrow> 'b list" where
  "mem_write buf pos xs = take pos buf @ xs @ drop (pos + length xs) buf"

text \<open>Freshly allocated storage: its content is not determined by the code.\<close>

definition fresh :: "(nat \<Rightarrow> 'b) \<Rightarrow> nat \<Rightarrow> 'b list" where
  "fresh junk n = map junk [0..<n]"

lemma length_fresh [simp]: "length (fresh junk n) = n"
  by (simp add: fresh_def)

lemma fresh_4: "fresh junk 4 = [junk 0, junk 1, junk 2, junk 3]"
  by (simp add: fresh_def upt_rec numeral_2_eq_2 numeral_3_eq_3)

lemma length_seg [simp]: "length (seg buf p n) = min n (length buf - p)"
  by (simp add: seg_def)

lemma seg_0 [simp]: "seg buf p 0 = []"
  by (simp add: seg_def)

lemma length_mem_write [mem_simps]:
  "p + length xs \<le> length buf \<Longrightarrow> length (mem_write buf p xs) = length buf"
  by (simp add: mem_write_def)

lemma mem_write_Nil [simp]: "mem_write buf p [] = buf"
  by (simp add: mem_write_def)

lemma seg_mem_write_same [mem_simps]:
  "p + length xs \<le> length buf \<Longrightarrow> seg (mem_write buf p xs) p (length xs) = xs"
  by (simp add: seg_def mem_write_def)

lemma seg_append_left: "p + n \<le> length xs \<Longrightarrow> seg (xs @ ys) p n = seg xs p n"
  by (simp add: seg_def)

lemma seg_take: "p + n \<le> k \<Longrightarrow> seg (take k buf) p n = seg buf p n"
  by (simp add: seg_def drop_take min_def)

lemma seg_mem_write_before [mem_simps]:
  "q + n \<le> p \<Longrightarrow> p + length xs \<le> length buf \<Longrightarrow> seg (mem_write buf p xs) q n = seg buf q n"
  by (simp add: mem_write_def seg_append_left seg_take)

lemma seg_mem_write_after [mem_simps]:
  "p + length xs \<le> q \<Longrightarrow> p + length xs \<le> length buf \<Longrightarrow>
    seg (mem_write buf p xs) q n = seg buf q n"
  by (simp add: seg_def mem_write_def min_def)

lemma seg_append_adjacent: "seg buf p m @ seg buf (p + m) n = seg buf p (m + n)"
  by (metis (no_types) seg_def add.commute drop_drop take_add)

lemma seg_extend:
  "seg buf p m @ seg buf q n = seg buf p (m + n)" if "q = p + m"
  using that by (simp add: seg_append_adjacent)

lemma drop_seg: "drop k (seg buf p n) = seg buf (p + k) (n - k)"
  by (simp add: seg_def drop_take add.commute)

lemma take_seg: "take k (seg buf p n) = seg buf p (min k n)"
  by (simp add: seg_def)

lemma seg_append_right: "length xs \<le> p \<Longrightarrow> seg (xs @ ys) p n = seg ys (p - length xs) n"
  by (simp add: seg_def)

lemma seg_drop: "seg (drop k buf) p n = seg buf (p + k) n"
  by (simp add: seg_def add.commute)

lemma seg_seg: "seg (seg buf p n) q m = seg buf (p + q) (min m (n - q))"
  by (simp add: seg_def drop_take add.commute)

section \<open>C strings\<close>

abbreviation NUL :: char where
  "NUL \<equiv> CHR 0x00"

text \<open>The C string stored at the start of a run of bytes; reading past the run gives
  the terminator.\<close>

definition cstr :: "string \<Rightarrow> string" where
  "cstr s = takeWhile (\<lambda>c. c \<noteq> NUL) s"

definition deref :: "string \<Rightarrow> char" where
  "deref s = (case s of [] \<Rightarrow> NUL | c # _ \<Rightarrow> c)"

lemma deref_simps [simp]: "deref [] = NUL" "deref (c # s) = c"
  by (simp_all add: deref_def)

lemma cstr_simps [simp]: "cstr [] = []" "cstr (c # s) = (if c = NUL then [] else c # cstr s)"
  by (simp_all add: cstr_def)

lemma cstr_id: "NUL \<notin> set s \<Longrightarrow> cstr s = s"
  by (simp add: cstr_def takeWhile_eq_all_conv) metis

lemma cstr_append: "NUL \<notin> set s \<Longrightarrow> cstr (s @ NUL # t) = s"
  by (induction s) auto

lemma NUL_notin_cstr: "NUL \<notin> set (cstr s)"
  by (induction s) auto

end
