(* ===== verification/StreamReadBuff.thy ===== *)
theory StreamReadBuff
  imports Prelude
begin

text \<open>
  The read buffer \<open>UD::Comm::StreamReadBuff\<close> of Common/StreamReadBuff.h: a growing byte
  buffer with a window of kept ("relevant") bytes before the read position and a window
  of available bytes after it. The storage between \<open>ReadBuff\<close> and \<open>ReadBuffEnd\<close> is a list,
  the four positions are unsigned int values. The locale \<open>stream_buffer\<close> is what the two
  protocol parsers rely on; the interpretation at the end discharges it for this code.
\<close>

section \<open>State and operations\<close>

record 'b srb =
  rb_buf :: "'b list"
  rb_static :: bool
  rb_ReadPos :: nat
  rb_RelevantLength :: nat
  rb_DataEndPos :: nat
  rb_ReqDataEndPos :: nat

definition srb_init :: "(nat \<Rightarrow> 'b) \<Rightarrow> nat \<Rightarrow> 'b srb" where
  "srb_init junk cap = \<lparr>rb_buf = fresh junk cap, rb_static = True, rb_ReadPos = 0,
     rb_RelevantLength = 0, rb_DataEndPos = 0, rb_ReqDataEndPos = 0\<rparr>"

definition srb_Reset :: "'b srb \<Rightarrow> 'b srb" where
  "srb_Reset b = b\<lparr>rb_ReadPos := 0, rb_RelevantLength := 0, rb_DataEndPos := 0,
     rb_ReqDataEndPos := 0\<rparr>"

definition GetAvailableDataLength :: "'b srb \<Rightarrow> nat" where
  "GetAvailableDataLength b = u32_sub (rb_DataEndPos b) (rb_ReadPos b)"

definition GetRelevantDataLength :: "'b srb \<Rightarrow> nat" where
  "GetRelevantDataLength b = rb_RelevantLength b"

text \<open>A query that returns a pointer and a length returns the bytes of that range.\<close>

definition GetRelevantData :: "'b srb \<Rightarrow> 'b list" where
  "GetRelevantData b =
     seg (rb_buf b) (rb_ReadPos b - rb_RelevantLength b) (rb_RelevantLength b)"

definition GetAvailableData :: "'b srb \<Rightarrow> 'b list" where
  "GetAvailableData b =
     seg (rb_buf b) (rb_ReadPos b) (u32_sub (rb_DataEndPos b) (rb_ReadPos b))"

definition Consume :: "nat \<Rightarrow> bool \<Rightarrow> 'b srb \<Rightarrow> bool \<times> 'b srb" where
  "Consume len isRelevant b =
     (let avail = u32_sub (rb_DataEndPos b) (rb_ReadPos b)
      in if len < avail
         then (True, b\<lparr>rb_RelevantLength := (if isRelevant then u32_add (rb_RelevantLength b) len
                                             else rb_RelevantLength b),
                       rb_ReadPos := u32_add (rb_ReadPos b) len\<rparr>)
         else (False, b\<lparr>rb_RelevantLength := (if isRelevant
                                              then u32_add (rb_RelevantLength b) avail
                                              else rb_RelevantLength b),
                        rb_ReadPos := rb_DataEndPos b\<rparr>))"

definition ResetRelevant :: "'b srb \<Rightarrow> 'b srb" where
  "ResetRelevant b =
     (if rb_RelevantLength b \<noteq> 0 \<and> rb_ReadPos b \<noteq> 0
      then let b1 = b\<lparr>rb_RelevantLength := 0\<rparr>
           in if rb_ReadPos b1 = rb_DataEndPos b1
              then b1\<lparr>rb_ReadPos := 0, rb_DataEndPos := 0\<rparr> else b1
      else b)"

definition BUFFER_ROUNDUP_TARGET :: nat where
  "BUFFER_ROUNDUP_TARGET = 10"

definition RequestData :: "(nat \<Rightarrow> 'b) \<Rightarrow> nat \<Rightarrow> 'b srb \<Rightarrow> bool \<times> 'b srb" where
  "RequestData junk reqDataLength b =
     (let availableLength = GetAvailableDataLength b
      in if availableLength \<ge> reqDataLength then (True, b)
         else let req = u32_sub reqDataLength availableLength;
                  b1 = b\<lparr>rb_ReqDataEndPos := u32_add (rb_ReqDataEndPos b) req\<rparr>;
                  buffLength = u32_of (length (rb_buf b1))
              in if rb_ReqDataEndPos b1 > buffLength
                 then let frontSpace = u32_sub (rb_ReadPos b1) (rb_RelevantLength b1);
                          endSpace = u32_sub buffLength (rb_DataEndPos b1);
                          reqNewLength = u32_sub (rb_ReqDataEndPos b1) (rb_DataEndPos b1);
                          moved = seg (rb_buf b1) frontSpace
                                    (u32_sub (rb_DataEndPos b1) frontSpace);
                          b2 = (if reqNewLength \<le> u32_add frontSpace endSpace
                                then b1\<lparr>rb_buf := mem_write (rb_buf b1) 0 moved\<rparr>
                                else let newSize = ROUNDUP_POWEROFTWO
                                             (u32_add (u32_sub (u32_sub buffLength frontSpace) endSpace)
                                                reqNewLength) BUFFER_ROUNDUP_TARGET
                                     in b1\<lparr>rb_buf := mem_write (fresh junk newSize) 0 moved,
                                           rb_static := False\<rparr>)
                      in (False, b2\<lparr>rb_ReadPos := u32_sub (rb_ReadPos b2) frontSpace,
                                    rb_DataEndPos := u32_sub (rb_DataEndPos b2) frontSpace,
                                    rb_ReqDataEndPos := u32_sub (rb_ReqDataEndPos b2) frontSpace\<rparr>)
                 else (False, b1))"

text \<open>The two overloads of \<open>GetReadInfo\<close>: the offset to read to, the bytes that must be
  and the bytes that can be read.\<close>

definition GetReadInfo2 :: "'b srb \<Rightarrow> nat \<times> nat \<times> nat" where
  "GetReadInfo2 b =
     (rb_DataEndPos b,
      (if rb_ReqDataEndPos b > rb_DataEndPos b
       then u32_sub (rb_ReqDataEndPos b) (rb_DataEndPos b) else 0),
      u32_of (length (rb_buf b) - rb_DataEndPos b))"

definition GetReadInfo :: "'b srb \<Rightarrow> nat \<times> nat" where
  "GetReadInfo b = (rb_DataEndPos b, u32_of (length (rb_buf b) - rb_DataEndPos b))"

definition OnNewData :: "nat \<Rightarrow> 'b srb \<Rightarrow> bool \<times> 'b srb" where
  "OnNewData newDataLength b =
     (let readBuffSize = u32_of (length (rb_buf b));
          n = (if newDataLength > u32_sub readBuffSize (rb_DataEndPos b)
               then readBuffSize else newDataLength);
          b1 = b\<lparr>rb_DataEndPos := u32_add (rb_DataEndPos b) n\<rparr>
      in if rb_DataEndPos b1 \<ge> rb_ReqDataEndPos b1
         then (True, b1\<lparr>rb_ReqDataEndPos := rb_DataEndPos b1\<rparr>)
         else (False, b1))"

text \<open>What a completed socket read does to the buffer: the bytes arrive at the offset
  \<open>GetReadInfo\<close> returned, then \<open>OnNewData\<close> is called with their number.\<close>

definition srb_feed :: "'b list \<Rightarrow> 'b srb \<Rightarrow> 'b srb" where
  "srb_feed xs b =
     snd (OnNewData (length xs) (b\<lparr>rb_buf := mem_write (rb_buf b) (fst (GetReadInfo b)) xs\<rparr>))"

section \<open>Invariant\<close>

definition srb_inv :: "'b srb \<Rightarrow> bool" where
  "srb_inv b \<longleftrightarrow> rb_RelevantLength b \<le> rb_ReadPos b \<and> rb_ReadPos b \<le> rb_DataEndPos b
     \<and> rb_DataEndPos b \<le> length (rb_buf b) \<and> length (rb_buf b) < U32
     \<and> rb_DataEndPos b \<le> rb_ReqDataEndPos b \<and> rb_ReqDataEndPos b < U32"

definition srb_room :: "'b srb \<Rightarrow> nat" where
  "srb_room b = snd (GetReadInfo b)"

text \<open>A request that cannot overflow the 32-bit end position or the rounded buffer cap.\<close>

definition srb_may_request :: "nat \<Rightarrow> 'b srb \<Rightarrow> bool" where
  "srb_may_request n b \<longleftrightarrow> rb_ReqDataEndPos b + n + 1023 < U32"

lemma srb_invD:
  assumes "srb_inv b"
  shows "rb_RelevantLength b \<le> rb_ReadPos b" "rb_ReadPos b \<le> rb_DataEndPos b"
    "rb_DataEndPos b \<le> length (rb_buf b)" "length (rb_buf b) < U32"
    "rb_DataEndPos b \<le> rb_ReqDataEndPos b" "rb_ReqDataEndPos b < U32"
    "rb_DataEndPos b < U32" "rb_ReadPos b < U32" "rb_RelevantLength b < U32"
  using assms by (auto simp: srb_inv_def)

lemma srb_inv_init: "cap < U32 \<Longrightarrow> srb_inv (srb_init junk cap)"
  by (simp add: srb_inv_def srb_init_def)

lemma srb_inv_Reset: "srb_inv b \<Longrightarrow> srb_inv (srb_Reset b)"
  by (simp add: srb_inv_def srb_Reset_def)

lemma GetAvailableDataLength_eq:
  "srb_inv b \<Longrightarrow> GetAvailableDataLength b = rb_DataEndPos b - rb_ReadPos b"
  by (simp add: GetAvailableDataLength_def u32_simps srb_invD)

lemma GetAvailableData_eq:
  "srb_inv b \<Longrightarrow> GetAvailableData b = seg (rb_buf b) (rb_ReadPos b) (rb_DataEndPos b - rb_ReadPos b)"
  by (simp add: GetAvailableData_def u32_simps srb_invD)

lemma length_GetAvailableData:
  "srb_inv b \<Longrightarrow> length (GetAvailableData b) = GetAvailableDataLength b"
  using srb_invD [of b] by (simp add: GetAvailableData_eq GetAvailableDataLength_eq)

lemma length_GetRelevantData:
  "srb_inv b \<Longrightarrow> length (GetRelevantData b) = GetRelevantDataLength b"
  using srb_invD [of b] by (simp add: GetRelevantData_def GetRelevantDataLength_def)

lemma srb_room_eq: "srb_inv b \<Longrightarrow> srb_room b = length (rb_buf b) - rb_DataEndPos b"
  using srb_invD [of b] by (simp add: srb_room_def GetReadInfo_def u32_of_def)

lemma GetReadInfo2_order:
  assumes "srb_inv b" "rb_ReqDataEndPos b \<le> length (rb_buf b)"
  shows "fst (snd (GetReadInfo2 b)) \<le> snd (snd (GetReadInfo2 b))"
  using assms(2) srb_invD [OF assms(1)] by (auto simp: GetReadInfo2_def u32_simps u32_of_exact)

section \<open>What each operation does to the two windows\<close>

lemma GetReadInfo2_meets_request:
  "srb_inv b \<Longrightarrow> fst (snd (GetReadInfo2 b)) = rb_ReqDataEndPos b - rb_DataEndPos b"
  using srb_invD [of b] by (simp add: GetReadInfo2_def u32_simps)

lemma Consume_result:
  "srb_inv b \<Longrightarrow> fst (Consume n r b) = (n < length (GetAvailableData b))"
  by (simp add: Consume_def Let_def length_GetAvailableData GetAvailableDataLength_def)

lemma Consume_state:
  assumes "srb_inv b"
  shows "snd (Consume n r b) =
    b\<lparr>rb_RelevantLength := (if r then rb_RelevantLength b + min n (rb_DataEndPos b - rb_ReadPos b)
                            else rb_RelevantLength b),
      rb_ReadPos := rb_ReadPos b + min n (rb_DataEndPos b - rb_ReadPos b)\<rparr>"
  using srb_invD [OF assms]
  by (simp add: Consume_def u32_simps Let_def)

lemma Consume_inv: "srb_inv b \<Longrightarrow> srb_inv (snd (Consume n r b))"
  by (simp add: Consume_state) (auto simp: srb_inv_def)

lemma Consume_ready:
  assumes "srb_inv b"
  shows "GetAvailableData (snd (Consume n r b)) = drop n (GetAvailableData b)"
  using assms srb_invD [OF assms] Consume_inv [OF assms, of n r]
  by (simp add: GetAvailableData_eq Consume_state drop_seg min_def)

lemma Consume_kept:
  assumes "srb_inv b"
  shows "GetRelevantData (snd (Consume n True b)) = GetRelevantData b @ take n (GetAvailableData b)"
  using assms srb_invD [OF assms]
  by (simp add: GetAvailableData_eq GetRelevantData_def Consume_state take_seg seg_extend)

text \<open>A consumed byte that is not kept slides the window: the kept range ends at the read
  position, so it then holds the last bytes consumed.\<close>

lemma Consume_slides:
  assumes "srb_inv b"
  shows "GetRelevantData (snd (Consume n False b)) =
    drop (min n (length (GetAvailableData b))) (GetRelevantData b @ take n (GetAvailableData b))"
  using assms srb_invD [OF assms]
  by (simp add: GetAvailableData_eq GetRelevantData_def Consume_state take_seg seg_extend drop_seg)

lemma ResetRelevant_inv: "srb_inv b \<Longrightarrow> srb_inv (ResetRelevant b)"
  by (simp add: ResetRelevant_def srb_inv_def Let_def split: if_split)

lemma ResetRelevant_ready:
  assumes "srb_inv b"
  shows "GetAvailableData (ResetRelevant b) = GetAvailableData b"
  using GetAvailableData_eq [OF ResetRelevant_inv [OF assms]] GetAvailableData_eq [OF assms]
  by (auto simp: ResetRelevant_def Let_def)

lemma ResetRelevant_kept: "srb_inv b \<Longrightarrow> GetRelevantData (ResetRelevant b) = []"
  using srb_invD(1) [of b] by (auto simp: GetRelevantData_def ResetRelevant_def Let_def)

lemma srb_feed_state:
  assumes "srb_inv b" "length xs \<le> srb_room b"
  shows "srb_feed xs b = b\<lparr>rb_buf := mem_write (rb_buf b) (rb_DataEndPos b) xs,
      rb_DataEndPos := rb_DataEndPos b + length xs,
      rb_ReqDataEndPos := max (rb_ReqDataEndPos b) (rb_DataEndPos b + length xs)\<rparr>"
proof -
  have le: "rb_DataEndPos b + length xs \<le> length (rb_buf b)"
    using assms srb_invD [OF assms(1)] by (simp add: srb_room_eq)
  have sub: "u32_sub (u32_of (length (rb_buf b))) (rb_DataEndPos b) = length (rb_buf b) - rb_DataEndPos b"
    using srb_invD [OF assms(1)] by (simp add: u32_simps)
  have add: "u32_add (rb_DataEndPos b) (length xs) = rb_DataEndPos b + length xs"
    using le srb_invD(4) [OF assms(1)] by (intro u32_add_exact) simp
  have "\<not> length (rb_buf b) - rb_DataEndPos b < length xs"
    using le by simp
  then show ?thesis
    using le by (simp add: srb_feed_def GetReadInfo_def OnNewData_def Let_def mem_simps sub add)
qed

lemma srb_feed_inv:
  assumes "srb_inv b" "length xs \<le> srb_room b"
  shows "srb_inv (srb_feed xs b)"
proof -
  have "rb_DataEndPos b + length xs \<le> length (rb_buf b)"
    using assms srb_invD [OF assms(1)] by (simp add: srb_room_eq)
  then show ?thesis
    unfolding srb_feed_state [OF assms]
    using srb_invD [OF assms(1)] by (simp add: srb_inv_def mem_simps)
qed

lemma srb_feed_ready:
  assumes "srb_inv b" "length xs \<le> srb_room b"
  shows "GetAvailableData (srb_feed xs b) = GetAvailableData b @ xs"
proof -
  let ?d = "rb_DataEndPos b" and ?r = "rb_ReadPos b"
  let ?m = "mem_write (rb_buf b) ?d xs"
  have le: "?d + length xs \<le> length (rb_buf b)" and rd: "?r \<le> ?d"
    using assms srb_invD [OF assms(1)] by (simp_all add: srb_room_eq)
  have "seg ?m ?r (?d - ?r + length xs) = seg ?m ?r (?d - ?r) @ seg ?m ?d (length xs)"
    using rd by (simp add: seg_extend)
  also have "\<dots> = seg (rb_buf b) ?r (?d - ?r) @ xs"
    using le rd by (simp add: mem_simps)
  finally show ?thesis
    using assms rd by (simp add: GetAvailableData_eq srb_feed_inv) (simp add: srb_feed_state)
qed

lemma srb_feed_kept:
  assumes "srb_inv b" "length xs \<le> srb_room b"
  shows "GetRelevantData (srb_feed xs b) = GetRelevantData b"
proof -
  have "rb_DataEndPos b + length xs \<le> length (rb_buf b)"
    using assms srb_invD [OF assms(1)] by (simp add: srb_room_eq)
  then show ?thesis
    using assms srb_invD [OF assms(1)]
    by (simp add: GetRelevantData_def srb_feed_state mem_simps)
qed

lemma RequestData_enough:
  "n \<le> GetAvailableDataLength b \<Longrightarrow> RequestData junk n b = (True, b)"
  by (simp add: RequestData_def)

lemma RequestData_in_place:
  assumes "srb_inv b" "srb_may_request n b" "GetAvailableDataLength b < n"
    and "rb_ReqDataEndPos b + (n - GetAvailableDataLength b) \<le> length (rb_buf b)"
  shows "RequestData junk n b =
    (False, b\<lparr>rb_ReqDataEndPos := rb_ReqDataEndPos b + (n - GetAvailableDataLength b)\<rparr>)"
proof -
  have "u32_sub n (GetAvailableDataLength b) = n - GetAvailableDataLength b"
    and "u32_add (rb_ReqDataEndPos b) (n - GetAvailableDataLength b) =
      rb_ReqDataEndPos b + (n - GetAvailableDataLength b)"
    using assms by (simp_all add: u32_simps srb_may_request_def)
  then show ?thesis
    using assms(3,4) srb_invD(4) [OF assms(1)] by (simp add: RequestData_def Let_def u32_of_exact)
qed

lemma RequestData_shifted:
  fixes b :: "'b srb"
  assumes "srb_inv b" "srb_may_request n b" "GetAvailableDataLength b < n"
    and "length (rb_buf b) < rb_ReqDataEndPos b + (n - GetAvailableDataLength b)"
  defines "front \<equiv> rb_ReadPos b - rb_RelevantLength b"
    and "req \<equiv> rb_ReqDataEndPos b + (n - GetAvailableDataLength b)"
  shows "\<exists>buf st. RequestData junk n b =
      (False, b\<lparr>rb_buf := buf, rb_static := st, rb_ReadPos := rb_RelevantLength b,
        rb_DataEndPos := rb_DataEndPos b - front, rb_ReqDataEndPos := req - front\<rparr>)
    \<and> seg buf 0 (rb_DataEndPos b - front) = seg (rb_buf b) front (rb_DataEndPos b - front)
    \<and> req - front \<le> length buf \<and> length buf < U32 \<and> length (rb_buf b) \<le> length buf
    \<and> length buf \<le> max (length (rb_buf b)) (req + 1023)"
proof -
  note D = srb_invD [OF assms(1)]
  let ?d = "rb_DataEndPos b" and ?len = "length (rb_buf b)"
  let ?moved = "seg (rb_buf b) front (?d - front)"
  have n: "n < U32" "req + 1023 < U32"
    using assms(2) by (simp_all add: srb_may_request_def req_def)
  have fr: "front \<le> rb_ReadPos b" "front \<le> ?d"
    using D by (simp_all add: front_def)
  have rd: "?d < req" "?len < req"
    using assms(3,4) D by (simp_all add: req_def)
  have e: "u32_sub n (GetAvailableDataLength b) = n - GetAvailableDataLength b"
    "u32_add (rb_ReqDataEndPos b) (n - GetAvailableDataLength b) = req"
    "u32_of ?len = ?len" "u32_sub (rb_ReadPos b) (rb_RelevantLength b) = front"
    "u32_sub ?len ?d = ?len - ?d" "u32_sub req ?d = req - ?d" "u32_sub ?d front = ?d - front"
    "u32_sub (rb_ReadPos b) front = rb_RelevantLength b" "u32_sub req front = req - front"
    "u32_sub ?len front = ?len - front"
    "u32_sub (?len - front) (?len - ?d) = ?d - front"
    "u32_add (?d - front) (req - ?d) = req - front"
    "u32_add front (?len - ?d) = front + (?len - ?d)"
    using assms(3) D n rd fr by (simp_all add: u32_simps req_def front_def)
  have lm: "length ?moved = ?d - front"
    using D by simp
  define buf where "buf = (if req - ?d \<le> front + (?len - ?d) then mem_write (rb_buf b) 0 ?moved
    else mem_write (fresh junk (ROUNDUP_POWEROFTWO (req - front) 10)) 0 ?moved)"
  define st where "st = (if req - ?d \<le> front + (?len - ?d) then rb_static b else False)"
  have "\<not> n \<le> GetAvailableDataLength b" "?len < req"
    using assms(3) rd by simp_all
  then have eq: "RequestData junk n b =
      (False, b\<lparr>rb_buf := buf, rb_static := st, rb_ReadPos := rb_RelevantLength b,
        rb_DataEndPos := ?d - front, rb_ReqDataEndPos := req - front\<rparr>)"
    by (simp add: RequestData_def Let_def e buf_def st_def BUFFER_ROUNDUP_TARGET_def)
  have R: "req - front \<le> ROUNDUP_POWEROFTWO (req - front) 10"
    "ROUNDUP_POWEROFTWO (req - front) 10 \<le> req - front + 1023"
    using ROUNDUP_bounds [of "req - front" 10] n by simp_all
  have "seg buf 0 (length ?moved) = ?moved \<and> req - front \<le> length buf \<and> length buf < U32 \<and> ?len \<le> length buf
      \<and> length buf \<le> max ?len (req + 1023)"
  proof (cases "req - ?d \<le> front + (?len - ?d)")
    case True
    moreover from this have "req - front \<le> ?len"
      using D fr by linarith
    ultimately show ?thesis
      using D(3,4) lm seg_mem_write_same [of 0 ?moved "rb_buf b"] length_mem_write [of 0 ?moved "rb_buf b"]
      by (simp add: buf_def)
  next
    case False
    let ?f = "fresh junk (ROUNDUP_POWEROFTWO (req - front) 10)"
    have "length ?moved \<le> length ?f"
      using lm R(1) rd by simp
    moreover have "ROUNDUP_POWEROFTWO (req - front) 10 < U32"
      using R(2) n(2) by linarith
    moreover have "?len \<le> req - front"
      using False D(3) by linarith
    moreover have "ROUNDUP_POWEROFTWO (req - front) 10 \<le> req + 1023"
      using R(2) by linarith
    ultimately show ?thesis
      using False R(1)
      using seg_mem_write_same [of 0 ?moved ?f] length_mem_write [of 0 ?moved ?f]
      by (simp add: buf_def)
  qed
  then show ?thesis
    using eq lm by auto
qed

lemma srb_inv_update:
  "srb_inv (b\<lparr>rb_buf := buf, rb_static := st, rb_ReadPos := r, rb_DataEndPos := d,
      rb_ReqDataEndPos := q\<rparr>) \<longleftrightarrow>
    rb_RelevantLength b \<le> r \<and> r \<le> d \<and> d \<le> length buf \<and> length buf < U32 \<and> d \<le> q \<and> q < U32"
  by (simp add: srb_inv_def)

text \<open>A request keeps both windows and makes room for what is missing.\<close>

lemma RequestData_sound:
  assumes "srb_inv b" "srb_may_request n b"
  shows "srb_inv (snd (RequestData junk n b))"
    and "GetAvailableData (snd (RequestData junk n b)) = GetAvailableData b"
    and "GetRelevantData (snd (RequestData junk n b)) = GetRelevantData b"
    and "n \<le> length (GetAvailableData b) + srb_room (snd (RequestData junk n b)) \<or>
         n \<le> length (GetAvailableData b)"
proof -
  let ?g = "GetAvailableDataLength b" and ?req = "rb_ReqDataEndPos b + (n - GetAvailableDataLength b)"
    and ?b = "snd (RequestData junk n b)"
  note D = srb_invD [OF assms(1)]
  have g: "?g = rb_DataEndPos b - rb_ReadPos b"
    by (rule GetAvailableDataLength_eq [OF assms(1)])
  consider (enough) "n \<le> ?g" | (place) "?g < n" "?req \<le> length (rb_buf b)"
    | (shift) "?g < n" "length (rb_buf b) < ?req"
    by linarith
  then have "srb_inv ?b \<and> GetAvailableData ?b = GetAvailableData b \<and>
    GetRelevantData ?b = GetRelevantData b \<and>
    (n \<le> length (GetAvailableData b) + srb_room ?b \<or> n \<le> length (GetAvailableData b))"
  proof cases
    case enough
    then show ?thesis
      using assms(1) by (simp add: RequestData_enough length_GetAvailableData)
  next
    case place
    let ?p = "b\<lparr>rb_ReqDataEndPos := ?req\<rparr>"
    have b: "?b = ?p"
      using RequestData_in_place [OF assms place] by simp
    have "rb_DataEndPos b \<le> ?req" "?req < U32"
      using D place by linarith+
    then have i: "srb_inv ?p"
      using D unfolding srb_inv_def by simp
    show ?thesis
      unfolding b using i place D
      by (simp add: GetAvailableData_eq assms(1) GetRelevantData_def srb_room_eq g)
  next
    case shift
    let ?f = "rb_ReadPos b - rb_RelevantLength b"
    obtain buf st where b: "RequestData junk n b =
      (False, b\<lparr>rb_buf := buf, rb_static := st, rb_ReadPos := rb_RelevantLength b,
        rb_DataEndPos := rb_DataEndPos b - ?f, rb_ReqDataEndPos := ?req - ?f\<rparr>)" (is "_ = (_, ?s)")
      and m: "seg buf 0 (rb_DataEndPos b - ?f) = seg (rb_buf b) ?f (rb_DataEndPos b - ?f)"
      and l: "?req - ?f \<le> length buf" "length buf < U32"
      using RequestData_shifted [OF assms shift, of junk] by blast
    have win: "seg buf q k = seg (rb_buf b) (?f + q) k" if "q + k \<le> rb_DataEndPos b - ?f" for q k
      using arg_cong [OF m, of "\<lambda>x. seg x q k"] that by (simp add: seg_seg min_def split: if_splits)
    have "rb_RelevantLength b \<le> rb_DataEndPos b - ?f" "rb_DataEndPos b - ?f \<le> ?req - ?f"
      using D shift by linarith+
    then have i: "srb_inv ?s"
      using l unfolding srb_inv_update by linarith
    show ?thesis
      unfolding b snd_conv using i l D shift
      by (simp add: GetAvailableData_eq assms(1) GetRelevantData_def srb_room_eq g win)
  qed
  then show "srb_inv ?b" "GetAvailableData ?b = GetAvailableData b"
    "GetRelevantData ?b = GetRelevantData b"
    "n \<le> length (GetAvailableData b) + srb_room ?b \<or> n \<le> length (GetAvailableData b)"
    by blast+
qed

section \<open>The interface of a read buffer\<close>

text \<open>What a protocol parser sees of the buffer: bytes ready to be consumed, bytes kept for
  it, room for the next socket read. \<open>may\<close> bounds the requests that fit in 32 bits.\<close>

locale stream_buffer =
  fixes inv :: "'s \<Rightarrow> bool"
    and ready :: "'s \<Rightarrow> 'b list"
    and kept :: "'s \<Rightarrow> 'b list"
    and room :: "'s \<Rightarrow> nat"
    and may :: "nat \<Rightarrow> 's \<Rightarrow> bool"
    and consume :: "nat \<Rightarrow> bool \<Rightarrow> 's \<Rightarrow> 's"
    and release :: "'s \<Rightarrow> 's"
    and request :: "nat \<Rightarrow> 's \<Rightarrow> 's"
    and feed :: "'b list \<Rightarrow> 's \<Rightarrow> 's"
  assumes inv_consume: "inv s \<Longrightarrow> inv (consume n r s)"
    and inv_release: "inv s \<Longrightarrow> inv (release s)"
    and inv_request: "inv s \<Longrightarrow> may n s \<Longrightarrow> inv (request n s)"
    and inv_feed: "inv s \<Longrightarrow> length xs \<le> room s \<Longrightarrow> inv (feed xs s)"
    and ready_consume: "inv s \<Longrightarrow> ready (consume n r s) = drop n (ready s)"
    and ready_release: "inv s \<Longrightarrow> ready (release s) = ready s"
    and ready_request: "inv s \<Longrightarrow> may n s \<Longrightarrow> ready (request n s) = ready s"
    and ready_feed: "inv s \<Longrightarrow> length xs \<le> room s \<Longrightarrow> ready (feed xs s) = ready s @ xs"
    and kept_consume: "inv s \<Longrightarrow> kept (consume n True s) = kept s @ take n (ready s)"
    and kept_release: "inv s \<Longrightarrow> kept (release s) = []"
    and kept_request: "inv s \<Longrightarrow> may n s \<Longrightarrow> kept (request n s) = kept s"
    and kept_feed: "inv s \<Longrightarrow> length xs \<le> room s \<Longrightarrow> kept (feed xs s) = kept s"
    and room_request: "inv s \<Longrightarrow> may n s \<Longrightarrow> n \<le> length (ready s) + room (request n s)
      \<or> n \<le> length (ready s)"

text \<open>A session of a parser with the buffer, as a list of operations.\<close>

datatype 'b sb_op = Feed "'b list" | Take nat bool | Forget | Request nat

fun sb_step :: "(nat \<Rightarrow> bool \<Rightarrow> 's \<Rightarrow> 's) \<Rightarrow> ('s \<Rightarrow> 's) \<Rightarrow> (nat \<Rightarrow> 's \<Rightarrow> 's) \<Rightarrow> ('b list \<Rightarrow> 's \<Rightarrow> 's)
    \<Rightarrow> 'b sb_op \<Rightarrow> 's \<Rightarrow> 's" where
  "sb_step con rel req fd (Feed xs) s = fd xs s"
| "sb_step con rel req fd (Take n r) s = con n r s"
| "sb_step con rel req fd Forget s = rel s"
| "sb_step con rel req fd (Request n) s = req n s"

text \<open>The bytes an operation hands to the parser, and those the socket hands to it.\<close>

fun sb_out :: "('s \<Rightarrow> 'b list) \<Rightarrow> 'b sb_op \<Rightarrow> 's \<Rightarrow> 'b list" where
  "sb_out rdy (Take n r) s = take n (rdy s)"
| "sb_out rdy _ s = []"

fun sb_in :: "'b sb_op \<Rightarrow> 'b list" where
  "sb_in (Feed xs) = xs"
| "sb_in _ = []"

fun sb_ok :: "('s \<Rightarrow> nat) \<Rightarrow> (nat \<Rightarrow> 's \<Rightarrow> bool) \<Rightarrow> 'b sb_op \<Rightarrow> 's \<Rightarrow> bool" where
  "sb_ok rm may (Feed xs) s = (length xs \<le> rm s)"
| "sb_ok rm may (Request n) s = may n s"
| "sb_ok rm may _ s = True"

fun sb_legal where
  "sb_legal stp ok [] s = True"
| "sb_legal stp ok (x # xs) s = (ok x s \<and> sb_legal stp ok xs (stp x s))"

fun sb_taken where
  "sb_taken stp out [] s = []"
| "sb_taken stp out (x # xs) s = out x s @ sb_taken stp out xs (stp x s)"

context stream_buffer begin

lemma step_ready:
  assumes "inv s" "sb_ok room may x s"
  shows "sb_out ready x s @ ready (sb_step consume release request feed x s) = ready s @ sb_in x"
  using assms by (cases x) (simp_all add: ready_consume ready_release ready_request ready_feed)

lemma step_inv:
  assumes "inv s" "sb_ok room may x s"
  shows "inv (sb_step consume release request feed x s)"
  using assms by (cases x) (simp_all add: inv_consume inv_release inv_request inv_feed)

lemma session_fifo:
  assumes "inv s" "sb_legal (sb_step consume release request feed) (sb_ok room may) xs s"
  shows "inv (fold (sb_step consume release request feed) xs s) \<and>
    sb_taken (sb_step consume release request feed) (sb_out ready) xs s
      @ ready (fold (sb_step consume release request feed) xs s) = ready s @ concat (map sb_in xs)"
  using assms
proof (induction xs arbitrary: s)
  case (Cons x xs)
  let ?t = "sb_step consume release request feed x s"
  have "inv ?t" "sb_out ready x s @ ready ?t = ready s @ sb_in x"
    using Cons.prems by (simp_all add: step_inv step_ready)
  with Cons.IH [of ?t] Cons.prems(2) show ?case
    by simp
qed simp

end

section \<open>StreamReadBuff meets the interface\<close>

abbreviation srb_consume :: "nat \<Rightarrow> bool \<Rightarrow> 'b srb \<Rightarrow> 'b srb" where
  "srb_consume n r b \<equiv> snd (Consume n r b)"

interpretation rb: stream_buffer srb_inv GetAvailableData GetRelevantData srb_room
    srb_may_request srb_consume ResetRelevant "\<lambda>n b. snd (RequestData junk n b)" srb_feed
  for junk :: "nat \<Rightarrow> 'b"
  by unfold_locales
    (simp_all add: Consume_inv ResetRelevant_inv RequestData_sound srb_feed_inv Consume_ready
      ResetRelevant_ready srb_feed_ready Consume_kept ResetRelevant_kept srb_feed_kept)

definition srb_step :: "(nat \<Rightarrow> 'b) \<Rightarrow> 'b sb_op \<Rightarrow> 'b srb \<Rightarrow> 'b srb" where
  "srb_step junk = sb_step srb_consume ResetRelevant (\<lambda>n b. snd (RequestData junk n b)) srb_feed"

definition srb_legal :: "(nat \<Rightarrow> 'b) \<Rightarrow> 'b sb_op list \<Rightarrow> 'b srb \<Rightarrow> bool" where
  "srb_legal junk = sb_legal (srb_step junk) (sb_ok srb_room srb_may_request)"

definition srb_taken :: "(nat \<Rightarrow> 'b) \<Rightarrow> 'b sb_op list \<Rightarrow> 'b srb \<Rightarrow> 'b list" where
  "srb_taken junk = sb_taken (srb_step junk) (sb_out GetAvailableData)"

text \<open>The definitions a closed instance evaluates with.\<close>

lemmas srb_eval = srb_legal_def srb_step_def srb_taken_def srb_room_def srb_may_request_def
  srb_init_def srb_feed_def GetReadInfo_def OnNewData_def Consume_def RequestData_def
  GetAvailableData_def GetAvailableDataLength_def GetRelevantData_def ResetRelevant_def Let_def
  fresh_4 mem_write_def seg_def u32_add_def u32_sub_def u32_of_def

section \<open>Properties\<close>

text \<open>C22: the read buffer is a faithful byte stream. Whatever sequence of socket reads,
  requests (which may move the data or reallocate the buffer), releases and consumptions a
  parser performs on a fresh buffer, the bytes it consumed followed by the bytes still
  available are exactly the bytes read from the socket, in order.\<close>

theorem read_buffer_is_fifo:
  assumes "cap < U32" and "srb_legal junk ops (srb_init junk cap)"
  shows "srb_taken junk ops (srb_init junk cap)
      @ GetAvailableData (fold (srb_step junk) ops (srb_init junk cap)) = concat (map sb_in ops)"
proof -
  have "GetAvailableData (srb_init junk cap) = []"
    by (simp add: GetAvailableData_def srb_init_def u32_simps)
  then show ?thesis
    using rb.session_fifo [OF srb_inv_init [OF assms(1)], of junk ops junk] assms(2)
    by (simp add: srb_step_def srb_legal_def srb_taken_def)
qed

theorem read_buffer_is_fifo_witness:
  "srb_taken (\<lambda>_. 0) [Feed [1, 2, 3], Take 2 False, Request 3, Feed [4, 5], Take 2 True]
      (srb_init (\<lambda>_. 0 :: nat) 4)
    @ GetAvailableData (fold (srb_step (\<lambda>_. 0)) [Feed [1, 2, 3], Take 2 False, Request 3,
        Feed [4, 5], Take 2 True] (srb_init (\<lambda>_. 0) 4)) = [1, 2, 3, 4, 5]"
proof -
  have "srb_legal (\<lambda>_. 0) [Feed [1, 2, 3], Take 2 False, Request 3, Feed [4, 5], Take 2 True]
      (srb_init (\<lambda>_. 0 :: nat) 4)"
    by (simp add: srb_eval cong: let_weak_cong)
  from read_buffer_is_fifo [OF _ this] show ?thesis
    by simp
qed

text \<open>Note: a request for more bytes than are available leaves both windows as they are and,
  unless the 32-bit positions would overflow, makes room for at least the missing bytes; it
  answers true exactly when no read is needed.\<close>

theorem request_makes_room:
  assumes "srb_inv b" "srb_may_request n b"
  shows "fst (RequestData junk n b) = (n \<le> length (GetAvailableData b))
    \<and> GetAvailableData (snd (RequestData junk n b)) = GetAvailableData b
    \<and> GetRelevantData (snd (RequestData junk n b)) = GetRelevantData b
    \<and> n \<le> length (GetAvailableData b) + srb_room (snd (RequestData junk n b))"
proof -
  have "fst (RequestData junk n b) = (n \<le> GetAvailableDataLength b)"
    by (simp add: RequestData_def Let_def)
  then show ?thesis
    using RequestData_sound [OF assms, of junk] length_GetAvailableData [OF assms(1)] by auto
qed

theorem request_makes_room_witness:
  "fst (RequestData (\<lambda>_. 0) 3 (srb_feed [1, 2] (srb_init (\<lambda>_. 0 :: nat) 4))) = False"
proof -
  have "srb_inv (srb_feed [1, 2] (srb_init (\<lambda>_. 0 :: nat) 4))"
    "srb_may_request 3 (srb_feed [1, 2] (srb_init (\<lambda>_. 0 :: nat) 4))"
    by (simp_all add: srb_eval srb_inv_def cong: let_weak_cong)
  from request_makes_room [OF this, of "\<lambda>_. 0"] show ?thesis
    by (simp add: srb_eval cong: let_weak_cong)
qed

end
