(* ===== verification/RingLayout.thy ===== *)
theory RingLayout
  imports Prelude
begin

text \<open>
  The layout of a byte ring as the write queue uses it: the intervals of the queued buffers
  lie in order between the used and the free position, in one run or, once the free
  position has wrapped, in two. The lemmas say how the layout changes when an interval is
  appended, extended, cut short or released.
\<close>

text \<open>Intervals that follow each other between \<open>a\<close> and \<open>b\<close>.\<close>

fun chain :: "nat \<Rightarrow> (nat \<times> nat) list \<Rightarrow> nat \<Rightarrow> bool" where
  "chain a [] b = (a \<le> b)"
| "chain a ((p, l) # r) b = (a \<le> p \<and> 0 < l \<and> chain (p + l) r b)"

lemma chain_le: "chain a st b \<Longrightarrow> a \<le> b"
  by (induction a st b rule: chain.induct) auto

lemma chain_mono: "chain a st b \<Longrightarrow> a' \<le> a \<Longrightarrow> b \<le> b' \<Longrightarrow> chain a' st b'"
  by (induction a st b arbitrary: a' rule: chain.induct) auto

lemma chain_append: "chain a (xs @ ys) b \<longleftrightarrow> (\<exists>m. chain a xs m \<and> chain m ys b)"
proof (induction xs arbitrary: a)
  case Nil
  show ?case
    using chain_mono by (auto intro: exI [of _ a])
next
  case (Cons x xs)
  then show ?case by (cases x) auto
qed

lemma chain_snoc: "chain a (xs @ [(p, l)]) b \<longleftrightarrow> chain a xs p \<and> 0 < l \<and> p + l \<le> b"
  using chain_mono by (fastforce simp: chain_append)

lemma chain_empty: "chain a st a \<Longrightarrow> st = []"
  by (cases st) (fastforce dest: chain_le)+

lemma chain_bounds: "chain a st b \<Longrightarrow> (p, l) \<in> set st \<Longrightarrow> a \<le> p \<and> 0 < l \<and> p + l \<le> b"
  by (induction a st b rule: chain.induct) (auto dest: chain_le)

text \<open>The FIFO between used and free: one run of intervals, or two when it has wrapped.\<close>

definition ring :: "nat \<Rightarrow> nat \<Rightarrow> nat \<Rightarrow> (nat \<times> nat) list \<Rightarrow> bool" where
  "ring us fr cap st \<longleftrightarrow> us < cap \<and> fr < cap \<and>
     (if us \<le> fr then chain us st fr
      else \<exists>xs ys. st = xs @ ys \<and> chain us xs cap \<and> chain 0 ys fr)"

lemma ring_straight: "us \<le> fr \<Longrightarrow> fr < cap \<Longrightarrow> chain us st fr \<Longrightarrow> ring us fr cap st"
  by (simp add: ring_def)

lemma ring_wrapped:
  "fr < us \<Longrightarrow> us < cap \<Longrightarrow> chain us xs cap \<Longrightarrow> chain 0 ys fr \<Longrightarrow> ring us fr cap (xs @ ys)"
  by (auto simp: ring_def)

lemma ring_cases [consumes 1, case_names straight wrapped]:
  assumes "ring us fr cap st"
  obtains "us \<le> fr" "fr < cap" "chain us st fr"
  | xs ys where "fr < us" "us < cap" "st = xs @ ys" "chain us xs cap" "chain 0 ys fr"
  using assms by (auto simp: ring_def split: if_splits)

lemma ring_bounds:
  assumes "ring us fr cap st" "(p, l) \<in> set st"
  shows "0 < l \<and> p + l \<le> cap"
  using assms(1)
proof (cases rule: ring_cases)
  case straight
  with chain_bounds [OF straight(3) assms(2)] show ?thesis by simp
next
  case (wrapped xs ys)
  with assms(2) chain_bounds [OF wrapped(4)] chain_bounds [OF wrapped(5)] show ?thesis
    by fastforce
qed

text \<open>The last interval overlaps no other.\<close>

lemma ring_disjoint:
  assumes "ring us fr cap (st @ [(p, l)])" "(p', l') \<in> set st"
  shows "p' + l' \<le> p \<or> p + l \<le> p'"
  using assms(1)
proof (cases rule: ring_cases)
  case straight
  with assms(2) show ?thesis by (auto simp: chain_snoc dest: chain_bounds)
next
  case (wrapped xs ys)
  show ?thesis
  proof (cases ys rule: rev_cases)
    case Nil
    with wrapped assms(2) show ?thesis by (auto simp: chain_snoc dest: chain_bounds)
  next
    case (snoc ys' y)
    then have "st = xs @ ys'" "y = (p, l)"
      using wrapped(3) by simp_all
    moreover from this snoc wrapped have "chain 0 ys' p" "p + l \<le> fr"
      by (simp_all add: chain_snoc)
    ultimately show ?thesis
      using wrapped assms(2) by (fastforce dest: chain_bounds)
  qed
qed

text \<open>A place the FIFO offers can be appended to the layout.\<close>

definition offered :: "nat \<Rightarrow> nat \<Rightarrow> nat \<Rightarrow> nat \<Rightarrow> nat \<Rightarrow> nat \<Rightarrow> bool" where
  "offered us fr cap len pos fr' \<longleftrightarrow> 0 < len \<and> us < cap \<and> fr < cap \<and>
     (us \<le> fr \<and> pos = fr \<and> fr + len < cap \<and> fr' = fr + len \<or>
      us \<le> fr \<and> pos = fr \<and> fr + len = cap \<and> 0 < us \<and> fr' = 0 \<or>
      us \<le> fr \<and> pos = 0 \<and> len < us \<and> fr' = len \<or>
      fr < us \<and> pos = fr \<and> fr + len < us \<and> fr' = fr + len)"

lemma ring_offer:
  assumes "ring us fr cap st" "offered us fr cap len pos fr'"
  shows "ring us fr' cap (st @ [(pos, len)])"
  using assms(1)
proof (cases rule: ring_cases)
  case straight
  consider (mid) "pos = fr" "fr + len < cap" "fr' = fr + len" | (edge) "pos = fr" "fr + len = cap" "0 < us" "fr' = 0"
    | (wrap) "pos = 0" "len < us" "fr' = len"
    using assms(2) straight by (auto simp: offered_def)
  then show ?thesis
  proof cases
    case mid
    then show ?thesis using straight assms(2) by (intro ring_straight) (auto simp: chain_snoc offered_def)
  next
    case edge
    then have "ring us 0 cap ((st @ [(pos, len)]) @ [])"
      using straight assms(2) by (intro ring_wrapped) (auto simp: chain_snoc offered_def)
    then show ?thesis using edge by simp
  next
    case wrap
    then show ?thesis using straight assms(2)
      by (intro ring_wrapped) (auto simp: offered_def elim: chain_mono)
  qed
next
  case (wrapped xs ys)
  then have "pos = fr" "fr + len < us" "fr' = fr + len" "0 < len"
    using assms(2) by (auto simp: offered_def)
  with wrapped have "ring us fr' cap (xs @ (ys @ [(pos, len)]))"
    by (intro ring_wrapped) (auto simp: chain_snoc)
  then show ?thesis using wrapped by simp
qed

text \<open>Two adjacent last intervals are one.\<close>

lemma chain_join:
  "chain a (st @ [(p, l), (p + l, m)]) b \<longleftrightarrow> chain a (st @ [(p, l)]) (p + l) \<and> 0 < m \<and> p + l + m \<le> b"
  using chain_snoc [of a "st @ [(p, l)]" "p + l" m b] by auto

lemma ring_join:
  assumes "ring us fr cap (st @ [(p, l), (p + l, m)])"
  shows "ring us fr cap (st @ [(p, l + m)])"
  using assms
proof (cases rule: ring_cases)
  case straight
  then show ?thesis by (auto simp: chain_join chain_snoc intro: ring_straight)
next
  case (wrapped xs ys)
  show ?thesis
  proof (cases ys rule: rev_cases)
    case Nil
    then have "chain us (st @ [(p, l + m)]) cap"
      using wrapped by (auto simp: chain_join chain_snoc)
    from ring_wrapped [OF wrapped(1,2) this wrapped(5)] Nil show ?thesis by simp
  next
    case (snoc zs z)
    then have z: "z = (p + l, m)" "st @ [(p, l)] = xs @ zs"
      using wrapped(3) by simp_all
    show ?thesis
    proof (cases zs rule: rev_cases)
      case Nil
      then have "xs = st @ [(p, l)]" using z by simp
      with wrapped(4) have "us \<le> p" "0 < l"
        by (auto simp: chain_snoc dest: chain_le)
      moreover have "p + l + m \<le> fr"
        using wrapped(5) snoc z(1) by (simp add: chain_snoc)
      ultimately show ?thesis using wrapped(1) by simp
    next
      case (snoc us' u)
      then have u: "u = (p, l)" "st = xs @ us'" using z by simp_all
      have "chain 0 (us' @ [(p, l + m)]) fr"
        using wrapped(5) \<open>ys = zs @ [z]\<close> snoc u z chain_join [of 0 us' p l m fr]
        by (auto simp: chain_snoc)
      from ring_wrapped [OF wrapped(1,2,4) this] u show ?thesis by simp
    qed
  qed
qed

text \<open>Where the last interval ends at the free position, it can give back its tail.\<close>

definition ends_free :: "nat \<Rightarrow> nat \<Rightarrow> nat \<Rightarrow> nat \<Rightarrow> bool" where
  "ends_free p l fr cap \<longleftrightarrow> (if fr = 0 then p + l = cap else p + l = fr)"

lemma ring_shrink:
  assumes "ring us fr cap (st @ [(p, l)])" "ends_free p l fr cap" "0 < k" "k \<le> l"
  defines "fr' \<equiv> (if fr \<noteq> 0 then fr - k else cap - k)"
  shows "fr' = p + l - k"
    and "ring us fr' cap (if k = l then st else st @ [(p, l - k)])"
proof -
  show fr': "fr' = p + l - k"
    using assms by (auto simp: ends_free_def fr'_def)
  show "ring us fr' cap (if k = l then st else st @ [(p, l - k)])"
    using assms(1)
  proof (cases rule: ring_cases)
    case straight
    then have "chain us st p" "p + l \<le> fr"
      by (simp_all add: chain_snoc)
    then show ?thesis
      using fr' assms(3,4) straight chain_le [of us st p]
      by (auto intro!: ring_straight simp: chain_snoc)
  next
    case (wrapped xs ys)
    show ?thesis
    proof (cases ys rule: rev_cases)
      case Nil
      then have "chain us (st @ [(p, l)]) cap"
        using wrapped(3,4) by simp
      then have "chain us st p" "p + l \<le> cap"
        by (simp_all add: chain_snoc)
      then show ?thesis
        using fr' assms(3,4) wrapped chain_le [of us st p]
        by (auto intro!: ring_straight simp: chain_snoc)
    next
      case (snoc zs z)
      then have z: "z = (p, l)" "st = xs @ zs" using wrapped(3) by simp_all
      have c: "chain 0 zs p" "p + l \<le> fr"
        using wrapped(5) snoc z by (simp_all add: chain_snoc)
      have "ring us fr' cap (xs @ (if k = l then zs else zs @ [(p, l - k)]))"
        using c wrapped fr' assms(3,4) by (intro ring_wrapped) (auto simp: chain_snoc)
      then show ?thesis using z by (simp split: if_splits)
    qed
  qed
qed

text \<open>The first interval can be released.\<close>

lemma ring_release:
  assumes "ring us fr cap ((p, l) # st)"
  defines "us' \<equiv> (if p + l \<ge> cap then p + l - cap else p + l)"
  shows "if us' = fr then st = [] else ring us' fr cap st"
  using assms(1)
proof (cases rule: ring_cases)
  case straight
  then have c: "chain (p + l) st fr" "p + l < cap"
    by (auto dest: chain_le)
  then have "us' = p + l" by (simp add: us'_def)
  with c straight show ?thesis
    by (auto intro: chain_empty ring_straight dest: chain_le)
next
  case (wrapped xs ys)
  show ?thesis
  proof (cases xs)
    case Nil
    then have c: "chain (p + l) st fr" using wrapped by auto
    moreover from this wrapped have "us' = p + l" "fr < cap"
      by (auto simp: us'_def dest: chain_le)
    ultimately show ?thesis
      by (auto intro: chain_empty ring_straight dest: chain_le)
  next
    case (Cons x xs')
    then have x: "x = (p, l)" "st = xs' @ ys" using wrapped by simp_all
    have c: "us \<le> p" "0 < l" "chain (p + l) xs' cap"
      using wrapped(4) Cons x by simp_all
    show ?thesis
    proof (cases "p + l = cap")
      case True
      then have "xs' = []" "us' = 0" using c chain_empty by (auto simp: us'_def)
      then show ?thesis
        using x wrapped chain_empty [of 0 ys] by (auto intro: ring_straight)
    next
      case False
      then have "p + l < cap" "us' = p + l" using chain_le [OF c(3)] by (auto simp: us'_def)
      then show ?thesis
        using c wrapped x by (auto intro: ring_wrapped)
    qed
  qed
qed

end
