(* ===== verification/WriteBuffQueue.thy ===== *)
theory WriteBuffQueue
  imports RingLayout
begin

text \<open>
  The write queue \<open>UD::Comm::WriteBuffQueue\<close> of Common/WriteBuffQueue.h: buffers allocated
  from a static ring (\<open>WriteBuff\<close> with the two FIFO pointers) or from the heap, queued in
  \<open>OutBuffA\<close>, committed, popped for writing and released. Pointers into \<open>WriteBuff\<close> are
  offsets, heap blocks have numbers; \<open>boost::circular_buffer\<close> and \<open>std::list\<close> are lists.
\<close>

section \<open>State\<close>

datatype bptr = StaticPtr nat | DynPtr nat

datatype BUFFERSTATE = BS_ALLOCATED | BS_PENDING | BS_WRITING | BS_NOTUSED

record dyn_buffer =
  db_Buff :: nat
  db_Length :: nat

record buffer =
  bf_Buff :: bptr
  bf_Length :: nat
  bf_AllocLength :: nat
  bf_State :: BUFFERSTATE

record 'b wbq =
  wq_mem :: "'b list"
  wq_FIFOFreeBegin :: nat
  wq_FIFOUsedBegin :: nat
  wq_LastAllocLength :: nat
  wq_OutBuffA :: "buffer list"
  wq_FirstPendingI :: nat
  wq_FreeBuffList :: "dyn_buffer list"
  wq_heap :: "nat \<Rightarrow> 'b list"
  wq_next :: nat

definition wq_init :: "(nat \<Rightarrow> 'b) \<Rightarrow> nat \<Rightarrow> 'b wbq" where
  "wq_init junk cap = \<lparr>wq_mem = fresh junk cap, wq_FIFOFreeBegin = 0, wq_FIFOUsedBegin = 0,
     wq_LastAllocLength = 0, wq_OutBuffA = [], wq_FirstPendingI = 0, wq_FreeBuffList = [],
     wq_heap = (\<lambda>_. []), wq_next = 0\<rparr>"

fun IsStaticBuffer :: "buffer \<Rightarrow> bool" where
  "IsStaticBuffer b = (case bf_Buff b of StaticPtr _ \<Rightarrow> True | DynPtr _ \<Rightarrow> False)"

fun dyn_of :: "buffer \<Rightarrow> dyn_buffer list" where
  "dyn_of b = (case bf_Buff b of StaticPtr _ \<Rightarrow> []
     | DynPtr i \<Rightarrow> [\<lparr>db_Buff = i, db_Length = bf_AllocLength b\<rparr>])"

section \<open>Operations\<close>

text \<open>\<open>Reset\<close>: dynamic buffers are deleted, or retained in the free list.\<close>

definition wq_Reset :: "bool \<Rightarrow> 'b wbq \<Rightarrow> 'b wbq" where
  "wq_Reset releaseDynamicBuffers q =
     q\<lparr>wq_FIFOFreeBegin := 0, wq_FIFOUsedBegin := 0, wq_LastAllocLength := 0,
       wq_FreeBuffList := (if releaseDynamicBuffers then []
                           else wq_FreeBuffList q @ concat (map dyn_of (wq_OutBuffA q))),
       wq_OutBuffA := [], wq_FirstPendingI := 0\<rparr>"

definition GetContinousFreeFIFOLength :: "'b wbq \<Rightarrow> nat \<times> nat" where
  "GetContinousFreeFIFOLength q =
     (let cap = length (wq_mem q); fr = wq_FIFOFreeBegin q; us = wq_FIFOUsedBegin q
      in if fr \<ge> us
         then ((if us \<noteq> 0 then u32_of (cap - fr) else u32_sub (cap - fr) 1),
               (if us > 0 then u32_of (us - 1) else 0))
         else ((if us > fr then u32_of (us - fr - 1) else 0), 0))"

text \<open>The place the FIFO offers for a write of \<open>len\<close> bytes, with the next free position.\<close>

definition fifo_place :: "nat \<Rightarrow> 'b wbq \<Rightarrow> (nat \<times> nat) option" where
  "fifo_place len q =
     (if len < length (wq_mem q)
      then let (beginLen, fifoBeginLen) = GetContinousFreeFIFOLength q
           in if len \<le> beginLen
              then Some (wq_FIFOFreeBegin q,
                         (if wq_FIFOFreeBegin q + len \<ge> length (wq_mem q) then 0
                          else wq_FIFOFreeBegin q + len))
              else if len \<le> fifoBeginLen then Some (0, len) else None
      else None)"

text \<open>The search for the smallest stored heap buffer that is large enough: the loop over
  \<open>FreeBuffList\<close> with the best index and length so far.\<close>

fun close_search :: "nat \<Rightarrow> dyn_buffer list \<Rightarrow> nat \<Rightarrow> nat option \<times> nat \<Rightarrow> nat option \<times> nat" where
  "close_search len [] i best = best"
| "close_search len (d # ds) i best =
     close_search len ds (Suc i)
       (if db_Length d \<ge> len \<and> db_Length d < snd best then (Some i, db_Length d) else best)"

definition list_remove :: "nat \<Rightarrow> 'a list \<Rightarrow> 'a list" where
  "list_remove i xs = take i xs @ drop (Suc i) xs"

definition extends_last :: "nat \<Rightarrow> buffer list \<Rightarrow> bool" where
  "extends_last pos bs \<longleftrightarrow> bs \<noteq> [] \<and> bf_State (last bs) = BS_PENDING
     \<and> (case bf_Buff (last bs) of StaticPtr p \<Rightarrow> p + bf_Length (last bs) = pos | DynPtr _ \<Rightarrow> False)"

definition Allocate :: "(nat \<Rightarrow> 'b) \<Rightarrow> nat \<Rightarrow> 'b wbq \<Rightarrow> bptr option \<times> 'b wbq" where
  "Allocate junk len q =
     (if len = 0 then (None, q)
      else
        let q1 = q\<lparr>wq_LastAllocLength := len\<rparr>; out = wq_OutBuffA q
        in case fifo_place len q1 of
             Some (pos, free') \<Rightarrow>
               (Some (StaticPtr pos),
                q1\<lparr>wq_FIFOFreeBegin := free',
                   wq_OutBuffA :=
                     (if extends_last pos out
                      then butlast out @ [(last out)\<lparr>bf_Length := u32_add (bf_Length (last out)) len,
                                                     bf_State := BS_ALLOCATED\<rparr>]
                      else out @ [\<lparr>bf_Buff = StaticPtr pos, bf_Length = len, bf_AllocLength = len,
                                   bf_State = BS_ALLOCATED\<rparr>])\<rparr>)
           | None \<Rightarrow>
               (case close_search len (wq_FreeBuffList q1) 0 (None, U32 - 1) of
                  (Some i, closeLength) \<Rightarrow>
                    let d = wq_FreeBuffList q1 ! i
                    in (Some (DynPtr (db_Buff d)),
                        q1\<lparr>wq_FreeBuffList := list_remove i (wq_FreeBuffList q1),
                           wq_OutBuffA := out @ [\<lparr>bf_Buff = DynPtr (db_Buff d), bf_Length = len,
                             bf_AllocLength = closeLength, bf_State = BS_ALLOCATED\<rparr>]\<rparr>)
                | (None, _) \<Rightarrow>
                    let allocLength = ROUNDUP_POWEROFTWO len 8; i = wq_next q1
                    in (Some (DynPtr i),
                        q1\<lparr>wq_heap := (wq_heap q1)(i := fresh junk allocLength), wq_next := Suc i,
                           wq_OutBuffA := out @ [\<lparr>bf_Buff = DynPtr i, bf_Length = len,
                             bf_AllocLength = allocLength, bf_State = BS_ALLOCATED\<rparr>]\<rparr>)))"

text \<open>The client's write through the returned pointer.\<close>

fun wq_store :: "bptr \<Rightarrow> 'b list \<Rightarrow> 'b wbq \<Rightarrow> 'b wbq" where
  "wq_store (StaticPtr p) xs q = q\<lparr>wq_mem := mem_write (wq_mem q) p xs\<rparr>"
| "wq_store (DynPtr i) xs q = q\<lparr>wq_heap := (wq_heap q)(i := mem_write (wq_heap q i) 0 xs)\<rparr>"

definition Commit :: "nat \<Rightarrow> 'b wbq \<Rightarrow> 'b wbq" where
  "Commit len q =
     (let out = wq_OutBuffA q; l = last out; pend = (\<lambda>b. butlast out @ [b\<lparr>bf_State := BS_PENDING\<rparr>])
      in if out \<noteq> [] \<and> bf_State l = BS_ALLOCATED
         then if len < wq_LastAllocLength q
              then if IsStaticBuffer l
                   then let shrink = u32_sub (wq_LastAllocLength q) len;
                            l1 = l\<lparr>bf_Length := u32_sub (bf_Length l) shrink\<rparr>;
                            q1 = q\<lparr>wq_FIFOFreeBegin := (if wq_FIFOFreeBegin q \<noteq> 0
                                     then wq_FIFOFreeBegin q - shrink
                                     else length (wq_mem q) - shrink)\<rparr>
                        in if bf_Length l1 = 0 then q1\<lparr>wq_OutBuffA := butlast out\<rparr>
                           else q1\<lparr>wq_OutBuffA := pend l1\<rparr>
                   else if len \<noteq> 0
                   then q\<lparr>wq_OutBuffA := pend (l\<lparr>bf_Length := len\<rparr>)\<rparr>
                   else q\<lparr>wq_FreeBuffList := wq_FreeBuffList q @ dyn_of l,
                          wq_OutBuffA := butlast out\<rparr>
              else q\<lparr>wq_OutBuffA := pend l\<rparr>
         else q)"

text \<open>The default argument \<open>~0\<close> of \<open>Commit\<close>.\<close>

definition Commit_all :: "'b wbq \<Rightarrow> 'b wbq" where
  "Commit_all q = Commit (U32 - 1) q"

definition Push :: "(nat \<Rightarrow> 'b) \<Rightarrow> 'b list \<Rightarrow> 'b wbq \<Rightarrow> 'b wbq" where
  "Push junk src q =
     (case Allocate junk (length src) q of
        (None, q1) \<Rightarrow> Commit_all q1
      | (Some p, q1) \<Rightarrow> Commit_all (wq_store p src q1))"

definition Pop :: "'b wbq \<Rightarrow> (bptr \<times> nat) option \<times> 'b wbq" where
  "Pop q =
     (let i = wq_FirstPendingI q
      in if i < length (wq_OutBuffA q)
         then let b = wq_OutBuffA q ! i
              in (Some (bf_Buff b, bf_Length b),
                  q\<lparr>wq_OutBuffA := (wq_OutBuffA q)[i := b\<lparr>bf_State := BS_WRITING\<rparr>],
                    wq_FirstPendingI := Suc i\<rparr>)
         else (None, q))"

definition Release :: "'b wbq \<Rightarrow> 'b wbq" where
  "Release q =
     (case wq_OutBuffA q of
        [] \<Rightarrow> q
      | b # out \<Rightarrow>
          if bf_State b \<noteq> BS_WRITING then q
          else let q1 = q\<lparr>wq_OutBuffA := out, wq_FirstPendingI := u32_sub (wq_FirstPendingI q) 1\<rparr>
               in (case bf_Buff b of
                     StaticPtr p \<Rightarrow>
                       let e = p + bf_Length b;
                           us = (if e \<ge> length (wq_mem q) then e - length (wq_mem q) else e)
                       in if us = wq_FIFOFreeBegin q1
                          then q1\<lparr>wq_FIFOUsedBegin := 0, wq_FIFOFreeBegin := 0\<rparr>
                          else q1\<lparr>wq_FIFOUsedBegin := us\<rparr>
                   | DynPtr _ \<Rightarrow> q1\<lparr>wq_FreeBuffList := wq_FreeBuffList q1 @ dyn_of b\<rparr>))"

text \<open>An allocation of \<open>n\<close> bytes of which the client writes \<open>xs\<close> and commits that many: how
  the connections use the queue.\<close>

definition wq_put :: "(nat \<Rightarrow> 'b) \<Rightarrow> nat \<Rightarrow> 'b list \<Rightarrow> 'b wbq \<Rightarrow> 'b wbq" where
  "wq_put junk n xs q =
     (case Allocate junk n q of
        (None, q1) \<Rightarrow> Commit (length xs) q1
      | (Some p, q1) \<Rightarrow> Commit (length xs) (wq_store p xs q1))"

section \<open>Contents\<close>

definition bf_bytes :: "'b wbq \<Rightarrow> buffer \<Rightarrow> 'b list" where
  "bf_bytes q b = (case bf_Buff b of
      StaticPtr p \<Rightarrow> seg (wq_mem q) p (bf_Length b)
    | DynPtr i \<Rightarrow> seg (wq_heap q i) 0 (bf_Length b))"

text \<open>The buffers handed out for writing, and the bytes not yet handed out.\<close>

definition wq_inflight :: "'b wbq \<Rightarrow> 'b list list" where
  "wq_inflight q = map (bf_bytes q) (take (wq_FirstPendingI q) (wq_OutBuffA q))"

definition wq_pending :: "'b wbq \<Rightarrow> 'b list" where
  "wq_pending q = concat (map (bf_bytes q) (drop (wq_FirstPendingI q) (wq_OutBuffA q)))"

section \<open>Invariant\<close>

definition statics :: "buffer list \<Rightarrow> (nat \<times> nat) list" where
  "statics bs = concat (map (\<lambda>b. case bf_Buff b of StaticPtr p \<Rightarrow> [(p, bf_Length b)]
     | DynPtr _ \<Rightarrow> []) bs)"

definition blocks :: "buffer list \<Rightarrow> nat list" where
  "blocks bs = concat (map (\<lambda>b. case bf_Buff b of StaticPtr _ \<Rightarrow> [] | DynPtr i \<Rightarrow> [i]) bs)"

definition buffer_ok :: "(nat \<Rightarrow> 'b list) \<Rightarrow> nat \<Rightarrow> buffer \<Rightarrow> bool" where
  "buffer_ok heap nxt b \<longleftrightarrow> 0 < bf_Length b \<and>
     (case bf_Buff b of StaticPtr _ \<Rightarrow> True
      | DynPtr i \<Rightarrow> bf_Length b \<le> bf_AllocLength b \<and> bf_AllocLength b = length (heap i)
          \<and> bf_AllocLength b < U32 \<and> i < nxt)"

definition free_ok :: "(nat \<Rightarrow> 'b list) \<Rightarrow> nat \<Rightarrow> dyn_buffer \<Rightarrow> bool" where
  "free_ok heap nxt d \<longleftrightarrow> db_Length d = length (heap (db_Buff d)) \<and> db_Length d < U32 \<and> db_Buff d < nxt"

text \<open>Storage: the ring, the heap blocks of the queued buffers and of the free list.\<close>

definition wq_base :: "'b wbq \<Rightarrow> bool" where
  "wq_base q \<longleftrightarrow> length (wq_mem q) < U32
     \<and> ring (wq_FIFOUsedBegin q) (wq_FIFOFreeBegin q) (length (wq_mem q)) (statics (wq_OutBuffA q))
     \<and> (\<forall>b \<in> set (wq_OutBuffA q). buffer_ok (wq_heap q) (wq_next q) b)
     \<and> (\<forall>d \<in> set (wq_FreeBuffList q). free_ok (wq_heap q) (wq_next q) d)
     \<and> distinct (blocks (wq_OutBuffA q) @ map db_Buff (wq_FreeBuffList q))"

definition wq_states :: "nat \<Rightarrow> buffer list \<Rightarrow> bool" where
  "wq_states i bs \<longleftrightarrow> i \<le> length bs \<and> (\<forall>b \<in> set (take i bs). bf_State b = BS_WRITING)
     \<and> (\<forall>b \<in> set (drop i bs). bf_State b = BS_PENDING)"

text \<open>The invariant between two writes: no buffer waits for its commit.\<close>

definition wq_inv :: "'b wbq \<Rightarrow> bool" where
  "wq_inv q \<longleftrightarrow> wq_base q \<and> wq_states (wq_FirstPendingI q) (wq_OutBuffA q)
     \<and> length (wq_OutBuffA q) < U32"

text \<open>The state while one write is allocated: buffer \<open>b\<close> is the last one, its first \<open>l0\<close>
  bytes are committed, the other \<open>n\<close> are the client's.\<close>

definition wq_open :: "'b wbq \<Rightarrow> buffer list \<Rightarrow> buffer \<Rightarrow> nat \<Rightarrow> nat \<Rightarrow> bool" where
  "wq_open q bs b l0 n \<longleftrightarrow> wq_base q \<and> wq_OutBuffA q = bs @ [b] \<and> bf_State b = BS_ALLOCATED
     \<and> bf_Length b = l0 + n \<and> wq_LastAllocLength q = n \<and> 0 < n \<and> n < U32
     \<and> wq_states (wq_FirstPendingI q) bs \<and> length bs + 1 < U32
     \<and> (case bf_Buff b of
          StaticPtr p \<Rightarrow> ends_free p (l0 + n) (wq_FIFOFreeBegin q) (length (wq_mem q))
        | DynPtr _ \<Rightarrow> l0 = 0)"

fun ptr_at :: "bptr \<Rightarrow> nat \<Rightarrow> bptr" where
  "ptr_at (StaticPtr p) k = StaticPtr (p + k)"
| "ptr_at (DynPtr i) k = DynPtr i"

lemma statics_simps [simp]: "statics [] = []" "statics (xs @ ys) = statics xs @ statics ys"
  "statics (b # bs) = (case bf_Buff b of StaticPtr p \<Rightarrow> [(p, bf_Length b)] | DynPtr _ \<Rightarrow> []) @ statics bs"
  by (simp_all add: statics_def)

lemma blocks_simps [simp]: "blocks [] = []" "blocks (xs @ ys) = blocks xs @ blocks ys"
  "blocks (b # bs) = (case bf_Buff b of StaticPtr p \<Rightarrow> [] | DynPtr i \<Rightarrow> [i]) @ blocks bs"
  by (simp_all add: blocks_def)

lemma statics_mem: "b \<in> set bs \<Longrightarrow> bf_Buff b = StaticPtr p \<Longrightarrow> (p, bf_Length b) \<in> set (statics bs)"
  by (induction bs) auto

lemma blocks_mem: "b \<in> set bs \<Longrightarrow> bf_Buff b = DynPtr i \<Longrightarrow> i \<in> set (blocks bs)"
  by (induction bs) auto

lemma blocks_bound: "\<forall>b \<in> set bs. buffer_ok heap nxt b \<Longrightarrow> i \<in> set (blocks bs) \<Longrightarrow> i < nxt"
  by (induction bs) (auto simp: buffer_ok_def split: bptr.splits)

lemma wq_base_init: "0 < cap \<Longrightarrow> cap < U32 \<Longrightarrow> wq_inv (wq_init junk cap)"
  by (simp add: wq_inv_def wq_base_def wq_init_def wq_states_def ring_def)

subsection \<open>Allocation\<close>

lemma fifo_place_offered:
  assumes "fifo_place len q = Some (pos, fr')" "0 < len"
    and "wq_FIFOUsedBegin q < length (wq_mem q)" "wq_FIFOFreeBegin q < length (wq_mem q)"
    and "length (wq_mem q) < U32"
  shows "offered (wq_FIFOUsedBegin q) (wq_FIFOFreeBegin q) (length (wq_mem q)) len pos fr'"
proof (cases "wq_FIFOUsedBegin q \<le> wq_FIFOFreeBegin q")
  case True
  then show ?thesis
    using assms by (auto simp: fifo_place_def GetContinousFreeFIFOLength_def u32_simps offered_def
        Let_def split: if_splits)
next
  case False
  then show ?thesis
    using assms by (auto simp: fifo_place_def GetContinousFreeFIFOLength_def u32_simps offered_def
        Let_def split: if_splits)
qed

lemma close_search_result:
  assumes "close_search len ds i best = (Some k, c)"
    and "\<And>j. fst best = Some j \<Longrightarrow> j < i"
  shows "(fst best = Some k \<and> snd best = c) \<or>
    (i \<le> k \<and> k < i + length ds \<and> db_Length (ds ! (k - i)) = c \<and> len \<le> c)"
  using assms
proof (induction len ds i best rule: close_search.induct)
  case (2 len d ds i best)
  let ?best = "if db_Length d \<ge> len \<and> db_Length d < snd best then (Some i, db_Length d) else best"
  have IH: "(fst ?best = Some k \<and> snd ?best = c) \<or>
    (Suc i \<le> k \<and> k < Suc i + length ds \<and> db_Length (ds ! (k - Suc i)) = c \<and> len \<le> c)"
    using 2 by (force split: if_splits)
  then show ?case
    by (auto simp: nth_Cons' split: if_splits)
qed simp

lemma list_remove_nth:
  "k < length xs \<Longrightarrow> \<exists>ys zs. xs = ys @ xs ! k # zs \<and> list_remove k xs = ys @ zs"
  unfolding list_remove_def by (metis id_take_nth_drop)

lemma wq_baseD:
  assumes "wq_base q"
  shows "length (wq_mem q) < U32"
    "ring (wq_FIFOUsedBegin q) (wq_FIFOFreeBegin q) (length (wq_mem q)) (statics (wq_OutBuffA q))"
    "\<And>b. b \<in> set (wq_OutBuffA q) \<Longrightarrow> buffer_ok (wq_heap q) (wq_next q) b"
    "\<And>d. d \<in> set (wq_FreeBuffList q) \<Longrightarrow> free_ok (wq_heap q) (wq_next q) d"
    "distinct (blocks (wq_OutBuffA q) @ map db_Buff (wq_FreeBuffList q))"
    "wq_FIFOUsedBegin q < length (wq_mem q)" "wq_FIFOFreeBegin q < length (wq_mem q)"
  using assms by (auto simp: wq_base_def ring_def)

lemma offered_ends_free:
  "offered us fr cap n pos fr' \<Longrightarrow> ends_free pos n fr' cap"
  by (auto simp: offered_def ends_free_def)

lemma offered_pos: "offered us fr cap n pos fr' \<Longrightarrow> 0 < n \<and> pos + n \<le> cap"
  by (auto simp: offered_def)

text \<open>What \<open>Allocate\<close> leaves unchanged, and how the queue has grown.\<close>

definition grown :: "'b wbq \<Rightarrow> 'b wbq \<Rightarrow> buffer list \<Rightarrow> buffer \<Rightarrow> nat \<Rightarrow> bool" where
  "grown q q' bs b l0 \<longleftrightarrow> wq_FirstPendingI q' = wq_FirstPendingI q \<and> wq_mem q' = wq_mem q
     \<and> (\<forall>i < wq_next q. wq_heap q' i = wq_heap q i)
     \<and> wq_OutBuffA q = bs @ (if l0 = 0 then [] else [b\<lparr>bf_Length := l0, bf_State := BS_PENDING\<rparr>])"

lemma last_pending:
  assumes "wq_states i (bs @ [b])" "bf_State b = BS_PENDING"
  shows "wq_states i bs"
proof -
  have "i \<noteq> Suc (length bs)"
  proof
    assume "i = Suc (length bs)"
    then have "b \<in> set (take i (bs @ [b]))" by simp
    with assms show False by (auto simp: wq_states_def)
  qed
  with assms have "i \<le> length bs" by (simp add: wq_states_def)
  with assms show ?thesis by (simp add: wq_states_def)
qed

lemma Allocate_ring:
  assumes "wq_inv q" "0 < n" "n < U32" "length (wq_OutBuffA q) + 1 < U32"
    and f: "fifo_place n (q\<lparr>wq_LastAllocLength := n\<rparr>) = Some (pos, fr')"
  shows "\<exists>q' bs b l0. Allocate junk n q = (Some (ptr_at (bf_Buff b) l0), q')
    \<and> wq_open q' bs b l0 n \<and> grown q q' bs b l0"
proof -
  have base: "wq_base q" and st: "wq_states (wq_FirstPendingI q) (wq_OutBuffA q)"
    using assms(1) by (simp_all add: wq_inv_def)
  note B = wq_baseD [OF base]
  have off: "offered (wq_FIFOUsedBegin q) (wq_FIFOFreeBegin q) (length (wq_mem q)) n pos fr'"
    using fifo_place_offered [OF f assms(2)] B by simp
  note R = ring_offer [OF B(2) off]
  show ?thesis
  proof (cases "extends_last pos (wq_OutBuffA q)")
    case False
    let ?b = "\<lparr>bf_Buff = StaticPtr pos, bf_Length = n, bf_AllocLength = n, bf_State = BS_ALLOCATED\<rparr>"
    let ?q = "q\<lparr>wq_LastAllocLength := n, wq_FIFOFreeBegin := fr', wq_OutBuffA := wq_OutBuffA q @ [?b]\<rparr>"
    have "Allocate junk n q = (Some (ptr_at (bf_Buff ?b) 0), ?q)"
      using f False assms(2) by (simp add: Allocate_def Let_def)
    moreover have "wq_base ?q"
      using B R assms(2) by (auto simp: wq_base_def buffer_ok_def)
    then have "wq_open ?q (wq_OutBuffA q) ?b 0 n"
      using assms st off by (simp add: wq_open_def offered_ends_free)
    moreover have "grown q ?q (wq_OutBuffA q) ?b 0"
      by (simp add: grown_def)
    ultimately show ?thesis by blast
  next
    case True
    then obtain bs l p where out: "wq_OutBuffA q = bs @ [l]" and l: "bf_State l = BS_PENDING"
      "bf_Buff l = StaticPtr p" "p + bf_Length l = pos"
      by (cases "wq_OutBuffA q" rule: rev_cases) (auto simp: extends_last_def split: bptr.splits)
    let ?k = "bf_Length l"
    have k: "0 < ?k"
      using B(3) out by (auto simp: buffer_ok_def)
    have small: "?k + n < U32"
      using offered_pos [OF off] l(3) B(1) by linarith
    let ?b = "l\<lparr>bf_Length := ?k + n, bf_State := BS_ALLOCATED\<rparr>"
    let ?q = "q\<lparr>wq_LastAllocLength := n, wq_FIFOFreeBegin := fr', wq_OutBuffA := bs @ [?b]\<rparr>"
    have "Allocate junk n q = (Some (ptr_at (bf_Buff ?b) ?k), ?q)"
      using f True assms(2) l small by (simp add: Allocate_def Let_def out u32_simps)
    moreover have "ring (wq_FIFOUsedBegin q) fr' (length (wq_mem q)) (statics bs @ [(p, ?k + n)])"
      using R l ring_join [of _ _ _ "statics bs" p ?k n] by (simp add: out)
    then have "wq_base ?q"
      using B l k unfolding wq_base_def by (auto simp: out buffer_ok_def)
    then have "wq_open ?q bs ?b ?k n"
      using assms st off l last_pending [of "wq_FirstPendingI q" bs l] offered_ends_free [OF off]
      by (auto simp: wq_open_def out ends_free_def)
    moreover have "grown q ?q bs ?b ?k"
      using k l by (simp add: grown_def out)
    ultimately show ?thesis by blast
  qed
qed

lemma Allocate_heap:
  assumes "wq_inv q" "0 < n" "n + 255 < U32" "length (wq_OutBuffA q) + 1 < U32"
    and f: "fifo_place n (q\<lparr>wq_LastAllocLength := n\<rparr>) = None"
  shows "\<exists>q' bs b l0. Allocate junk n q = (Some (ptr_at (bf_Buff b) l0), q')
    \<and> wq_open q' bs b l0 n \<and> grown q q' bs b l0"
proof -
  have base: "wq_base q" and st: "wq_states (wq_FirstPendingI q) (wq_OutBuffA q)"
    using assms(1) by (simp_all add: wq_inv_def)
  note B = wq_baseD [OF base]
  show ?thesis
  proof (cases "close_search n (wq_FreeBuffList q) 0 (None, U32 - 1)")
    case (Pair r c)
    show ?thesis
    proof (cases r)
      case (Some k)
      then have k: "k < length (wq_FreeBuffList q)" "db_Length (wq_FreeBuffList q ! k) = c" "n \<le> c"
        using close_search_result [of n "wq_FreeBuffList q" 0 "(None, U32 - 1)" k c] Pair by auto
      let ?d = "wq_FreeBuffList q ! k"
      obtain ys zs where split: "wq_FreeBuffList q = ys @ ?d # zs"
        "list_remove k (wq_FreeBuffList q) = ys @ zs"
        using list_remove_nth [OF k(1)] by blast
      let ?b = "\<lparr>bf_Buff = DynPtr (db_Buff ?d), bf_Length = n, bf_AllocLength = c, bf_State = BS_ALLOCATED\<rparr>"
      let ?q = "q\<lparr>wq_LastAllocLength := n, wq_FreeBuffList := ys @ zs, wq_OutBuffA := wq_OutBuffA q @ [?b]\<rparr>"
      have "Allocate junk n q = (Some (ptr_at (bf_Buff ?b) 0), ?q)"
        using f Some Pair assms(2) split(2) by (simp add: Allocate_def Let_def)
      moreover have "free_ok (wq_heap q) (wq_next q) ?d"
        using B(4) k(1) by simp
      then have "buffer_ok (wq_heap q) (wq_next q) ?b"
        using k assms(2) by (simp add: buffer_ok_def free_ok_def)
      moreover have "distinct (blocks (wq_OutBuffA q) @ [db_Buff ?d] @ map db_Buff (ys @ zs))"
        using B(5) by (subst (asm) split(1)) auto
      moreover have "set (ys @ zs) \<subseteq> set (wq_FreeBuffList q)"
        using arg_cong [OF split(1), of set] by auto
      then have "\<forall>d \<in> set (ys @ zs). free_ok (wq_heap q) (wq_next q) d"
        using B(4) by blast
      ultimately have "wq_base ?q"
        using B(1,2,3) by (auto simp: wq_base_def)
      then have "wq_open ?q (wq_OutBuffA q) ?b 0 n"
        using assms st by (simp add: wq_open_def)
      moreover have "grown q ?q (wq_OutBuffA q) ?b 0"
        by (simp add: grown_def)
      ultimately show ?thesis
        using \<open>Allocate junk n q = _\<close> by blast
    next
      case None
      let ?a = "ROUNDUP_POWEROFTWO n 8" and ?i = "wq_next q"
      have a: "n \<le> ?a" "?a < U32"
        using ROUNDUP_bounds [of n 8] assms(3) by simp_all
      let ?b = "\<lparr>bf_Buff = DynPtr ?i, bf_Length = n, bf_AllocLength = ?a, bf_State = BS_ALLOCATED\<rparr>"
      let ?q = "q\<lparr>wq_LastAllocLength := n, wq_heap := (wq_heap q)(?i := fresh junk ?a),
        wq_next := Suc ?i, wq_OutBuffA := wq_OutBuffA q @ [?b]\<rparr>"
      have "Allocate junk n q = (Some (ptr_at (bf_Buff ?b) 0), ?q)"
        using f None Pair assms(2) by (simp add: Allocate_def Let_def)
      moreover have "?i \<notin> set (blocks (wq_OutBuffA q))"
        using blocks_bound [of "wq_OutBuffA q" "wq_heap q" ?i ?i] B(3) by auto
      moreover have "?i \<notin> db_Buff ` set (wq_FreeBuffList q)"
        using B(4) unfolding free_ok_def by (metis image_iff less_irrefl)
      moreover have "buffer_ok ((wq_heap q)(?i := fresh junk ?a)) (Suc ?i) b" if "b \<in> set (wq_OutBuffA q)" for b
        using B(3) [OF that] by (auto simp: buffer_ok_def split: bptr.splits)
      moreover have "free_ok ((wq_heap q)(?i := fresh junk ?a)) (Suc ?i) d" if "d \<in> set (wq_FreeBuffList q)" for d
        using B(4) [OF that] by (auto simp: free_ok_def)
      ultimately have "wq_base ?q"
        using B(1,2,5) a assms(2) by (auto simp: wq_base_def buffer_ok_def)
      then have "wq_open ?q (wq_OutBuffA q) ?b 0 n"
        using assms st by (simp add: wq_open_def)
      moreover have "grown q ?q (wq_OutBuffA q) ?b 0"
        by (simp add: grown_def)
      ultimately show ?thesis
        using \<open>Allocate junk n q = _\<close> by blast
    qed
  qed
qed

subsection \<open>Writing and committing\<close>

lemma wq_openD:
  assumes "wq_open q bs b l0 n"
  shows "wq_base q" "wq_OutBuffA q = bs @ [b]" "bf_State b = BS_ALLOCATED" "bf_Length b = l0 + n"
    "wq_LastAllocLength q = n" "0 < n" "n < U32" "wq_states (wq_FirstPendingI q) bs"
    "length bs + 1 < U32"
  using assms by (simp_all add: wq_open_def)

lemma bf_bytes_static:
  "bf_Buff b = StaticPtr p \<Longrightarrow> bf_bytes q b = seg (wq_mem q) p (bf_Length b)"
  by (simp add: bf_bytes_def)

lemma bf_bytes_dyn: "bf_Buff b = DynPtr i \<Longrightarrow> bf_bytes q b = seg (wq_heap q i) 0 (bf_Length b)"
  by (simp add: bf_bytes_def)

lemma wq_store_static:
  assumes "wq_open q bs b l0 n" "length xs \<le> n" "bf_Buff b = StaticPtr p"
  defines "q' \<equiv> wq_store (ptr_at (bf_Buff b) l0) xs q"
  shows "wq_open q' bs b l0 n" "\<forall>c \<in> set bs. bf_bytes q' c = bf_bytes q c"
    "take (l0 + length xs) (bf_bytes q' b) = take l0 (bf_bytes q b) @ xs"
proof -
  note O = wq_openD [OF assms(1)] and B = wq_baseD [OF wq_openD(1) [OF assms(1)]]
  have q': "q' = q\<lparr>wq_mem := mem_write (wq_mem q) (p + l0) xs\<rparr>"
    by (simp add: q'_def assms(3))
  have r: "ring (wq_FIFOUsedBegin q) (wq_FIFOFreeBegin q) (length (wq_mem q)) (statics bs @ [(p, l0 + n)])"
    using B(2) O(2,4) assms(3) by simp
  then have fits: "p + (l0 + n) \<le> length (wq_mem q)"
    using ring_bounds by fastforce
  then have len: "length (mem_write (wq_mem q) (p + l0) xs) = length (wq_mem q)"
    using assms(2) by (simp add: mem_simps)
  then show "wq_open q' bs b l0 n"
    using assms(1) O(2,4) assms(3) unfolding q' wq_open_def wq_base_def by simp
  show "\<forall>c \<in> set bs. bf_bytes q' c = bf_bytes q c"
  proof
    fix c assume c: "c \<in> set bs"
    show "bf_bytes q' c = bf_bytes q c"
    proof (cases "bf_Buff c")
      case (StaticPtr p')
      with ring_disjoint [OF r statics_mem [OF c StaticPtr]] fits assms(2) show ?thesis
        by (auto simp: bf_bytes_def q' mem_simps)
    qed (simp add: bf_bytes_def q')
  qed
  have "take (l0 + length xs) (bf_bytes q' b) =
      seg (mem_write (wq_mem q) (p + l0) xs) p (l0 + length xs)"
    using assms(2) by (simp add: bf_bytes_static [OF assms(3)] O(4) take_seg q' min_def)
  also have "\<dots> = seg (mem_write (wq_mem q) (p + l0) xs) p l0
      @ seg (mem_write (wq_mem q) (p + l0) xs) (p + l0) (length xs)"
    by (simp add: seg_extend)
  also have "\<dots> = seg (wq_mem q) p l0 @ xs"
    using fits assms(2) by (simp add: mem_simps)
  finally show "take (l0 + length xs) (bf_bytes q' b) = take l0 (bf_bytes q b) @ xs"
    by (simp add: bf_bytes_static [OF assms(3)] O(4) take_seg)
qed

lemma wq_store_dyn:
  assumes "wq_open q bs b l0 n" "length xs \<le> n" "bf_Buff b = DynPtr i"
  defines "q' \<equiv> wq_store (ptr_at (bf_Buff b) l0) xs q"
  shows "wq_open q' bs b l0 n" "\<forall>c \<in> set bs. bf_bytes q' c = bf_bytes q c"
    "take (l0 + length xs) (bf_bytes q' b) = take l0 (bf_bytes q b) @ xs"
proof -
  note O = wq_openD [OF assms(1)] and B = wq_baseD [OF wq_openD(1) [OF assms(1)]]
  let ?m = "mem_write (wq_heap q i) 0 xs"
  have l0: "l0 = 0"
    using assms(1,3) by (simp add: wq_open_def)
  have q': "q' = q\<lparr>wq_heap := (wq_heap q)(i := ?m)\<rparr>"
    by (simp add: q'_def assms(3))
  have fits: "n \<le> length (wq_heap q i)"
    using B(3) [of b] O(2,4) assms(3) l0 by (simp add: buffer_ok_def)
  then have len: "length ?m = length (wq_heap q i)"
    using assms(2) by (simp add: mem_simps)
  have "buffer_ok ((wq_heap q)(i := ?m)) (wq_next q) c = buffer_ok (wq_heap q) (wq_next q) c" for c
    using len by (auto simp: buffer_ok_def split: bptr.splits)
  moreover have "free_ok ((wq_heap q)(i := ?m)) (wq_next q) d = free_ok (wq_heap q) (wq_next q) d" for d
    using len by (simp add: free_ok_def)
  ultimately show "wq_open q' bs b l0 n"
    using assms(1) O(2) assms(3) unfolding q' wq_open_def wq_base_def by simp
  have "i \<notin> set (blocks bs)"
    using B(5) O(2) assms(3) by simp
  then show "\<forall>c \<in> set bs. bf_bytes q' c = bf_bytes q c"
    using blocks_mem by (fastforce simp: bf_bytes_def q' split: bptr.splits)
  show "take (l0 + length xs) (bf_bytes q' b) = take l0 (bf_bytes q b) @ xs"
    using fits assms(2) seg_mem_write_same [of 0 xs "wq_heap q i"]
    by (simp add: bf_bytes_dyn [OF assms(3)] O(4) l0 take_seg q' min_def)
qed

lemma wq_store_open:
  assumes "wq_open q bs b l0 n" "length xs \<le> n"
  defines "q' \<equiv> wq_store (ptr_at (bf_Buff b) l0) xs q"
  shows "wq_open q' bs b l0 n" "\<forall>c \<in> set bs. bf_bytes q' c = bf_bytes q c"
    "take (l0 + length xs) (bf_bytes q' b) = take l0 (bf_bytes q b) @ xs"
    "wq_FirstPendingI q' = wq_FirstPendingI q"
proof -
  show "wq_open q' bs b l0 n" "\<forall>c \<in> set bs. bf_bytes q' c = bf_bytes q c"
    "take (l0 + length xs) (bf_bytes q' b) = take l0 (bf_bytes q b) @ xs"
    unfolding q'_def
    by (cases "bf_Buff b"; use wq_store_static [OF assms(1,2)] wq_store_dyn [OF assms(1,2)] in simp)+
  show "wq_FirstPendingI q' = wq_FirstPendingI q"
    unfolding q'_def by (cases "ptr_at (bf_Buff b) l0") simp_all
qed

text \<open>The committed part of the open buffer, as it stands in the queue afterwards.\<close>

definition cut_at :: "buffer \<Rightarrow> nat \<Rightarrow> buffer list" where
  "cut_at b k = (if k = 0 then [] else [b\<lparr>bf_Length := k, bf_State := BS_PENDING\<rparr>])"

lemma cut_at_facts:
  "statics (cut_at b k) = (case bf_Buff b of StaticPtr p \<Rightarrow> if k = 0 then [] else [(p, k)] | DynPtr _ \<Rightarrow> [])"
  "blocks (cut_at b k) = (case bf_Buff b of StaticPtr p \<Rightarrow> [] | DynPtr i \<Rightarrow> if k = 0 then [] else [i])"
  "length (cut_at b k) \<le> 1"
  "\<forall>c \<in> set (cut_at b k). bf_State c = BS_PENDING"
  by (auto simp: cut_at_def split: bptr.splits)

lemma wq_states_cut:
  "wq_states i bs \<Longrightarrow> wq_states i (bs @ cut_at b k)"
  using cut_at_facts(4) [of b k] by (auto simp: wq_states_def)

lemma buffer_ok_cut:
  assumes "buffer_ok heap nxt b" "k \<le> bf_Length b" "c \<in> set (cut_at b k)"
  shows "buffer_ok heap nxt c"
  using assms by (auto simp: cut_at_def buffer_ok_def split: if_splits bptr.splits)

lemma dyn_free:
  "buffer_ok heap nxt b \<Longrightarrow> bf_Buff b = DynPtr i \<Longrightarrow> \<forall>d \<in> set (dyn_of b). free_ok heap nxt d"
  by (simp add: buffer_ok_def free_ok_def)

lemma Commit_cut:
  assumes "wq_open q bs b l0 n"
  shows "\<exists>fr frees. Commit m q = q\<lparr>wq_FIFOFreeBegin := fr, wq_FreeBuffList := frees,
      wq_OutBuffA := bs @ cut_at b (l0 + min m n)\<rparr>
    \<and> ring (wq_FIFOUsedBegin q) fr (length (wq_mem q)) (statics (bs @ cut_at b (l0 + min m n)))
    \<and> (\<forall>d \<in> set frees. free_ok (wq_heap q) (wq_next q) d)
    \<and> distinct (blocks (bs @ cut_at b (l0 + min m n)) @ map db_Buff frees)"
proof -
  note O = wq_openD [OF assms] and B = wq_baseD [OF wq_openD(1) [OF assms]]
  have ok: "buffer_ok (wq_heap q) (wq_next q) b"
    using B(3) [of b] O(2) by simp
  show ?thesis
  proof (cases "m < n")
    case False
    then have "min m n = n" "cut_at b (l0 + n) = [b\<lparr>bf_State := BS_PENDING\<rparr>]"
      using O(4,6) by (simp_all add: cut_at_def)
    moreover have "Commit m q = q\<lparr>wq_OutBuffA := bs @ [b\<lparr>bf_State := BS_PENDING\<rparr>]\<rparr>"
      using False O by (simp add: Commit_def)
    moreover have "statics (bs @ [b\<lparr>bf_State := BS_PENDING\<rparr>]) = statics (bs @ [b])"
      "blocks (bs @ [b\<lparr>bf_State := BS_PENDING\<rparr>]) = blocks (bs @ [b])"
      by (simp_all split: bptr.split)
    ultimately show ?thesis
      using B(2,4,5) O(2)
      by (intro exI [of _ "wq_FIFOFreeBegin q"] exI [of _ "wq_FreeBuffList q"]) simp
  next
    case True
    then have m: "min m n = m" and s: "u32_sub n m = n - m"
      using O(7) by (simp_all add: u32_simps)
    show ?thesis
    proof (cases "bf_Buff b")
      case (StaticPtr p)
      define fr where "fr = (if wq_FIFOFreeBegin q \<noteq> 0 then wq_FIFOFreeBegin q - (n - m)
        else length (wq_mem q) - (n - m))"
      have r: "ring (wq_FIFOUsedBegin q) (wq_FIFOFreeBegin q) (length (wq_mem q)) (statics bs @ [(p, l0 + n)])"
        "ends_free p (l0 + n) (wq_FIFOFreeBegin q) (length (wq_mem q))"
        using B(2) O(2,4) assms StaticPtr by (simp_all add: wq_open_def)
      then have "p + (l0 + n) \<le> length (wq_mem q)"
        using ring_bounds by fastforce
      then have sub: "u32_sub (l0 + n) (n - m) = l0 + m"
        using True B(1) by (simp add: u32_simps)
      have e: "(n - m = l0 + n) = (l0 + m = 0)" "l0 + n - (n - m) = l0 + m" "n - m \<le> l0 + n"
        using True by linarith+
      have "ring (wq_FIFOUsedBegin q) fr (length (wq_mem q)) (statics (bs @ cut_at b (l0 + m)))"
        using ring_shrink(2) [OF r _ e(3)] True unfolding fr_def [symmetric] e(1,2)
        by (auto simp: cut_at_facts StaticPtr split: if_splits)
      moreover have "Commit m q = q\<lparr>wq_FIFOFreeBegin := fr, wq_OutBuffA := bs @ cut_at b (l0 + m)\<rparr>"
        using True O StaticPtr sub s by (simp add: Commit_def Let_def cut_at_def fr_def)
      ultimately show ?thesis
        unfolding m using B(4,5) O(2) StaticPtr
        by (intro exI [of _ fr] exI [of _ "wq_FreeBuffList q"]) (simp add: cut_at_facts)
    next
      case (DynPtr i)
      then have l0: "l0 = 0" using assms by (simp add: wq_open_def)
      let ?frees = "if m = 0 then wq_FreeBuffList q @ dyn_of b else wq_FreeBuffList q"
      have "Commit m q = q\<lparr>wq_FreeBuffList := ?frees, wq_OutBuffA := bs @ cut_at b (l0 + m)\<rparr>"
        using True O DynPtr l0 by (simp add: Commit_def cut_at_def)
      moreover have "\<forall>d \<in> set ?frees. free_ok (wq_heap q) (wq_next q) d"
        using B(4) dyn_free [OF ok DynPtr] by (auto simp del: dyn_of.simps)
      ultimately show ?thesis
        unfolding m using B(2,5) O(2) DynPtr l0
        by (intro exI [of _ "wq_FIFOFreeBegin q"] exI [of _ ?frees]) (auto simp: cut_at_facts)
    qed
  qed
qed

lemma Commit_open:
  assumes "wq_open q bs b l0 n"
  shows "wq_inv (Commit m q)" "wq_OutBuffA (Commit m q) = bs @ cut_at b (l0 + min m n)"
    "wq_mem (Commit m q) = wq_mem q" "wq_heap (Commit m q) = wq_heap q"
    "wq_FirstPendingI (Commit m q) = wq_FirstPendingI q"
proof -
  note O = wq_openD [OF assms] and B = wq_baseD [OF wq_openD(1) [OF assms]]
  obtain fr frees where c: "Commit m q = q\<lparr>wq_FIFOFreeBegin := fr, wq_FreeBuffList := frees,
      wq_OutBuffA := bs @ cut_at b (l0 + min m n)\<rparr>"
    and r: "ring (wq_FIFOUsedBegin q) fr (length (wq_mem q)) (statics (bs @ cut_at b (l0 + min m n)))"
    and f: "\<forall>d \<in> set frees. free_ok (wq_heap q) (wq_next q) d"
      "distinct (blocks (bs @ cut_at b (l0 + min m n)) @ map db_Buff frees)"
    using Commit_cut [OF assms] by blast
  have "\<forall>c \<in> set (bs @ cut_at b (l0 + min m n)). buffer_ok (wq_heap q) (wq_next q) c"
    using B(3) O(2,4) buffer_ok_cut [of "wq_heap q" "wq_next q" b "l0 + min m n"] by auto
  moreover have "length (bs @ cut_at b (l0 + min m n)) < U32"
    using O(9) cut_at_facts(3) [of b "l0 + min m n"] by simp
  ultimately show "wq_inv (Commit m q)"
    using B(1) r f wq_states_cut [OF O(8)] by (simp add: c wq_inv_def wq_base_def)
  show "wq_OutBuffA (Commit m q) = bs @ cut_at b (l0 + min m n)"
    "wq_mem (Commit m q) = wq_mem q" "wq_heap (Commit m q) = wq_heap q"
    "wq_FirstPendingI (Commit m q) = wq_FirstPendingI q"
    by (simp_all add: c)
qed


lemma grown_bytes:
  assumes "grown q q' bs b l0" "wq_base q" "wq_open q' bs b l0 n"
  shows "wq_inflight q = map (bf_bytes q') (take (wq_FirstPendingI q) bs)"
    "wq_pending q = concat (map (bf_bytes q') (drop (wq_FirstPendingI q) bs)) @ take l0 (bf_bytes q' b)"
proof -
  note B = wq_baseD [OF assms(2)] and O = wq_openD [OF assms(3)]
  have g: "wq_FirstPendingI q' = wq_FirstPendingI q" "wq_mem q' = wq_mem q"
    "\<And>i. i < wq_next q \<Longrightarrow> wq_heap q' i = wq_heap q i"
    "wq_OutBuffA q = bs @ (if l0 = 0 then [] else [b\<lparr>bf_Length := l0, bf_State := BS_PENDING\<rparr>])"
    using assms(1) by (auto simp: grown_def)
  have same: "bf_bytes q' c = bf_bytes q c" if "c \<in> set (wq_OutBuffA q)" for c
    using B(3) [OF that] g(2,3) by (auto simp: bf_bytes_def buffer_ok_def split: bptr.splits)
  have i: "wq_FirstPendingI q \<le> length bs"
    using O(8) g(1) by (simp add: wq_states_def)
  have "set (take (wq_FirstPendingI q) bs) \<subseteq> set (wq_OutBuffA q)"
    "set (drop (wq_FirstPendingI q) bs) \<subseteq> set (wq_OutBuffA q)"
    using set_take_subset [of "wq_FirstPendingI q" bs] set_drop_subset [of "wq_FirstPendingI q" bs]
    unfolding g(4) by auto
  then have m: "map (bf_bytes q) (take (wq_FirstPendingI q) bs) = map (bf_bytes q') (take (wq_FirstPendingI q) bs)"
    "map (bf_bytes q) (drop (wq_FirstPendingI q) bs) = map (bf_bytes q') (drop (wq_FirstPendingI q) bs)"
    using same by (auto intro!: map_cong)
  then show "wq_inflight q = map (bf_bytes q') (take (wq_FirstPendingI q) bs)"
    using i g(4) by (simp add: wq_inflight_def)
  have "bf_bytes q (b\<lparr>bf_Length := l0, bf_State := BS_PENDING\<rparr>) = take l0 (bf_bytes q' b)" if "l0 \<noteq> 0"
    using same [of "b\<lparr>bf_Length := l0, bf_State := BS_PENDING\<rparr>"] that g(4) O(4)
    by (simp add: bf_bytes_def take_seg split: bptr.splits)
  then show "wq_pending q = concat (map (bf_bytes q') (drop (wq_FirstPendingI q) bs)) @ take l0 (bf_bytes q' b)"
    using i g(4) by (simp add: wq_pending_def m)
qed

lemma cut_at_bytes:
  assumes "wq_open q bs b l0 n" "k \<le> l0 + n"
  shows "concat (map (bf_bytes q) (cut_at b k)) = take k (bf_bytes q b)"
  using assms(2) wq_openD(4) [OF assms(1)]
  by (auto simp: cut_at_def bf_bytes_def take_seg min_def split: bptr.splits)

lemma no_allocated:
  assumes "wq_inv q" "b \<in> set (wq_OutBuffA q)"
  shows "bf_State b \<noteq> BS_ALLOCATED"
proof -
  have "b \<in> set (take (wq_FirstPendingI q) (wq_OutBuffA q)) \<union> set (drop (wq_FirstPendingI q) (wq_OutBuffA q))"
    using assms(2) by (metis append_take_drop_id set_append)
  then show ?thesis
    using assms(1) by (auto simp: wq_inv_def wq_states_def)
qed

lemma Commit_idle: "wq_inv q \<Longrightarrow> Commit n q = q"
  using no_allocated [of q "last (wq_OutBuffA q)"]
  by (cases "wq_OutBuffA q = []") (simp_all add: Commit_def Let_def)

text \<open>One write: nothing that is queued changes, the new bytes come last.\<close>

lemma wq_put_sound:
  assumes "wq_inv q" "n + 255 < U32" "length (wq_OutBuffA q) + 1 < U32" "length xs \<le> n"
  shows "wq_inv (wq_put junk n xs q)" "wq_inflight (wq_put junk n xs q) = wq_inflight q"
    "wq_pending (wq_put junk n xs q) = wq_pending q @ xs"
    "length (wq_OutBuffA (wq_put junk n xs q)) \<le> length (wq_OutBuffA q) + 1"
proof -
  have base: "wq_base q" using assms(1) by (simp add: wq_inv_def)
  let ?i = "wq_FirstPendingI q"
  have "wq_inv (wq_put junk n xs q) \<and> wq_inflight (wq_put junk n xs q) = wq_inflight q \<and>
    wq_pending (wq_put junk n xs q) = wq_pending q @ xs \<and>
    length (wq_OutBuffA (wq_put junk n xs q)) \<le> length (wq_OutBuffA q) + 1"
  proof (cases "n = 0")
    case True
    then have "wq_put junk n xs q = q"
      using Commit_idle [OF assms(1)] by (simp add: wq_put_def Allocate_def)
    then show ?thesis using True assms by simp
  next
    case False
    obtain q1 bs b l0 where a: "Allocate junk n q = (Some (ptr_at (bf_Buff b) l0), q1)"
      and o1: "wq_open q1 bs b l0 n" and g: "grown q q1 bs b l0"
      using False assms Allocate_ring [of q n _ _ junk] Allocate_heap [of q n junk]
      by (cases "fifo_place n (q\<lparr>wq_LastAllocLength := n\<rparr>)") fastforce+
    let ?q2 = "wq_store (ptr_at (bf_Buff b) l0) xs q1" and ?k = "l0 + length xs"
    note S = wq_store_open [OF o1 assms(4)]
    let ?q3 = "Commit (length xs) ?q2"
    have put: "wq_put junk n xs q = ?q3"
      by (simp add: wq_put_def a)
    note C = Commit_open [OF S(1), of "length xs"]
    have k: "l0 + min (length xs) n = ?k" using assms(4) by simp
    have i: "wq_FirstPendingI ?q3 = ?i" "?i \<le> length bs"
      using C(5) S(4) g wq_openD(8) [OF o1] by (simp_all add: grown_def wq_states_def)
    have b3: "bf_bytes ?q3 = bf_bytes ?q2"
      using C(3,4) by (intro ext) (simp add: bf_bytes_def split: bptr.splits)
    have tk: "map (bf_bytes ?q2) (take ?i bs) = map (bf_bytes q1) (take ?i bs)"
      "map (bf_bytes ?q2) (drop ?i bs) = map (bf_bytes q1) (drop ?i bs)"
      using S(2) by (auto intro!: map_cong dest: in_set_takeD in_set_dropD)
    have "wq_inflight ?q3 = wq_inflight q"
      using C(2) i tk grown_bytes(1) [OF g base o1] by (simp add: wq_inflight_def b3 k)
    moreover have "wq_pending ?q3 = concat (map (bf_bytes q1) (drop ?i bs)) @ take ?k (bf_bytes ?q2 b)"
      using C(2) i cut_at_bytes [OF S(1), of ?k] assms(4) by (simp add: wq_pending_def b3 k tk(2))
    then have "wq_pending ?q3 = wq_pending q @ xs"
      by (simp add: S(3) grown_bytes(2) [OF g base o1])
    moreover have "length bs \<le> length (wq_OutBuffA q)"
      using g by (simp add: grown_def)
    then have "length (wq_OutBuffA ?q3) \<le> length (wq_OutBuffA q) + 1"
      using cut_at_facts(3) [of b ?k] C(2) k by simp
    ultimately show ?thesis
      using C(1) put by simp
  qed
  then show "wq_inv (wq_put junk n xs q)" "wq_inflight (wq_put junk n xs q) = wq_inflight q"
    "wq_pending (wq_put junk n xs q) = wq_pending q @ xs"
    "length (wq_OutBuffA (wq_put junk n xs q)) \<le> length (wq_OutBuffA q) + 1"
    by blast+
qed

lemma Commit_no_shrink:
  assumes "wq_LastAllocLength q \<le> n" "wq_LastAllocLength q \<le> m"
  shows "Commit n q = Commit m q"
proof -
  have "\<not> n < wq_LastAllocLength q" "\<not> m < wq_LastAllocLength q"
    using assms by simp_all
  then show ?thesis by (simp add: Commit_def Let_def)
qed

lemma Allocate_LastAllocLength:
  "0 < n \<Longrightarrow> wq_LastAllocLength (snd (Allocate junk n q)) = n"
  by (auto simp: Allocate_def Let_def split: option.splits prod.splits)

lemma Push_eq_put:
  fixes q :: "'a wbq"
  assumes "length src < U32" "wq_inv q"
  shows "Push junk src q = wq_put junk (length src) src q"
proof (cases "src = []")
  case True
  then show ?thesis
    using assms(2) by (simp add: Push_def wq_put_def Allocate_def Commit_all_def Commit_idle)
next
  case False
  obtain r q1 where a: "Allocate junk (length src) q = (r, q1)" by force
  then have l: "wq_LastAllocLength q1 = length src"
    using Allocate_LastAllocLength [of "length src" junk q] False by simp
  have "wq_LastAllocLength (wq_store p src q1) = length src" for p
    using l by (cases p) simp_all
  moreover have "Commit (U32 - 1) q' = Commit (length src) q'" if "wq_LastAllocLength q' = length src" for q' :: "'a wbq"
    using that assms(1) by (intro Commit_no_shrink) simp_all
  ultimately show ?thesis
    using a l by (simp add: Push_def wq_put_def Commit_all_def split: option.split)
qed

subsection \<open>Popping and releasing\<close>

lemma map_update_same: "f y = f (xs ! i) \<Longrightarrow> map f (xs[i := y]) = map f xs"
  by (simp add: map_update) (metis list_update_id map_update)

lemma mark_storage:
  assumes "xs ! i = b"
  shows "statics (xs[i := b\<lparr>bf_State := s\<rparr>]) = statics xs" "blocks (xs[i := b\<lparr>bf_State := s\<rparr>]) = blocks xs"
proof -
  have "map (\<lambda>b. case bf_Buff b of StaticPtr p \<Rightarrow> [(p, bf_Length b)] | DynPtr _ \<Rightarrow> [])
      (xs[i := b\<lparr>bf_State := s\<rparr>]) = map (\<lambda>b. case bf_Buff b of StaticPtr p \<Rightarrow> [(p, bf_Length b)] | DynPtr _ \<Rightarrow> []) xs"
    by (rule map_update_same) (simp add: assms split: bptr.split)
  then show "statics (xs[i := b\<lparr>bf_State := s\<rparr>]) = statics xs"
    unfolding statics_def by (rule arg_cong)
  have "map (\<lambda>b. case bf_Buff b of StaticPtr _ \<Rightarrow> [] | DynPtr i \<Rightarrow> [i])
      (xs[i := b\<lparr>bf_State := s\<rparr>]) = map (\<lambda>b. case bf_Buff b of StaticPtr _ \<Rightarrow> [] | DynPtr i \<Rightarrow> [i]) xs"
    by (rule map_update_same) (simp add: assms split: bptr.split)
  then show "blocks (xs[i := b\<lparr>bf_State := s\<rparr>]) = blocks xs"
    unfolding blocks_def by (rule arg_cong)
qed

lemma Pop_some:
  assumes "wq_inv q" "wq_FirstPendingI q < length (wq_OutBuffA q)"
  defines "i \<equiv> wq_FirstPendingI q" and "b \<equiv> wq_OutBuffA q ! wq_FirstPendingI q"
  shows "wq_inv (snd (Pop q))" "fst (Pop q) = Some (bf_Buff b, bf_Length b)"
    "wq_inflight (snd (Pop q)) = wq_inflight q @ [bf_bytes q b]"
    "wq_pending q = bf_bytes q b @ wq_pending (snd (Pop q))" "0 < bf_Length b"
    "length (bf_bytes q b) = bf_Length b"
proof -
  have base: "wq_base q" and st: "wq_states i (wq_OutBuffA q)" and len: "length (wq_OutBuffA q) < U32"
    using assms(1) by (simp_all add: wq_inv_def i_def)
  note B = wq_baseD [OF base]
  let ?b = "b\<lparr>bf_State := BS_WRITING\<rparr>" and ?out = "(wq_OutBuffA q)[i := b\<lparr>bf_State := BS_WRITING\<rparr>]"
  have i: "i < length (wq_OutBuffA q)" "wq_OutBuffA q ! i = b"
    using assms by simp_all
  have pop: "Pop q = (Some (bf_Buff b, bf_Length b), q\<lparr>wq_OutBuffA := ?out, wq_FirstPendingI := Suc i\<rparr>)"
    using i by (simp add: Pop_def Let_def i_def b_def)
  have bok: "buffer_ok (wq_heap q) (wq_next q) b"
    using B(3) i nth_mem by blast
  have "statics ?out = statics (wq_OutBuffA q)" "blocks ?out = blocks (wq_OutBuffA q)"
    by (simp_all add: mark_storage i)
  moreover have "buffer_ok (wq_heap q) (wq_next q) c" if "c \<in> set ?out" for c
  proof -
    have "buffer_ok (wq_heap q) (wq_next q) ?b"
      using bok by (simp add: buffer_ok_def split: bptr.splits)
    moreover have "c = ?b \<or> c \<in> set (wq_OutBuffA q)"
      using that set_update_subset_insert [of "wq_OutBuffA q" i ?b] by blast
    ultimately show ?thesis using B(3) by blast
  qed
  moreover have tk: "take (Suc i) ?out = take i (wq_OutBuffA q) @ [?b]" "drop (Suc i) ?out = drop (Suc i) (wq_OutBuffA q)"
    using i(1) by (simp_all add: take_Suc_conv_app_nth)
  moreover have "set (drop (Suc i) (wq_OutBuffA q)) \<subseteq> set (drop i (wq_OutBuffA q))"
    by (simp add: set_drop_subset_set_drop)
  ultimately show "wq_inv (snd (Pop q))"
    using B(1,2,4,5) st i(1) len by (auto simp: pop wq_inv_def wq_base_def wq_states_def)
  show "fst (Pop q) = Some (bf_Buff b, bf_Length b)"
    by (simp add: pop)
  have bb: "bf_bytes (snd (Pop q)) = bf_bytes q" "bf_bytes q ?b = bf_bytes q b"
    by (intro ext) (simp_all add: pop bf_bytes_def split: bptr.split)
  have f: "wq_OutBuffA (snd (Pop q)) = ?out" "wq_FirstPendingI (snd (Pop q)) = Suc i"
    by (simp_all add: pop)
  show "wq_inflight (snd (Pop q)) = wq_inflight q @ [bf_bytes q b]"
    unfolding wq_inflight_def f bb(1) tk(1) by (simp add: bb(2) i_def)
  have "drop i (wq_OutBuffA q) = b # drop (Suc i) (wq_OutBuffA q)"
    using i Cons_nth_drop_Suc by metis
  then show "wq_pending q = bf_bytes q b @ wq_pending (snd (Pop q))"
    unfolding wq_pending_def f bb(1) tk(2) by (simp add: i_def)
  show "0 < bf_Length b"
    using bok by (simp add: buffer_ok_def)
  show "length (bf_bytes q b) = bf_Length b"
  proof (cases "bf_Buff b")
    case (StaticPtr p)
    have "b \<in> set (wq_OutBuffA q)"
      using i nth_mem by blast
    from ring_bounds [OF B(2) statics_mem [OF this StaticPtr]]
    have "bf_Length b \<le> length (wq_mem q) - p" by linarith
    then show ?thesis
      using StaticPtr by (simp add: bf_bytes_def)
  next
    case (DynPtr k)
    with bok show ?thesis by (simp add: bf_bytes_def buffer_ok_def)
  qed
qed

lemma Pop_none:
  assumes "wq_inv q" "\<not> wq_FirstPendingI q < length (wq_OutBuffA q)"
  shows "Pop q = (None, q)" "wq_pending q = []"
  using assms by (simp_all add: Pop_def wq_pending_def)

lemma Release_dyn:
  assumes "wq_inv q" "wq_OutBuffA q = b # out" "bf_Buff b = DynPtr k"
  shows "wq_base (q\<lparr>wq_OutBuffA := out, wq_FreeBuffList := wq_FreeBuffList q @ dyn_of b\<rparr>)"
proof -
  have base: "wq_base q" using assms(1) by (simp add: wq_inv_def)
  note B = wq_baseD [OF base]
  have "buffer_ok (wq_heap q) (wq_next q) b" using B(3) assms(2) by simp
  then have "\<forall>d \<in> set (dyn_of b). free_ok (wq_heap q) (wq_next q) d"
    using dyn_free assms(3) by blast
  moreover have "distinct (blocks out @ map db_Buff (wq_FreeBuffList q @ dyn_of b))"
    using B(5) assms(2,3) by auto
  ultimately show ?thesis
    using B(1-4) assms(2,3) by (auto simp: wq_base_def simp del: dyn_of.simps)
qed

lemma Release_static:
  assumes "wq_inv q" "wq_OutBuffA q = b # out" "bf_Buff b = StaticPtr p"
  defines "us \<equiv> (if p + bf_Length b \<ge> length (wq_mem q) then p + bf_Length b - length (wq_mem q)
    else p + bf_Length b)"
  shows "wq_base (if us = wq_FIFOFreeBegin q
    then q\<lparr>wq_OutBuffA := out, wq_FIFOUsedBegin := 0, wq_FIFOFreeBegin := 0\<rparr>
    else q\<lparr>wq_OutBuffA := out, wq_FIFOUsedBegin := us\<rparr>)"
proof -
  have base: "wq_base q" using assms(1) by (simp add: wq_inv_def)
  note B = wq_baseD [OF base]
  have "ring (wq_FIFOUsedBegin q) (wq_FIFOFreeBegin q) (length (wq_mem q)) ((p, bf_Length b) # statics out)"
    using B(2) assms(2,3) by simp
  from ring_release [OF this, folded us_def]
  have "if us = wq_FIFOFreeBegin q then ring 0 0 (length (wq_mem q)) (statics out)
    else ring us (wq_FIFOFreeBegin q) (length (wq_mem q)) (statics out)"
    using B(6,7) by (auto intro: ring_straight split: if_splits)
  then show ?thesis
    using B assms(2,3) by (auto simp: wq_base_def)
qed

lemma Release_sound:
  assumes "wq_inv q"
  shows "wq_inv (Release q)" "wq_inflight (Release q) = tl (wq_inflight q)"
    "wq_pending (Release q) = wq_pending q"
proof -
  let ?i = "wq_FirstPendingI q"
  have st: "wq_states ?i (wq_OutBuffA q)" and len: "length (wq_OutBuffA q) < U32"
    using assms by (simp_all add: wq_inv_def)
  have "wq_inv (Release q) \<and> wq_inflight (Release q) = tl (wq_inflight q) \<and>
    wq_pending (Release q) = wq_pending q"
  proof (cases "wq_OutBuffA q")
    case Nil
    then show ?thesis using assms by (simp add: Release_def wq_inflight_def)
  next
    case (Cons b out)
    show ?thesis
    proof (cases "bf_State b = BS_WRITING")
      case False
      then have "?i = 0"
        using st Cons by (cases ?i) (auto simp: wq_states_def)
      then show ?thesis
        using False Cons assms by (simp add: Release_def wq_inflight_def)
    next
      case True
      then obtain j where j: "?i = Suc j"
        using st Cons by (cases ?i) (auto simp: wq_states_def)
      then have d: "u32_sub ?i 1 = j" "j \<le> length out" "wq_states j out"
        using st len Cons by (simp_all add: u32_simps wq_states_def)
      define q1 where "q1 = (case bf_Buff b of
          StaticPtr p \<Rightarrow> (let us = (if p + bf_Length b \<ge> length (wq_mem q) then p + bf_Length b - length (wq_mem q)
                                  else p + bf_Length b)
            in if us = wq_FIFOFreeBegin q
               then q\<lparr>wq_OutBuffA := out, wq_FIFOUsedBegin := 0, wq_FIFOFreeBegin := 0\<rparr>
               else q\<lparr>wq_OutBuffA := out, wq_FIFOUsedBegin := us\<rparr>)
        | DynPtr _ \<Rightarrow> q\<lparr>wq_OutBuffA := out, wq_FreeBuffList := wq_FreeBuffList q @ dyn_of b\<rparr>)"
      have r: "Release q = q1\<lparr>wq_FirstPendingI := j\<rparr>"
        using True d(1) by (simp add: Release_def Cons q1_def Let_def split: bptr.splits)
      have "wq_base q1"
        using Release_static [OF assms Cons] Release_dyn [OF assms Cons]
        by (simp add: q1_def Let_def split: bptr.splits)
      then have "wq_base (Release q)"
        by (simp add: r wq_base_def)
      moreover have q1: "wq_OutBuffA q1 = out" "wq_mem q1 = wq_mem q" "wq_heap q1 = wq_heap q"
        by (simp_all add: q1_def Let_def split: bptr.splits)
      ultimately have "wq_inv (Release q)"
        using d len Cons by (simp add: wq_inv_def r)
      moreover have "bf_bytes (Release q) = bf_bytes q"
        using q1 by (intro ext) (simp add: r bf_bytes_def split: bptr.splits)
      ultimately show ?thesis
        using q1(1) j Cons by (simp add: wq_inflight_def wq_pending_def) (simp add: r q1(1))
    qed
  qed
  then show "wq_inv (Release q)" "wq_inflight (Release q) = tl (wq_inflight q)"
    "wq_pending (Release q) = wq_pending q" by blast+
qed


section \<open>The interface of a write queue\<close>

text \<open>What a connection sees of the queue: writes append to the pending bytes, a pop hands
  out a non-empty prefix of them, which stays intact until it is released.\<close>

locale write_queue =
  fixes inv :: "'s \<Rightarrow> bool"
    and inflight :: "'s \<Rightarrow> 'b list list"
    and pending :: "'s \<Rightarrow> 'b list"
    and may :: "nat \<Rightarrow> 's \<Rightarrow> bool"
    and put :: "nat \<Rightarrow> 'b list \<Rightarrow> 's \<Rightarrow> 's"
    and pop :: "'s \<Rightarrow> 's"
    and release :: "'s \<Rightarrow> 's"
  assumes put_inv: "inv s \<Longrightarrow> may n s \<Longrightarrow> length xs \<le> n \<Longrightarrow> inv (put n xs s)"
    and put_pending: "inv s \<Longrightarrow> may n s \<Longrightarrow> length xs \<le> n \<Longrightarrow> pending (put n xs s) = pending s @ xs"
    and put_inflight: "inv s \<Longrightarrow> may n s \<Longrightarrow> length xs \<le> n \<Longrightarrow> inflight (put n xs s) = inflight s"
    and pop_inv: "inv s \<Longrightarrow> inv (pop s)"
    and pop_some: "inv s \<Longrightarrow> pending s \<noteq> [] \<Longrightarrow>
      \<exists>c. c \<noteq> [] \<and> inflight (pop s) = inflight s @ [c] \<and> pending s = c @ pending (pop s)"
    and pop_none: "inv s \<Longrightarrow> pending s = [] \<Longrightarrow> pop s = s"
    and release_inv: "inv s \<Longrightarrow> inv (release s)"
    and release_inflight: "inv s \<Longrightarrow> inflight (release s) = tl (inflight s)"
    and release_pending: "inv s \<Longrightarrow> pending (release s) = pending s"

datatype 'b wq_op = Put nat "'b list" | PopNext | ReleaseNext

fun wo_step :: "(nat \<Rightarrow> 'b list \<Rightarrow> 's \<Rightarrow> 's) \<Rightarrow> ('s \<Rightarrow> 's) \<Rightarrow> ('s \<Rightarrow> 's) \<Rightarrow> 'b wq_op \<Rightarrow> 's \<Rightarrow> 's" where
  "wo_step put pop rel (Put n xs) s = put n xs s"
| "wo_step put pop rel PopNext s = pop s"
| "wo_step put pop rel ReleaseNext s = rel s"

fun wo_ok :: "(nat \<Rightarrow> 's \<Rightarrow> bool) \<Rightarrow> 'b wq_op \<Rightarrow> 's \<Rightarrow> bool" where
  "wo_ok may (Put n xs) s \<longleftrightarrow> may n s \<and> length xs \<le> n"
| "wo_ok may _ s \<longleftrightarrow> True"

text \<open>The bytes that leave the queue: the buffer given back by a release, as it is then.\<close>

fun wo_out :: "('s \<Rightarrow> 'b list list) \<Rightarrow> 'b wq_op \<Rightarrow> 's \<Rightarrow> 'b list" where
  "wo_out infl ReleaseNext s = concat (take 1 (infl s))"
| "wo_out infl _ s = []"

fun wo_in :: "'b wq_op \<Rightarrow> 'b list" where
  "wo_in (Put n xs) = xs"
| "wo_in _ = []"

fun wo_legal :: "('b wq_op \<Rightarrow> 's \<Rightarrow> 's) \<Rightarrow> ('b wq_op \<Rightarrow> 's \<Rightarrow> bool) \<Rightarrow> 'b wq_op list \<Rightarrow> 's \<Rightarrow> bool" where
  "wo_legal stp ok [] s \<longleftrightarrow> True"
| "wo_legal stp ok (x # xs) s \<longleftrightarrow> ok x s \<and> wo_legal stp ok xs (stp x s)"

fun wo_outs :: "('b wq_op \<Rightarrow> 's \<Rightarrow> 's) \<Rightarrow> ('b wq_op \<Rightarrow> 's \<Rightarrow> 'b list) \<Rightarrow> 'b wq_op list \<Rightarrow> 's \<Rightarrow> 'b list" where
  "wo_outs stp out [] s = []"
| "wo_outs stp out (x # xs) s = out x s @ wo_outs stp out xs (stp x s)"

context write_queue begin

lemma step_bytes:
  assumes "inv s" "wo_ok may x s"
  shows "inv (wo_step put pop release x s) \<and>
    wo_out inflight x s @ concat (inflight (wo_step put pop release x s)) @ pending (wo_step put pop release x s)
      = concat (inflight s) @ pending s @ wo_in x"
proof (cases x)
  case PopNext
  show ?thesis
  proof (cases "pending s = []")
    case False
    then obtain c where "inflight (pop s) = inflight s @ [c]" "pending s = c @ pending (pop s)"
      using pop_some [OF assms(1)] by blast
    with PopNext assms(1) show ?thesis by (simp add: pop_inv)
  qed (use PopNext assms(1) in \<open>simp add: pop_none\<close>)
next
  case ReleaseNext
  then show ?thesis
    using assms(1) by (cases "inflight s") (simp_all add: release_inv release_inflight release_pending)
qed (use assms in \<open>simp add: put_inv put_inflight put_pending\<close>)

lemma session_bytes:
  assumes "inv s" "wo_legal (wo_step put pop release) (wo_ok may) xs s"
  shows "inv (fold (wo_step put pop release) xs s) \<and>
    wo_outs (wo_step put pop release) (wo_out inflight) xs s
      @ concat (inflight (fold (wo_step put pop release) xs s)) @ pending (fold (wo_step put pop release) xs s)
    = concat (inflight s) @ pending s @ concat (map wo_in xs)"
  using assms
proof (induction xs arbitrary: s)
  case (Cons x xs)
  let ?t = "wo_step put pop release x s"
  have t: "inv ?t" "wo_out inflight x s @ concat (inflight ?t) @ pending ?t
      = concat (inflight s) @ pending s @ wo_in x"
    using step_bytes [of s x] Cons.prems by simp_all
  from Cons.IH [of ?t] t(1) Cons.prems(2)
  have "wo_outs (wo_step put pop release) (wo_out inflight) (x # xs) s
      @ concat (inflight (fold (wo_step put pop release) (x # xs) s)) @ pending (fold (wo_step put pop release) (x # xs) s)
    = (wo_out inflight x s @ concat (inflight ?t) @ pending ?t) @ concat (map wo_in xs)"
    by simp
  with Cons.IH [of ?t] t Cons.prems(2) show ?case by simp
qed simp

end

section \<open>WriteBuffQueue meets the interface\<close>

text \<open>A write whose heap block, rounded up to 256, and whose queue entry fit in 32 bits.\<close>

definition wq_may :: "nat \<Rightarrow> 'b wbq \<Rightarrow> bool" where
  "wq_may n q \<longleftrightarrow> n + 255 < U32 \<and> length (wq_OutBuffA q) + 1 < U32"

lemma pending_Nil:
  assumes "wq_inv q"
  shows "(wq_pending q = []) = (\<not> wq_FirstPendingI q < length (wq_OutBuffA q))"
proof (cases "wq_FirstPendingI q < length (wq_OutBuffA q)")
  case True
  from Pop_some(4,5,6) [OF assms this] True show ?thesis by auto
qed (simp add: Pop_none(2) assms)

lemma Pop_chunk:
  assumes "wq_inv q" "wq_pending q \<noteq> []"
  shows "\<exists>c. c \<noteq> [] \<and> wq_inflight (snd (Pop q)) = wq_inflight q @ [c] \<and> wq_pending q = c @ wq_pending (snd (Pop q))"
proof -
  have i: "wq_FirstPendingI q < length (wq_OutBuffA q)"
    using pending_Nil assms by blast
  note P = Pop_some [OF assms(1) i]
  show ?thesis
    using P(3,4,5,6) by (intro exI [of _ "bf_bytes q (wq_OutBuffA q ! wq_FirstPendingI q)"]) auto
qed

lemma Pop_inv: "wq_inv q \<Longrightarrow> wq_inv (snd (Pop q))"
  using Pop_some(1) Pop_none(1) by (metis snd_conv)

interpretation wq: write_queue wq_inv wq_inflight wq_pending wq_may "wq_put junk" "\<lambda>q. snd (Pop q)" Release
  for junk :: "nat \<Rightarrow> 'b"
  by unfold_locales
    (simp_all add: wq_put_sound wq_may_def Pop_inv Pop_chunk Pop_none pending_Nil Release_sound)

definition wq_step :: "(nat \<Rightarrow> 'b) \<Rightarrow> 'b wq_op \<Rightarrow> 'b wbq \<Rightarrow> 'b wbq" where
  "wq_step junk = wo_step (wq_put junk) (\<lambda>q. snd (Pop q)) Release"

definition wq_legal :: "(nat \<Rightarrow> 'b) \<Rightarrow> 'b wq_op list \<Rightarrow> 'b wbq \<Rightarrow> bool" where
  "wq_legal junk = wo_legal (wq_step junk) (wo_ok wq_may)"

definition wq_outs :: "(nat \<Rightarrow> 'b) \<Rightarrow> 'b wq_op list \<Rightarrow> 'b wbq \<Rightarrow> 'b list" where
  "wq_outs junk = wo_outs (wq_step junk) (wo_out wq_inflight)"

section \<open>Properties\<close>

text \<open>C24: the write queue loses, reorders and overwrites nothing. For every sequence of
  allocate-write-commit rounds (committing any part of the allocation), pops and releases on
  a fresh queue, the buffers given back by the releases (with the content they have when the
  socket has written them), then the buffers still being written, then the bytes still
  pending are exactly the bytes written, in order.\<close>

theorem write_queue_is_fifo:
  assumes "0 < cap" "cap < U32" "wq_legal junk ops (wq_init junk cap)"
  shows "wq_outs junk ops (wq_init junk cap)
      @ concat (wq_inflight (fold (wq_step junk) ops (wq_init junk cap)))
      @ wq_pending (fold (wq_step junk) ops (wq_init junk cap)) = concat (map wo_in ops)"
proof -
  have "wq_inflight (wq_init junk cap) = []" "wq_pending (wq_init junk cap) = []"
    by (simp_all add: wq_inflight_def wq_pending_def wq_init_def)
  then show ?thesis
    using wq.session_bytes [OF wq_base_init [OF assms(1,2)], of junk ops junk] assms(3)
    by (simp add: wq_step_def wq_legal_def wq_outs_def)
qed

lemmas wq_eval = wq_legal_def wq_step_def wq_outs_def wq_may_def wq_init_def wq_put_def Allocate_def
  Let_def fifo_place_def GetContinousFreeFIFOLength_def extends_last_def Commit_def Pop_def
  Release_def wq_inflight_def wq_pending_def bf_bytes_def fresh_4 mem_write_def seg_def
  u32_add_def u32_sub_def u32_of_def

theorem write_queue_is_fifo_witness:
  "wq_outs (\<lambda>_. 0) [Put 2 [1, 2], PopNext, Put 1 [3], ReleaseNext, PopNext, Put 2 [4]] (wq_init (\<lambda>_. 0 :: nat) 4)
    @ concat (wq_inflight (fold (wq_step (\<lambda>_. 0)) [Put 2 [1, 2], PopNext, Put 1 [3], ReleaseNext, PopNext, Put 2 [4]]
        (wq_init (\<lambda>_. 0) 4)))
    @ wq_pending (fold (wq_step (\<lambda>_. 0)) [Put 2 [1, 2], PopNext, Put 1 [3], ReleaseNext, PopNext, Put 2 [4]]
        (wq_init (\<lambda>_. 0) 4)) = [1, 2, 3, 4]"
proof -
  have "wq_legal (\<lambda>_. 0) [Put 2 [1, 2], PopNext, Put 1 [3], ReleaseNext, PopNext, Put 2 [4]]
      (wq_init (\<lambda>_. 0 :: nat) 4)"
    by (simp add: wq_eval cong: let_weak_cong)
  from write_queue_is_fifo [OF _ _ this] show ?thesis by simp
qed

text \<open>Note: \<open>Push\<close> is an allocation, a copy and a commit of the whole source: in a state with no
  allocation open it appends the source to the pending bytes, keeps the invariant and leaves
  the buffers being written untouched.\<close>

theorem push_appends:
  assumes "wq_inv q" "wq_may (length src) q"
  shows "wq_inv (Push junk src q) \<and> wq_pending (Push junk src q) = wq_pending q @ src
    \<and> wq_inflight (Push junk src q) = wq_inflight q"
proof -
  have "length src < U32"
    using assms(2) by (simp add: wq_may_def)
  then show ?thesis
    using assms wq.put_inv [OF assms order_refl] wq.put_pending [OF assms order_refl]
      wq.put_inflight [OF assms order_refl] by (simp add: Push_eq_put)
qed

theorem push_appends_witness:
  "wq_pending (Push (\<lambda>_. 0) [7, 8, 9] (wq_init (\<lambda>_. 0 :: nat) 4)) = [7, 8, 9]"
proof -
  have "wq_inv (wq_init (\<lambda>_. 0 :: nat) 4)" "wq_may (length [7, 8, 9 :: nat]) (wq_init (\<lambda>_. 0 :: nat) 4)"
    by (rule wq_base_init) (simp_all add: wq_may_def wq_init_def)
  from push_appends [OF this, of "\<lambda>_. 0"] show ?thesis
    by (simp add: wq_pending_def wq_init_def)
qed

end
