(* ===== verification/StringUtils.thy ===== *)
theory StringUtils
  imports Prelude
begin

text \<open>
  The string helpers of Common/StringUtils.h: character classes, case-insensitive comparison,
  trimming, tokenising and the key=value scanner. A \<open>const char *\<close> is the list of the
  characters from it on, ended by NUL or the end of the list; a pair of pointers is the text
  between them; a consumer functor is given the list of its calls.
\<close>

section \<open>Character classes\<close>

fun IsWS :: "char \<Rightarrow> bool" where
  "IsWS c \<longleftrightarrow> c = CHR 0x0D \<or> c = CHR 0x0A \<or> c = CHR '' '' \<or> c = CHR 0x09"

fun IsSpace :: "char \<Rightarrow> bool" where
  "IsSpace c \<longleftrightarrow> c = CHR '' '' \<or> c = CHR 0x09"

fun IsNewLine :: "char \<Rightarrow> bool" where
  "IsNewLine c \<longleftrightarrow> c = CHR 0x0D \<or> c = CHR 0x0A"

text \<open>\<open>tolower\<close> in the C locale, and the signed value a \<open>char\<close> is compared by.\<close>

definition tolower :: "char \<Rightarrow> char" where
  "tolower c = (let n = of_char c :: nat in if 65 \<le> n \<and> n \<le> 90 then char_of (n + 32) else c)"

definition schar :: "char \<Rightarrow> int" where
  "schar c = (let n = of_char c :: int in if n < 128 then n else n - 256)"

section \<open>Comparison\<close>

definition IsEqual :: "string \<Rightarrow> string \<Rightarrow> bool" where
  "IsEqual testStr cmp \<longleftrightarrow> length testStr = length cmp \<and> list_all2 (=) testStr cmp"

text \<open>\<open>CmpI(Op1, Op2Begin, Op2End)\<close>: a C string against a range.\<close>

fun CmpI_range :: "string \<Rightarrow> string \<Rightarrow> int" where
  "CmpI_range op1 op2 =
     (let v1 = tolower (deref op1)
      in if v1 \<noteq> NUL
         then (case op2 of
             [] \<Rightarrow> 1
           | b # op2' \<Rightarrow>
               let v2 = tolower b
               in if schar v1 < schar v2 then -1
                  else if schar v1 > schar v2 then 1
                  else CmpI_range (tl op1) op2')
         else if op2 = [] then 0 else -1)"

text \<open>\<open>CmpI(Op1, Op2)\<close>: two C strings.\<close>

function CmpI :: "string \<Rightarrow> string \<Rightarrow> int" where
  "CmpI op1 op2 =
     (let v1 = tolower (deref op1); v2 = tolower (deref op2)
      in if v1 \<noteq> NUL \<and> v2 \<noteq> NUL
         then (if schar v1 < schar v2 then -1
               else if schar v1 > schar v2 then 1
               else CmpI (tl op1) (tl op2))
         else if v1 = NUL then (if v2 = NUL then 0 else -1)
         else 1)"
  by auto
termination
  by (relation "measure (\<lambda>(a, b). length a)")
    (auto simp: deref_def tolower_def split: list.splits)

declare CmpI_range.simps [simp del] CmpI.simps [simp del]

section \<open>Trimming and tokens\<close>

fun trim_begin :: "(char \<Rightarrow> bool) \<Rightarrow> string \<Rightarrow> string" where
  "trim_begin classifier [] = []"
| "trim_begin classifier (c # s) = (if classifier c then trim_begin classifier s else c # s)"

function trim_end :: "(char \<Rightarrow> bool) \<Rightarrow> string \<Rightarrow> string" where
  "trim_end classifier s =
     (if s \<noteq> [] then (if classifier (last s) then trim_end classifier (butlast s) else s) else s)"
  by auto
termination
  by (relation "measure (\<lambda>(p, s). length s)") auto

declare trim_end.simps [simp del]

definition Trim :: "(char \<Rightarrow> bool) \<Rightarrow> string \<Rightarrow> string" where
  "Trim classifier s = trim_end classifier (trim_begin classifier s)"

definition TrimWS :: "string \<Rightarrow> string" where
  "TrimWS s = Trim IsWS s"

text \<open>The loop of \<open>ExtractTokens\<close>: \<open>cur\<close> is the text from \<open>Begin\<close> to \<open>Source\<close>; the result
  lists the ranges handed to the consumer.\<close>

fun tokens_loop :: "char \<Rightarrow> string \<Rightarrow> string \<Rightarrow> string list" where
  "tokens_loop sep cur source =
     (case source of
        [] \<Rightarrow> (if cur \<noteq> [] then [cur] else [])
      | c # source' \<Rightarrow>
          if c = NUL then (if cur \<noteq> [] then [cur] else [])
          else if c = sep then (if cur \<noteq> [] then [cur] else []) @ tokens_loop sep [] source'
          else tokens_loop sep (cur @ [c]) source')"

declare tokens_loop.simps [simp del]

definition ExtractTokens :: "string \<Rightarrow> char \<Rightarrow> string list" where
  "ExtractTokens source sep = tokens_loop sep [] source"

definition TrimWSTokenConsumer :: "string \<Rightarrow> string list" where
  "TrimWSTokenConsumer tok = (let t = TrimWS tok in if t \<noteq> [] then [t] else [])"

definition ExtractTrimWSTokens :: "string \<Rightarrow> char \<Rightarrow> string list" where
  "ExtractTrimWSTokens source sep = concat (map TrimWSTokenConsumer (ExtractTokens source sep))"

section \<open>key=value pairs\<close>

datatype PARSE_STATE = PS_ZERO | PS_KEY | PS_SEPSEARCH | PS_VALSEARCH | PS_VAL | PS_QUOTEDVAL

text \<open>\<open>kv_Key\<close> is the text from \<open>KeyBegin\<close> to \<open>KeyEnd\<close> (to \<open>CurrPos\<close> while the key is being
  read), \<open>kv_Value\<close> the text from \<open>ValueBegin\<close> to \<open>CurrPos\<close>, \<open>kv_Out\<close> the consumer's calls.\<close>

record kv_parser =
  kv_State :: PARSE_STATE
  kv_Key :: string
  kv_Value :: string
  kv_Out :: "(string \<times> string) list"

definition kv_init :: kv_parser where
  "kv_init = \<lparr>kv_State = PS_ZERO, kv_Key = [], kv_Value = [], kv_Out = []\<rparr>"

definition kv_emit :: "string \<Rightarrow> kv_parser \<Rightarrow> kv_parser" where
  "kv_emit v p = p\<lparr>kv_Out := kv_Out p @ [(kv_Key p, v)]\<rparr>"

definition kv_step :: "char \<Rightarrow> char \<Rightarrow> kv_parser \<Rightarrow> kv_parser" where
  "kv_step sep c p =
     (case kv_State p of
        PS_ZERO \<Rightarrow> if \<not> IsWS c then p\<lparr>kv_Key := [c], kv_State := PS_KEY\<rparr> else p
      | PS_KEY \<Rightarrow>
          if IsWS c then p\<lparr>kv_State := PS_SEPSEARCH\<rparr>
          else if c = sep then p\<lparr>kv_State := PS_VALSEARCH\<rparr>
          else p\<lparr>kv_Key := kv_Key p @ [c]\<rparr>
      | PS_SEPSEARCH \<Rightarrow>
          if c = sep then p\<lparr>kv_State := PS_VALSEARCH\<rparr>
          else if \<not> IsWS c then p\<lparr>kv_Key := [c], kv_State := PS_KEY\<rparr>
          else p
      | PS_VALSEARCH \<Rightarrow>
          if \<not> IsWS c
          then p\<lparr>kv_Value := [c], kv_State := (if c = CHR 0x22 then PS_QUOTEDVAL else PS_VAL)\<rparr>
          else if IsNewLine c then (kv_emit [] p)\<lparr>kv_State := PS_ZERO\<rparr>
          else p
      | PS_VAL \<Rightarrow>
          if IsWS c then (kv_emit (kv_Value p) p)\<lparr>kv_State := PS_ZERO\<rparr>
          else p\<lparr>kv_Value := kv_Value p @ [c]\<rparr>
      | PS_QUOTEDVAL \<Rightarrow>
          if c = CHR 0x22 then (kv_emit (tl (kv_Value p)) p)\<lparr>kv_State := PS_ZERO\<rparr>
          else p\<lparr>kv_Value := kv_Value p @ [c]\<rparr>)"

definition kv_finish :: "kv_parser \<Rightarrow> (string \<times> string) list" where
  "kv_finish p =
     (case kv_State p of
        PS_VAL \<Rightarrow> kv_Out (kv_emit (kv_Value p) p)
      | PS_QUOTEDVAL \<Rightarrow> kv_Out (kv_emit (tl (kv_Value p)) p)
      | _ \<Rightarrow> kv_Out p)"

definition ParseKeyValue :: "char \<Rightarrow> string \<Rightarrow> (string \<times> string) list" where
  "ParseKeyValue sep source = kv_finish (fold (kv_step sep) (cstr source) kv_init)"

section \<open>Case folding\<close>

lemma of_char_bound: "(of_char c :: nat) < 256"
  by (cases c) simp

lemma tolower_NUL [simp]: "tolower NUL = NUL"
  by (simp add: tolower_def)

lemma tolower_is_NUL [simp]: "(tolower c = NUL) = (c = NUL)"
proof
  assume a: "tolower c = NUL"
  show "c = NUL"
  proof (cases "65 \<le> (of_char c :: nat) \<and> (of_char c :: nat) \<le> 90")
    case True
    then have "char_of (of_char c + 32 :: nat) = NUL"
      using a by (simp add: tolower_def Let_def)
    then have "(of_char (char_of (of_char c + 32 :: nat)) :: nat) = of_char NUL"
      by simp
    then show ?thesis
      using True by simp
  qed (use a in \<open>auto simp: tolower_def Let_def\<close>)
qed simp

lemma schar_eq [simp]: "(schar a = schar b) = (a = b)"
proof
  assume a: "schar a = schar b"
  have bound: "0 \<le> (of_char x :: int)" "(of_char x :: int) < 256" for x :: char
    by (cases x; simp)+
  have "(of_char a :: int) = of_char b"
    using a bound [of a] bound [of b] by (simp add: schar_def Let_def split: if_splits)
  then show "a = b" by simp
qed simp

definition ci :: "string \<Rightarrow> int list" where
  "ci s = map (\<lambda>c. schar (tolower c)) s"

lemma ci_simps [simp]: "ci [] = []" "ci (c # s) = schar (tolower c) # ci s" "(ci s = []) = (s = [])"
  "([] = ci s) = (s = [])"
  by (auto simp: ci_def)

lemma ci_eq: "(ci a = ci b) = (map tolower a = map tolower b)"
  by (auto simp: ci_def list_eq_iff_nth_eq)

text \<open>The result of comparing two lists of integers lexicographically.\<close>

definition lex_cmp :: "int list \<Rightarrow> int list \<Rightarrow> int" where
  "lex_cmp xs ys = (if xs = ys then 0 else if ord_class.lexordp xs ys then -1 else 1)"

lemma lex_cmp_simps [simp]:
  "lex_cmp [] [] = 0" "lex_cmp [] (y # ys) = -1" "lex_cmp (x # xs) [] = 1"
  "lex_cmp (x # xs) (y # ys) = (if x < y then -1 else if x > y then 1 else lex_cmp xs ys)"
  by (auto simp: lex_cmp_def)

lemma CmpI_lex: "CmpI a b = lex_cmp (ci (cstr a)) (ci (cstr b))"
proof (induction a b rule: CmpI.induct)
  case (1 a b)
  show ?case
  proof (cases "deref a \<noteq> NUL \<and> deref b \<noteq> NUL")
    case True
    then obtain x a' y b' where "a = x # a'" "b = y # b'"
      by (cases a; cases b) auto
    with 1 True show ?thesis
      by (subst CmpI.simps) (auto simp: Let_def)
  next
    case False
    then show ?thesis
      by (subst CmpI.simps) (cases a; cases b; auto simp: Let_def)
  qed
qed

lemma CmpI_range_lex: "CmpI_range a b = lex_cmp (ci (cstr a)) (ci b)"
proof (induction a b rule: CmpI_range.induct)
  case (1 a b)
  show ?case
  proof (cases "deref a = NUL")
    case True
    then show ?thesis
      by (subst CmpI_range.simps) (cases a; cases b; simp)
  next
    case False
    then obtain x a' where "a = x # a'" "x \<noteq> NUL"
      by (cases a) auto
    with 1 show ?thesis
      by (subst CmpI_range.simps) (cases b; auto simp: Let_def)
  qed
qed

section \<open>Facts on trimming\<close>

lemma trim_begin_dropWhile: "trim_begin p s = dropWhile p s"
  by (induction s) auto

lemma trim_end_rev: "trim_end p s = rev (dropWhile p (rev s))"
proof (induction s rule: rev_induct)
  case (snoc c s)
  then show ?case by (subst trim_end.simps) simp
qed (simp add: trim_end.simps)

lemma trim_end_split: "\<exists>b. s = trim_end p s @ b \<and> list_all p b"
proof -
  have "rev s = takeWhile p (rev s) @ dropWhile p (rev s)"
    by simp
  then have "s = trim_end p s @ rev (takeWhile p (rev s))"
    unfolding trim_end_rev by (metis rev_append rev_rev_ident)
  moreover have "list_all p (rev (takeWhile p (rev s)))"
    by (auto simp: list_all_iff dest: set_takeWhileD)
  ultimately show ?thesis by blast
qed

lemma trim_end_last: "trim_end p s \<noteq> [] \<Longrightarrow> \<not> p (last (trim_end p s))"
  by (simp add: trim_end_rev last_rev hd_dropWhile)

lemma Trim_id: "s = [] \<or> \<not> p (hd s) \<and> \<not> p (last s) \<Longrightarrow> Trim p s = s"
  by (cases s) (auto simp: Trim_def trim_begin_dropWhile trim_end.simps)

section \<open>Facts on tokens\<close>

text \<open>The reference for tokenising: cut at every separator, keep the non-empty parts.\<close>

fun split_on :: "char \<Rightarrow> string \<Rightarrow> string list" where
  "split_on sep [] = [[]]"
| "split_on sep (c # s) =
     (if c = sep then [] # split_on sep s
      else (c # hd (split_on sep s)) # tl (split_on sep s))"

lemma split_on_nonempty [simp]: "split_on sep s \<noteq> []"
  by (cases s) auto

lemma nonempty_parts:
  "filter (\<lambda>t. t \<noteq> []) (([] @ hd (split_on sep s)) # tl (split_on sep s)) = filter (\<lambda>t. t \<noteq> []) (split_on sep s)"
  by (cases "split_on sep s") simp_all

lemma tokens_loop_split:
  "tokens_loop sep cur s =
    filter (\<lambda>t. t \<noteq> []) ((cur @ hd (split_on sep (cstr s))) # tl (split_on sep (cstr s)))"
proof (induction sep cur s rule: tokens_loop.induct)
  case (1 sep cur s)
  show ?case
  proof (cases s)
    case (Cons c s')
    show ?thesis
    proof (cases "c = NUL \<or> c \<noteq> sep")
      case True
      then show ?thesis
        using 1 Cons by (subst tokens_loop.simps) auto
    next
      case False
      have "tokens_loop sep [] s' = filter (\<lambda>t. t \<noteq> []) (split_on sep (cstr s'))"
        using 1(1) [OF Cons] False unfolding nonempty_parts by blast
      then show ?thesis
        using False Cons by (subst tokens_loop.simps) auto
    qed
  qed (simp add: tokens_loop.simps)
qed

lemma ExtractTokens_split: "ExtractTokens s sep = filter (\<lambda>t. t \<noteq> []) (split_on sep (cstr s))"
  unfolding ExtractTokens_def tokens_loop_split by (rule nonempty_parts)


section \<open>Facts on key=value pairs\<close>

text \<open>A pair as it is written in a text: with the value quoted or not.\<close>

fun kv_line :: "char \<Rightarrow> bool \<times> string \<times> string \<Rightarrow> string" where
  "kv_line sep (quoted, k, v) = k @ sep # (if quoted then CHR 0x22 # v @ [CHR 0x22] else v) @ [CHR 0x0A]"

fun kv_ok :: "char \<Rightarrow> bool \<times> string \<times> string \<Rightarrow> bool" where
  "kv_ok sep (quoted, k, v) \<longleftrightarrow> k \<noteq> [] \<and> list_all (\<lambda>c. \<not> IsWS c \<and> c \<noteq> sep \<and> c \<noteq> NUL) k
     \<and> (if quoted then list_all (\<lambda>c. c \<noteq> CHR 0x22 \<and> c \<noteq> NUL) v
        else list_all (\<lambda>c. \<not> IsWS c \<and> c \<noteq> NUL) v \<and> (v = [] \<or> hd v \<noteq> CHR 0x22))"

lemma kv_key_run:
  assumes "list_all (\<lambda>c. \<not> IsWS c \<and> c \<noteq> sep \<and> c \<noteq> NUL) k" "kv_State p = PS_KEY"
  shows "fold (kv_step sep) k p = p\<lparr>kv_Key := kv_Key p @ k\<rparr>"
  using assms by (induction k arbitrary: p) (simp_all add: kv_step_def del: IsWS.simps)

lemma kv_val_run:
  assumes "list_all (\<lambda>c. \<not> IsWS c \<and> c \<noteq> NUL) v" "kv_State p = PS_VAL"
  shows "fold (kv_step sep) v p = p\<lparr>kv_Value := kv_Value p @ v\<rparr>"
  using assms by (induction v arbitrary: p) (simp_all add: kv_step_def del: IsWS.simps)

lemma kv_quoted_run:
  assumes "list_all (\<lambda>c. c \<noteq> CHR 0x22 \<and> c \<noteq> NUL) v" "kv_State p = PS_QUOTEDVAL"
  shows "fold (kv_step sep) v p = p\<lparr>kv_Value := kv_Value p @ v\<rparr>"
  using assms by (induction v arbitrary: p) (simp_all add: kv_step_def)

lemma kv_key_done:
  assumes "k \<noteq> []" "list_all (\<lambda>c. \<not> IsWS c \<and> c \<noteq> sep \<and> c \<noteq> NUL) k" "kv_State p = PS_ZERO"
    "\<not> IsWS sep"
  shows "fold (kv_step sep) (k @ [sep]) p = p\<lparr>kv_Key := k, kv_State := PS_VALSEARCH\<rparr>"
  using assms kv_key_run [of sep "tl k" "p\<lparr>kv_Key := [hd k], kv_State := PS_KEY\<rparr>"]
  by (cases k) (simp_all add: kv_step_def del: IsWS.simps)

lemma kv_value_done:
  assumes "kv_State p = PS_VALSEARCH" "kv_ok sep (quoted, k, v)"
  shows "\<exists>w. fold (kv_step sep) ((if quoted then CHR 0x22 # v @ [CHR 0x22] else v) @ [CHR 0x0A]) p
    = p\<lparr>kv_Value := w, kv_Out := kv_Out p @ [(kv_Key p, v)], kv_State := PS_ZERO\<rparr>"
proof (cases quoted)
  case True
  then show ?thesis
    using assms kv_quoted_run [of v "p\<lparr>kv_Value := [CHR 0x22], kv_State := PS_QUOTEDVAL\<rparr>" sep]
    by (intro exI [of _ "CHR 0x22 # v"]) (simp add: kv_step_def kv_emit_def)
next
  case False
  show ?thesis
  proof (cases v)
    case Nil
    then show ?thesis
      using False assms by (intro exI [of _ "kv_Value p"]) (simp add: kv_step_def kv_emit_def)
  next
    case (Cons c v')
    then have "fold (kv_step sep) v p = p\<lparr>kv_Value := v, kv_State := PS_VAL\<rparr>"
      using False assms kv_val_run [of v' "p\<lparr>kv_Value := [c], kv_State := PS_VAL\<rparr>" sep]
      by (simp add: kv_step_def del: IsWS.simps)
    then show ?thesis
      using False by (intro exI [of _ v]) (simp add: kv_step_def kv_emit_def)
  qed
qed

lemma kv_lines:
  assumes "list_all (kv_ok sep) ls" "kv_State p = PS_ZERO" "\<not> IsWS sep"
  shows "kv_State (fold (kv_step sep) (concat (map (kv_line sep) ls)) p) = PS_ZERO
    \<and> kv_Out (fold (kv_step sep) (concat (map (kv_line sep) ls)) p) = kv_Out p @ map snd ls"
  using assms
proof (induction ls arbitrary: p)
  case (Cons l ls)
  obtain quoted k v where l: "l = (quoted, k, v)" by (cases l)
  let ?val = "(if quoted then CHR 0x22 # v @ [CHR 0x22] else v) @ [CHR 0x0A]"
    and ?p1 = "p\<lparr>kv_Key := k, kv_State := PS_VALSEARCH\<rparr>"
  have ok: "kv_ok sep (quoted, k, v)"
    using Cons.prems(1) l by (simp del: kv_ok.simps)
  then have "fold (kv_step sep) (k @ [sep]) p = ?p1"
    using Cons.prems(2,3) kv_key_done [of k sep p] by simp
  moreover obtain w where "fold (kv_step sep) ?val ?p1 =
      ?p1\<lparr>kv_Value := w, kv_Out := kv_Out p @ [(k, v)], kv_State := PS_ZERO\<rparr>"
    using kv_value_done [OF _ ok, of ?p1] by auto
  ultimately have "fold (kv_step sep) (kv_line sep l) p =
      ?p1\<lparr>kv_Value := w, kv_Out := kv_Out p @ [(k, v)], kv_State := PS_ZERO\<rparr>"
    by (simp add: l)
  then show ?case
    using Cons.IH [of "?p1\<lparr>kv_Value := w, kv_Out := kv_Out p @ [(k, v)], kv_State := PS_ZERO\<rparr>"]
      Cons.prems l by (simp del: kv_ok.simps)
qed simp

lemma kv_line_cstr:
  "list_all (kv_ok sep) ls \<Longrightarrow> sep \<noteq> NUL \<Longrightarrow> NUL \<notin> set (concat (map (kv_line sep) ls))"
  by (induction ls) (auto simp: list_all_iff split: if_splits)

section \<open>Properties\<close>

text \<open>Note: both overloads of \<open>CmpI\<close> compare case-insensitively and consistently: the sign is
  that of the lexicographic comparison of the folded characters, 0 means that the strings are
  equal up to case, and swapping the operands negates the result.\<close>

theorem CmpI_case_insensitive:
  "(CmpI a b = 0) = (map tolower (cstr a) = map tolower (cstr b))
    \<and> (CmpI a b = -1) = ord_class.lexordp (ci (cstr a)) (ci (cstr b))
    \<and> CmpI b a = - CmpI a b
    \<and> (CmpI_range a r = 0) = (map tolower (cstr a) = map tolower r)
    \<and> (NUL \<notin> set r \<longrightarrow> CmpI_range a r = CmpI a r)"
proof -
  have "lex_cmp ys xs = - lex_cmp xs ys" for xs ys
    by (induction xs arbitrary: ys; case_tac ys) auto
  note swap = this [of "ci (cstr b)" "ci (cstr a)"]
  have "(lex_cmp xs ys = 0) = (xs = ys)" "(lex_cmp xs ys = -1) = ord_class.lexordp xs ys" for xs ys
    by (simp_all add: lex_cmp_def lexordp_irreflexive')
  then show ?thesis
    unfolding CmpI_lex CmpI_range_lex ci_eq [symmetric]
    using swap by (simp add: cstr_id)
qed

theorem CmpI_case_insensitive_witness:
  "CmpI_range ''Content-Type'' ''content-TYPE'' = CmpI ''Content-Type'' ''content-TYPE''"
  using CmpI_case_insensitive [of "''Content-Type''" "''a''" "''content-TYPE''"] by simp

text \<open>Note: \<open>Trim\<close> removes the longest matching prefix and suffix and nothing else: the source is
  a matching prefix, the result and a matching suffix, and the result neither begins nor ends
  with a matching character.\<close>

theorem Trim_removes_both_ends:
  "\<exists>a b. s = a @ Trim p s @ b \<and> list_all p a \<and> list_all p b
    \<and> (Trim p s = [] \<or> \<not> p (hd (Trim p s)) \<and> \<not> p (last (Trim p s)))"
proof -
  let ?t = "trim_begin p s"
  obtain b where b: "?t = Trim p s @ b" "list_all p b"
    using trim_end_split [of ?t p] by (auto simp: Trim_def)
  have a: "s = takeWhile p s @ ?t" "list_all p (takeWhile p s)"
    by (auto simp: trim_begin_dropWhile list_all_iff dest: set_takeWhileD)
  have "\<not> p (hd (Trim p s))" if "Trim p s \<noteq> []"
  proof -
    have "hd (Trim p s) = hd ?t" "?t \<noteq> []"
      using b(1) that by (cases "Trim p s"; simp)+
    then show ?thesis
      by (simp add: trim_begin_dropWhile hd_dropWhile)
  qed
  moreover have "\<not> p (last (Trim p s))" if "Trim p s \<noteq> []"
    using that trim_end_last [of p ?t] by (simp add: Trim_def)
  ultimately show ?thesis
    using a b by (intro exI [of _ "takeWhile p s"] exI [of _ b]) auto
qed

text \<open>Note: \<open>ExtractTrimWSTokens\<close> cuts a C string at every separator, trims the parts and hands
  the non-empty ones to the consumer in order.\<close>

theorem ExtractTrimWSTokens_spec:
  "ExtractTrimWSTokens s sep = filter (\<lambda>t. t \<noteq> []) (map TrimWS (split_on sep (cstr s)))"
proof -
  have "TrimWS [] = []"
    by (simp add: TrimWS_def Trim_def trim_end.simps)
  then have "concat (map TrimWSTokenConsumer (filter (\<lambda>t. t \<noteq> []) ts)) =
      filter (\<lambda>t. t \<noteq> []) (map TrimWS ts)" for ts
    by (induction ts) (auto simp: TrimWSTokenConsumer_def Let_def)
  then show ?thesis
    by (simp add: ExtractTrimWSTokens_def ExtractTokens_split)
qed

text \<open>Note: the key=value scanner reads back what is written as lines \<open>key=value\<close> or
  \<open>key="value"\<close>: every pair in order, empty unquoted values and quoted values with blanks or
  newlines included.\<close>

theorem ParseKeyValue_roundtrip:
  assumes "list_all (kv_ok sep) ls" "\<not> IsWS sep" "sep \<noteq> NUL"
  shows "ParseKeyValue sep (concat (map (kv_line sep) ls)) = map snd ls"
  using kv_lines [of sep ls kv_init] assms cstr_id [OF kv_line_cstr [OF assms(1,3)]]
  by (simp add: ParseKeyValue_def kv_finish_def kv_init_def)

theorem ParseKeyValue_roundtrip_witness:
  "ParseKeyValue (CHR ''='') (concat (map (kv_line (CHR ''=''))
      [(False, ''a'', ''1''), (True, ''b'', ''x y''), (False, ''c'', [])]))
    = [(''a'', ''1''), (''b'', ''x y''), (''c'', [])]"
  using ParseKeyValue_roundtrip [of "CHR ''=''"
    "[(False, ''a'', ''1''), (True, ''b'', ''x y''), (False, ''c'', [])]"] by simp

end
