(* ===== verification/WSFrame.thy ===== *)
theory WSFrame
  imports Prelude
begin

text \<open>
  The frame format of WebSocket/WSConnection.cpp: opcodes, close reasons, the length of a frame
  from its first bytes (\<open>ProcessIncoming\<close>), unmasking in place (\<open>ProcessFrame\<close>) and the header
  of the frames the server sends (\<open>Allocate\<close>). Bytes are 8-bit words; the code's native order
  is little-endian.
\<close>

type_synonym byte = "8 word"

abbreviation U64 :: nat where
  "U64 \<equiv> 18446744073709551616"

definition u64_add :: "nat \<Rightarrow> nat \<Rightarrow> nat" where
  "u64_add a b = (a + b) mod U64"

section \<open>Constants\<close>

datatype CLOSEREASON = CR_NONE | CR_NORMAL | CR_EXIT | CR_PROT_ERROR | CR_UNK_DATATYPE
  | CR_UNKNOWN_CODE | CR_CONN_ERROR | CR_DATA_ERROR | CR_POLICY_ERROR | CR_SIZE_LIMIT
  | CR_EXT_ERROR | CR_UNEXP_ERROR

fun cr_code :: "CLOSEREASON \<Rightarrow> nat" where
  "cr_code CR_NONE = 0"
| "cr_code CR_NORMAL = 1000"
| "cr_code CR_EXIT = 1001"
| "cr_code CR_PROT_ERROR = 1002"
| "cr_code CR_UNK_DATATYPE = 1003"
| "cr_code CR_UNKNOWN_CODE = 1005"
| "cr_code CR_CONN_ERROR = 1006"
| "cr_code CR_DATA_ERROR = 1007"
| "cr_code CR_POLICY_ERROR = 1008"
| "cr_code CR_SIZE_LIMIT = 1009"
| "cr_code CR_EXT_ERROR = 1010"
| "cr_code CR_UNEXP_ERROR = 1011"

datatype MESSAGETYPE = MSGTYPE_TEXT | MSGTYPE_BINARY

text \<open>An opcode is the value of the low four bits: the code casts them to the enumeration
  without a check.\<close>

definition OCN_CONTINUATION :: nat where "OCN_CONTINUATION = 0"
definition OCN_TEXT :: nat where "OCN_TEXT = 1"
definition OCN_BINARY :: nat where "OCN_BINARY = 2"
definition OCN_CONTROL_BEGIN :: nat where "OCN_CONTROL_BEGIN = 8"
definition OCN_CLOSE :: nat where "OCN_CLOSE = OCN_CONTROL_BEGIN"
definition OCN_PING :: nat where "OCN_PING = 9"
definition OCN_PONG :: nat where "OCN_PONG = 10"

lemmas ocn_defs = OCN_CONTINUATION_def OCN_TEXT_def OCN_BINARY_def OCN_CONTROL_BEGIN_def
  OCN_CLOSE_def OCN_PING_def OCN_PONG_def

definition FLAG_FIN :: byte where "FLAG_FIN = 0x80"
definition FLAG_MASK :: byte where "FLAG_MASK = 0x80"
definition OCN_MASK :: byte where "OCN_MASK = 0x0F"

definition GetMessageType :: "nat \<Rightarrow> MESSAGETYPE" where
  "GetMessageType op = (if op = OCN_TEXT then MSGTYPE_TEXT else MSGTYPE_BINARY)"

definition GetOpcode :: "MESSAGETYPE \<Rightarrow> nat" where
  "GetOpcode t = (if t = MSGTYPE_TEXT then OCN_TEXT else OCN_BINARY)"

section \<open>Byte order\<close>

definition be_nat :: "byte list \<Rightarrow> nat" where
  "be_nat bs = foldl (\<lambda>a b. a * 256 + unat b) 0 bs"

fun be_bytes :: "nat \<Rightarrow> nat \<Rightarrow> byte list" where
  "be_bytes 0 v = []"
| "be_bytes (Suc n) v = be_bytes n (v div 256) @ [of_nat v]"

definition le32 :: "byte list \<Rightarrow> 32 word" where
  "le32 bs = ucast (bs ! 0) OR push_bit 8 (ucast (bs ! 1)) OR push_bit 16 (ucast (bs ! 2))
     OR push_bit 24 (ucast (bs ! 3))"

definition le32_bytes :: "32 word \<Rightarrow> byte list" where
  "le32_bytes w = [ucast w, ucast (drop_bit 8 w), ucast (drop_bit 16 w), ucast (drop_bit 24 w)]"

section \<open>The length of a frame\<close>

text \<open>The first part of \<open>ProcessIncoming\<close>: the number of bytes needed to know the length, or
  the total frame length as the code computes it.\<close>

definition frame_length :: "byte list \<Rightarrow> nat + nat" where
  "frame_length data =
     (if length data < 2 then Inl 2
      else let lengthMarker = unat (data ! 1 AND 0x7F);
               mask = (if data ! 1 AND FLAG_MASK \<noteq> 0 then 4 else 0)
           in if lengthMarker < 126 then Inr (u64_add (lengthMarker + 2) mask)
              else if lengthMarker = 126
              then if length data < 2 + 2 then Inl (2 + 2)
                   else Inr (u64_add (be_nat (seg data 2 2) + 2 + 2) mask)
              else if length data < 2 + 8 then Inl (2 + 8)
              else Inr (u64_add (u64_add (be_nat (seg data 2 8)) (2 + 2)) mask))"

text \<open>The offset of the payload, \<open>PayloadPos - Buff\<close> in \<open>ProcessFrame\<close>.\<close>

definition payload_offset :: "byte list \<Rightarrow> nat" where
  "payload_offset buff =
     (let lengthMarker = unat (buff ! 1 AND 0x7F)
      in (if lengthMarker < 126 then 2 else if lengthMarker = 126 then 2 + 2 else 2 + 8)
         + (if buff ! 1 AND FLAG_MASK \<noteq> 0 then 4 else 0))"

section \<open>Unmasking\<close>

text \<open>The loop over whole words: what it has written and what is left to the byte loop.\<close>

function unmask_words :: "32 word \<Rightarrow> byte list \<Rightarrow> byte list \<times> byte list" where
  "unmask_words maskKey ps =
     (if 4 < length ps
      then let (done', rest) = unmask_words maskKey (drop 4 ps)
           in (le32_bytes (le32 (take 4 ps) XOR maskKey) @ done', rest)
      else ([], ps))"
  by auto
termination
  by (relation "measure (\<lambda>(k, ps). length ps)") auto

declare unmask_words.simps [simp del]

primrec unmask_bytes :: "byte list \<Rightarrow> 32 word \<Rightarrow> byte list" where
  "unmask_bytes [] maskKey = []"
| "unmask_bytes (p # ps) maskKey = (p XOR ucast (maskKey AND 0xFF)) # unmask_bytes ps (drop_bit 8 maskKey)"

definition Unmask :: "32 word \<Rightarrow> byte list \<Rightarrow> byte list" where
  "Unmask maskKey ps =
     (let (done', rest) = (if length ps \<ge> 4 then unmask_words maskKey ps else ([], ps))
      in done' @ unmask_bytes rest maskKey)"

section \<open>The header of a sent frame\<close>

definition AllocateHeader :: "MESSAGETYPE \<Rightarrow> nat \<Rightarrow> byte list" where
  "AllocateHeader t len =
     (of_nat (GetOpcode t) OR FLAG_FIN) #
     (if len < 126 then [of_nat len]
      else if len < 655356 then 126 # be_bytes 2 len
      else 127 # be_bytes 8 len)"

section \<open>Facts on byte order\<close>

lemma length_be_bytes [simp]: "length (be_bytes n v) = n"
  by (induction n arbitrary: v) simp_all

lemma be_nat_append: "be_nat (bs @ [b]) = be_nat bs * 256 + unat b"
  by (simp add: be_nat_def)

lemma be_nat_bytes: "be_nat (be_bytes n v) = v mod 256 ^ n"
proof (induction n arbitrary: v)
  case (Suc n)
  have "be_nat (be_bytes (Suc n) v) = v div 256 mod 256 ^ n * 256 + v mod 256"
    by (simp add: be_nat_append Suc unat_of_nat)
  then show ?case
    by (simp add: mod_mult2_eq mult.commute)
qed (simp add: be_nat_def)

lemma be_nat_bound: "be_nat bs < 256 ^ length bs"
proof (induction bs rule: rev_induct)
  case (snoc b bs)
  have "unat b < 2 ^ LENGTH(8)"
    by (rule unsigned_less)
  then have "unat b < 256"
    by simp
  moreover have "be_nat bs * 256 + 256 \<le> 256 ^ length bs * 256"
    using snoc by (metis Suc_leI add.commute mult_Suc mult_le_mono1)
  ultimately have "be_nat bs * 256 + unat b < 256 ^ length bs * 256"
    by linarith
  then show ?case
    by (simp add: be_nat_append mult.commute)
qed (simp add: be_nat_def)

lemma bit_byte_of_word: "bit (ucast (drop_bit k w) :: byte) n = (n < 8 \<and> bit w (k + n))" for w :: "32 word"
  by (auto simp: bit_simps)

lemma le32_bytes_le32:
  assumes "length bs = 4"
  shows "le32_bytes (le32 bs) = bs"
proof -
  obtain a b c d where bs: "bs = [a, b, c, d]"
    using assms by (auto simp: numeral_eq_Suc length_Suc_conv)
  have "ucast (le32 bs) = a" "ucast (drop_bit 8 (le32 bs)) = b" "ucast (drop_bit 16 (le32 bs)) = c"
    "ucast (drop_bit 24 (le32 bs)) = d"
    by (rule bit_word_eqI, auto simp: bs le32_def bit_simps dest: bit_imp_le_length)+
  then show ?thesis
    by (simp add: le32_bytes_def bs)
qed

lemma le32_bytes_xor: "le32_bytes (v XOR w) = map2 (XOR) (le32_bytes v) (le32_bytes w)"
proof -
  have "(ucast (drop_bit k (v XOR w)) :: byte) = ucast (drop_bit k v) XOR ucast (drop_bit k w)" for k
    by (rule bit_word_eqI) (auto simp: bit_simps)
  from this this [of 0] show ?thesis
    by (simp add: le32_bytes_def)
qed


section \<open>Facts on unmasking\<close>

text \<open>The reference: octet \<open>i\<close> of the payload is combined with octet \<open>i mod 4\<close> of the key
  (RFC 6455, section 5.3).\<close>

definition mask_octets :: "byte list \<Rightarrow> byte list \<Rightarrow> byte list" where
  "mask_octets key ps = map (\<lambda>i. ps ! i XOR key ! (i mod 4)) [0..<length ps]"

lemma length_mask_octets [simp]: "length (mask_octets key ps) = length ps"
  by (simp add: mask_octets_def)

lemma nth_mask_octets [simp]: "i < length ps \<Longrightarrow> mask_octets key ps ! i = ps ! i XOR key ! (i mod 4)"
  by (simp add: mask_octets_def)

lemma length_le32_bytes [simp]: "length (le32_bytes w) = 4"
  by (simp add: le32_bytes_def)

lemma mask_octets_words:
  assumes "4 \<le> length ps" "length key = 4"
  shows "mask_octets key ps = map2 (XOR) (take 4 ps) key @ mask_octets key (drop 4 ps)"
proof (rule nth_equalityI)
  fix i assume i: "i < length (mask_octets key ps)"
  show "mask_octets key ps ! i = (map2 (XOR) (take 4 ps) key @ mask_octets key (drop 4 ps)) ! i"
  proof (cases "i < 4")
    case False
    then have "(i - 4) mod 4 = i mod 4"
      by (metis le_mod_geq not_less)
    with False i assms show ?thesis
      by (simp add: nth_append)
  qed (use i assms in \<open>simp add: nth_append\<close>)
qed (use assms in simp)

lemma unmask_words_spec:
  "fst (unmask_words k ps) @ mask_octets (le32_bytes k) (snd (unmask_words k ps)) = mask_octets (le32_bytes k) ps
    \<and> length (snd (unmask_words k ps)) \<le> max 4 (length ps) \<and> (length ps > 4 \<or> snd (unmask_words k ps) = ps)
    \<and> length (snd (unmask_words k ps)) \<le> 4"
proof (induction k ps rule: unmask_words.induct)
  case (1 k ps)
  show ?case
  proof (cases "4 < length ps")
    case True
    then have w: "unmask_words k ps = (le32_bytes (le32 (take 4 ps) XOR k) @ fst (unmask_words k (drop 4 ps)),
        snd (unmask_words k (drop 4 ps)))"
      by (subst unmask_words.simps) (simp add: case_prod_beta)
    have "le32_bytes (le32 (take 4 ps) XOR k) = map2 (XOR) (take 4 ps) (le32_bytes k)"
      using True by (simp add: le32_bytes_xor le32_bytes_le32)
    with 1 [OF True] True show ?thesis
      by (simp add: w mask_octets_words [of ps "le32_bytes k"])
  next
    case False
    then show ?thesis
      by (subst (1 2 3 4 5) unmask_words.simps) simp
  qed
qed

lemma unmask_bytes_nth:
  "i < length ps \<Longrightarrow> unmask_bytes ps k ! i = ps ! i XOR ucast (drop_bit (8 * i) k)"
proof (induction ps arbitrary: k i)
  case (Cons p ps)
  have "(ucast (k AND 0xFF) :: byte) = ucast k"
  proof (rule bit_word_eqI)
    fix n assume n: "n < LENGTH(8)"
    have m: "(0xFF :: 32 word) = mask 8"
      by (simp add: mask_eq_exp_minus_1)
    show "bit (ucast (k AND 0xFF) :: byte) n = bit (ucast k :: byte) n"
      using n unfolding m by (simp add: bit_simps)
  qed
  with Cons show ?case
    by (cases i) (simp_all add: add.commute)
qed simp

lemma length_unmask_bytes [simp]: "length (unmask_bytes ps k) = length ps"
  by (induction ps arbitrary: k) simp_all

lemma unmask_bytes_octets:
  assumes "length ps \<le> 4"
  shows "unmask_bytes ps k = mask_octets (le32_bytes k) ps"
proof (rule nth_equalityI)
  fix i assume "i < length (unmask_bytes ps k)"
  then have i: "i < length ps" "i < 4" using assms by simp_all
  then have "i = 0 \<or> i = 1 \<or> i = 2 \<or> i = 3" by linarith
  then have "le32_bytes k ! i = ucast (drop_bit (8 * i) k)"
    by (auto simp: le32_bytes_def)
  with i show "unmask_bytes ps k ! i = mask_octets (le32_bytes k) ps ! i"
    by (simp add: unmask_bytes_nth)
qed simp

lemma Unmask_octets: "Unmask k ps = mask_octets (le32_bytes k) ps"
  using unmask_words_spec [of k ps] unmask_bytes_octets [of "snd (unmask_words k ps)" k]
    unmask_bytes_octets [of ps k]
  by (auto simp: Unmask_def case_prod_beta)

lemma mask_octets_twice: "mask_octets key (mask_octets key ps) = ps"
  by (rule nth_equalityI) (simp_all add: xor.assoc)


section \<open>Frames\<close>

text \<open>The length bytes of a frame with at most 65535 bytes of payload, and the frame a client
  sends: its octets masked with \<open>key\<close>.\<close>

definition length_field :: "byte \<Rightarrow> nat \<Rightarrow> byte list" where
  "length_field m n = (if n < 126 then [m OR of_nat n] else (m OR 126) # be_bytes 2 n)"

definition first_byte :: "bool \<Rightarrow> nat \<Rightarrow> byte" where
  "first_byte fin op = (if fin then FLAG_FIN else 0) OR of_nat op"

definition client_frame :: "bool \<Rightarrow> nat \<Rightarrow> byte list \<Rightarrow> byte list \<Rightarrow> byte list" where
  "client_frame fin op key p =
     first_byte fin op # length_field FLAG_MASK (length p) @ key @ mask_octets key p"

lemma low7: "(0x7F :: byte) = mask 7"
  by (simp add: mask_eq_exp_minus_1)

lemma low4: "(0x0F :: byte) = mask 4"
  by (simp add: mask_eq_exp_minus_1)

lemma of_nat_bit7: "n < 128 \<Longrightarrow> \<not> bit (of_nat n :: byte) 7"
proof -
  assume "n < 128"
  then have "\<not> bit n 7"
    by (simp add: bit_iff_odd)
  then show ?thesis
    by (simp add: bit_of_nat_iff)
qed

lemma flag_bit: "(w AND FLAG_MASK \<noteq> 0) = bit w 7" "bit FLAG_MASK 7" "FLAG_MASK \<noteq> 0"
  using and_exp_eq_0_iff_not_bit [of w 7] and_exp_eq_0_iff_not_bit [of FLAG_MASK 7]
  by (simp_all add: FLAG_MASK_def)

lemma length_marker:
  assumes "n < 128" "m = FLAG_MASK \<or> m = 0"
  shows "unat ((m OR of_nat n) AND 0x7F) = n" "((m OR of_nat n) AND FLAG_MASK \<noteq> 0) = (m = FLAG_MASK)"
proof -
  have "(m OR of_nat n) AND 0x7F = take_bit 7 (of_nat n)"
    using assms(2) unfolding low7 FLAG_MASK_def by (auto simp: take_bit_or simp flip: take_bit_eq_mask)
  moreover have "unat (take_bit 7 (of_nat n :: byte)) = take_bit 7 (unat (of_nat n :: byte))"
    by (rule unsigned_take_bit_eq)
  ultimately show "unat ((m OR of_nat n) AND 0x7F) = n"
    using assms(1) by (simp only: unat_of_nat) (simp add: take_bit_eq_mod)
  have "\<not> bit (of_nat n :: byte) 7"
    using assms(1) by (rule of_nat_bit7)
  then have "bit (m OR of_nat n) 7 = bit m 7"
    by (simp add: bit_or_iff)
  moreover have "bit m 7 = (m = FLAG_MASK)"
    using assms(2) flag_bit(2,3) by (elim disjE) simp_all
  ultimately show "((m OR of_nat n) AND FLAG_MASK \<noteq> 0) = (m = FLAG_MASK)"
    unfolding flag_bit(1) by (rule trans)
qed


lemma length_field_facts:
  assumes "m = FLAG_MASK \<or> m = 0"
  shows "length_field m n ! 0 = (m OR of_nat (if n < 126 then n else 126))"
    "length (length_field m n) = (if n < 126 then 1 else 3)"
    "\<not> n < 126 \<Longrightarrow> n < 65536 \<Longrightarrow> be_nat (seg (b # length_field m n @ r) 2 2) = n"
  using be_nat_bytes [of 2 n] by (simp_all add: length_field_def seg_def)

lemma header_marker:
  assumes "m = FLAG_MASK \<or> m = 0"
  shows "unat ((b # length_field m n @ r) ! 1 AND 0x7F) = (if n < 126 then n else 126)"
    "((b # length_field m n @ r) ! 1 AND FLAG_MASK \<noteq> 0) = (m = FLAG_MASK)"
proof -
  have "(b # length_field m n @ r) ! 1 = (m OR of_nat (if n < 126 then n else 126))"
    using length_field_facts(1) [OF assms, of n] by (simp add: nth_append length_field_facts(2) [OF assms])
  then show "unat ((b # length_field m n @ r) ! 1 AND 0x7F) = (if n < 126 then n else 126)"
    "((b # length_field m n @ r) ! 1 AND FLAG_MASK \<noteq> 0) = (m = FLAG_MASK)"
    using length_marker [of "if n < 126 then n else 126" m] assms by simp_all
qed

lemma frame_length_header:
  assumes "m = FLAG_MASK \<or> m = 0" "n < 65536"
  shows "frame_length (b # length_field m n @ r) =
    Inr (1 + length (length_field m n) + n + (if m = FLAG_MASK then 4 else 0))"
    and "payload_offset (b # length_field m n @ r) =
    1 + length (length_field m n) + (if m = FLAG_MASK then 4 else 0)"
  using header_marker [OF assms(1), of b n r] length_field_facts(1,2) [OF assms(1), of n]
    length_field_facts(3) [OF assms(1), of n b r] assms
  by (simp_all add: frame_length_def payload_offset_def Let_def u64_add_def split: if_split)

lemma frame_length_prefix:
  assumes "m = FLAG_MASK \<or> m = 0" "n < 65536" "k \<le> length (length_field m n) + length r"
  shows "(\<exists>j. frame_length (take (Suc k) (b # length_field m n @ r)) = Inl j \<and> Suc k < j
      \<and> j \<le> 1 + length (length_field m n))
    \<or> frame_length (take (Suc k) (b # length_field m n @ r)) =
        Inr (1 + length (length_field m n) + n + (if m = FLAG_MASK then 4 else 0))"
proof (cases "length (length_field m n) \<le> k")
  case True
  then have "take (Suc k) (b # length_field m n @ r) = b # length_field m n @ take (k - length (length_field m n)) r"
    by simp
  then show ?thesis
    using frame_length_header(1) [OF assms(1,2)] by simp
next
  case False
  note F = length_field_facts(1,2) [OF assms(1), of n]
  show ?thesis
  proof (cases "k = 0")
    case True
    then show ?thesis
      using F(2) by (simp add: frame_length_def)
  next
    case k: False
    let ?d = "take (Suc k) (b # length_field m n @ r)"
    have n: "\<not> n < 126" "Suc k < 4" "1 \<le> k"
      using False k F(2) by (simp_all split: if_splits)
    then have "?d ! 1 = (b # length_field m n @ r) ! 1" "length ?d = Suc k"
      using assms(3) by (simp_all add: nth_take del: take_Suc_Cons)
    then have "frame_length ?d = Inl 4"
      using header_marker(1) [OF assms(1), of b n r] n by (simp add: frame_length_def Let_def)
    then show ?thesis
      using n F(2) by simp
  qed
qed

lemma first_byte_facts:
  assumes "op < 16"
  shows "unat (first_byte fin op AND OCN_MASK) = op" "(first_byte fin op AND FLAG_FIN \<noteq> 0) = fin"
proof -
  have "first_byte fin op AND OCN_MASK = take_bit 4 (of_nat op)"
    unfolding OCN_MASK_def low4 first_byte_def FLAG_FIN_def
    by (auto simp: take_bit_or simp flip: take_bit_eq_mask)
  moreover have "unat (take_bit 4 (of_nat op :: byte)) = take_bit 4 (unat (of_nat op :: byte))"
    by (rule unsigned_take_bit_eq)
  ultimately show "unat (first_byte fin op AND OCN_MASK) = op"
    using assms by (simp only: unat_of_nat) (simp add: take_bit_eq_mod)
  have "\<not> bit (of_nat op :: byte) 7"
    using assms by (intro of_nat_bit7) simp
  then show "(first_byte fin op AND FLAG_FIN \<noteq> 0) = fin"
    using flag_bit bit_or_iff [of FLAG_FIN "of_nat op" 7]
    by (auto simp: first_byte_def FLAG_FIN_def FLAG_MASK_def)
qed

lemma client_frame_form:
  "client_frame fin op key p = first_byte fin op # length_field FLAG_MASK (length p) @ (key @ mask_octets key p)"
  by (simp add: client_frame_def)

lemma client_frame_parts:
  fixes fin :: bool and op :: nat
  assumes "length p < 65536" "length key = 4"
  defines "f \<equiv> client_frame fin op key p"
  shows "frame_length f = Inr (length f)" "payload_offset f + length p = length f"
    "seg f (payload_offset f - 4) 4 = key" "seg f (payload_offset f) (length p) = mask_octets key p"
    "f ! 0 = first_byte fin op" "f ! 1 AND FLAG_MASK \<noteq> 0" "6 \<le> payload_offset f" "length f \<le> length p + 8"
proof -
  note H = frame_length_header [of FLAG_MASK "length p" "first_byte fin op" "key @ mask_octets key p"]
  show "frame_length f = Inr (length f)" "payload_offset f + length p = length f"
    using H assms(1,2) by (simp_all add: f_def client_frame_form)
  show "6 \<le> payload_offset f" "length f \<le> length p + 8"
    using H assms(1,2) length_field_facts(2) [of FLAG_MASK "length p"]
    by (simp_all add: f_def client_frame_form)
  have "f = (first_byte fin op # length_field FLAG_MASK (length p)) @ key @ mask_octets key p"
    "payload_offset f = length (first_byte fin op # length_field FLAG_MASK (length p)) + 4"
    using H(2) [OF _ assms(1)] by (simp_all add: f_def client_frame_form)
  then show "seg f (payload_offset f - 4) 4 = key" "seg f (payload_offset f) (length p) = mask_octets key p"
    using assms(2) by (simp_all add: seg_def del: append_Cons)
  show "f ! 0 = first_byte fin op"
    by (simp add: f_def client_frame_form)
  show "f ! 1 AND FLAG_MASK \<noteq> 0"
    using header_marker(2) [of FLAG_MASK] by (simp add: f_def client_frame_form)
qed

section \<open>Properties\<close>

text \<open>C28: unmasking in place, by 32-bit words and then by bytes, is the octet-wise combination
  with the masking key of RFC 6455 for every payload length, and applying it twice gives the
  payload back.\<close>

theorem Unmask_is_rfc_masking:
  "length (Unmask k ps) = length ps
    \<and> (\<forall>i. i < length ps \<longrightarrow> Unmask k ps ! i = ps ! i XOR le32_bytes k ! (i mod 4))
    \<and> Unmask k (Unmask k ps) = ps"
  by (simp add: Unmask_octets mask_octets_twice)

theorem Unmask_is_rfc_masking_witness:
  "Unmask 0x04030201 [0x10, 0x20, 0x30, 0x40, 0x50] ! 4 = 0x50 XOR le32_bytes 0x04030201 ! 0"
  using Unmask_is_rfc_masking [of "0x04030201" "[0x10, 0x20, 0x30, 0x40, 0x50]"] by simp

text \<open>Note: the header \<open>Allocate\<close> writes for a message of up to 65535 bytes is one the frame
  parser reads back: unmasked, final, with the opcode of the message type and the exact
  length.\<close>

theorem sent_header_roundtrip:
  assumes "length p < 65536"
  shows "frame_length (AllocateHeader t (length p) @ p) = Inr (length (AllocateHeader t (length p)) + length p)
    \<and> payload_offset (AllocateHeader t (length p) @ p) = length (AllocateHeader t (length p))
    \<and> GetMessageType (unat ((AllocateHeader t (length p) @ p) ! 0 AND OCN_MASK)) = t"
proof -
  have h: "AllocateHeader t (length p) @ p = first_byte True (GetOpcode t) # length_field 0 (length p) @ p"
    "length (AllocateHeader t (length p)) = Suc (length (length_field 0 (length p)))"
    using assms by (simp_all add: AllocateHeader_def length_field_def first_byte_def or.commute)
  have op: "GetOpcode t < 16" "GetMessageType (GetOpcode t) = t"
    by (cases t; simp add: GetOpcode_def GetMessageType_def ocn_defs)+
  have "FLAG_MASK \<noteq> 0"
    by (simp add: FLAG_MASK_def)
  then show ?thesis
    using frame_length_header [of 0 "length p" "first_byte True (GetOpcode t)" p] assms op
    unfolding h by (simp add: first_byte_facts)
qed

theorem sent_header_roundtrip_witness:
  "payload_offset (AllocateHeader MSGTYPE_TEXT (length [1 :: byte, 2, 3]) @ [1, 2, 3])
    = length (AllocateHeader MSGTYPE_TEXT (length [1 :: byte, 2, 3]))"
proof -
  have "length [1 :: byte, 2, 3] < 65536" by simp
  from sent_header_roundtrip [OF this, of MSGTYPE_TEXT] show ?thesis by blast
qed


text \<open>Note: with a 64-bit length field the code counts a header of 2 + 2 bytes, although the
  payload starts after 2 + 8 (and the mask): a masked frame with \<open>n\<close> bytes of payload is taken
  to be six bytes shorter than it is.\<close>

theorem long_frame_six_bytes_short:
  assumes "n + 8 < U64" "length key = 4" "f = b # 0xFF # be_bytes 8 n @ key @ p"
  shows "frame_length f = Inr (n + 8) \<and> payload_offset f + n = n + 14"
proof -
  have "unat ((0xFF :: byte) AND 0x7F) = 127" "(0xFF :: byte) AND FLAG_MASK \<noteq> 0"
    by (simp_all add: FLAG_MASK_def)
  moreover have "seg f 2 8 = be_bytes 8 n"
    by (simp add: assms(3) seg_def)
  ultimately show ?thesis
    using be_nat_bytes [of 8 n] assms(1)
    by (simp add: frame_length_def payload_offset_def Let_def assms(3) u64_add_def)
qed

theorem long_frame_six_bytes_short_witness:
  "frame_length (0x82 # 0xFF # be_bytes 8 70000 @ [1, 2, 3, 4] @ []) = Inr 70008"
  using long_frame_six_bytes_short [of 70000 "[1, 2, 3, 4]" _ "0x82" "[]"] by simp

end
