(* ===== verification/WSConnection.thy ===== *)
theory WSConnection
  imports StreamReadBuff WriteBuffQueue WSFrame
begin

text \<open>
  The WebSocket connection of WebSocket/WSConnection.cpp as a state machine over its read
  buffer, its write queue, the fragment being assembled and the message handler. The calls it
  makes on the handler, the socket and the executor are recorded in order in \<open>ws_Calls\<close>; their
  completions (\<open>OnRead\<close>, \<open>OnWrite\<close>, \<open>StartAsyncWriteExternal\<close>) are operations of the model. The
  result \<open>None\<close> stands for undefined behaviour: a call through a null handler, an access outside
  the frame or the allocated storage. A handler is only present or absent; what it sends from
  inside a callback is an operation of its own.
\<close>

section \<open>State\<close>

datatype ws_call = CallMessage MESSAGETYPE "byte list" | CallClose nat | CallStep nat
  | AsyncRead nat nat | AsyncWrite bptr nat | SockClose | PostWrite | PostClose

record wsc =
  ws_SafeStates :: "32 word"
  ws_SilentTime :: nat
  ws_CurrFrameLength :: nat
  ws_ReadBuff :: "byte srb"
  ws_WriteBuff :: "byte wbq"
  ws_FragOpCode :: nat
  ws_FragMsgData :: "byte list"
  ws_MyHandler :: bool
  ws_Calls :: "ws_call list"

definition ReadBuffSize :: nat where "ReadBuffSize = 4 * 1024"
definition WriteBuffSize :: nat where "WriteBuffSize = 4 * 1024"
definition MaxSilentTime :: nat where "MaxSilentTime = 1 * 60 * 60"
definition MaxFrameSize :: nat where "MaxFrameSize = 16 * 1024 * 1024"
definition MaxFragmentedSize :: nat where "MaxFragmentedSize = 16 * 1024 * 1024"

definition UnknownFrameLength :: nat where "UnknownFrameLength = U64 - 1"
definition AllowMaskedOnly :: bool where "AllowMaskedOnly = True"

definition SAFE_READ :: "32 word" where "SAFE_READ = push_bit 0 1"
definition SAFE_WRITE :: "32 word" where "SAFE_WRITE = push_bit 1 1"
definition SAFE_ALL :: "32 word" where "SAFE_ALL = SAFE_READ OR SAFE_WRITE"

definition SetSafeState :: "32 word \<Rightarrow> wsc \<Rightarrow> wsc" where
  "SetSafeState st c = c\<lparr>ws_SafeStates := ws_SafeStates c OR st\<rparr>"

definition ClearSafeState :: "32 word \<Rightarrow> wsc \<Rightarrow> wsc" where
  "ClearSafeState st c = c\<lparr>ws_SafeStates := ws_SafeStates c AND NOT st\<rparr>"

definition IsSafeState :: "32 word \<Rightarrow> wsc \<Rightarrow> bool" where
  "IsSafeState st c \<longleftrightarrow> ws_SafeStates c AND st \<noteq> 0"

definition ws_call :: "ws_call \<Rightarrow> wsc \<Rightarrow> wsc" where
  "ws_call e c = c\<lparr>ws_Calls := ws_Calls c @ [e]\<rparr>"

text \<open>\<open>if (MyHandler) { MyHandler->OnClose(code); MyHandler=nullptr; }\<close>\<close>

definition close_handler :: "nat \<Rightarrow> wsc \<Rightarrow> wsc" where
  "close_handler code c =
     (if ws_MyHandler c then (ws_call (CallClose code) c)\<lparr>ws_MyHandler := False\<rparr> else c)"

section \<open>Reading and writing the socket\<close>

definition StartAsyncRead :: "wsc \<Rightarrow> wsc" where
  "StartAsyncRead c =
     (let (readPos, freeLength) = GetReadInfo (ws_ReadBuff c)
      in ws_call (AsyncRead readPos freeLength) c)"

text \<open>The loop of \<open>StartAsyncWrite\<close> over the pending buffers.\<close>

function write_loop :: "wsc \<Rightarrow> wsc" where
  "write_loop c =
     (case Pop (ws_WriteBuff c) of
        (None, q) \<Rightarrow> c\<lparr>ws_WriteBuff := q\<rparr>
      | (Some (p, n), q) \<Rightarrow>
          write_loop (ws_call (AsyncWrite p n) (ClearSafeState SAFE_WRITE (c\<lparr>ws_WriteBuff := q\<rparr>))))"
  by auto
termination
  by (relation "measure (\<lambda>c. length (wq_OutBuffA (ws_WriteBuff c)) - wq_FirstPendingI (ws_WriteBuff c))")
    (auto simp: Pop_def Let_def ws_call_def ClearSafeState_def split: if_splits)

declare write_loop.simps [simp del]

definition StartAsyncWrite :: "wsc \<Rightarrow> wsc" where
  "StartAsyncWrite c = (if \<not> IsSafeState SAFE_WRITE c then c else write_loop c)"

text \<open>A write through a pointer into the queue's storage at offset \<open>k\<close>.\<close>

fun poke :: "bptr \<Rightarrow> nat \<Rightarrow> byte list \<Rightarrow> byte wbq \<Rightarrow> byte wbq option" where
  "poke (StaticPtr p) k xs q =
     (if p + k + length xs \<le> length (wq_mem q)
      then Some (q\<lparr>wq_mem := mem_write (wq_mem q) (p + k) xs\<rparr>) else None)"
| "poke (DynPtr i) k xs q =
     (if k + length xs \<le> length (wq_heap q i)
      then Some (q\<lparr>wq_heap := (wq_heap q)(i := mem_write (wq_heap q i) k xs)\<rparr>) else None)"

section \<open>Sending\<close>

text \<open>\<open>Allocate\<close>: the pointer it returns is the frame's buffer and the offset of the payload
  in it.\<close>

definition WSAllocate :: "(nat \<Rightarrow> byte) \<Rightarrow> MESSAGETYPE \<Rightarrow> nat \<Rightarrow> wsc \<Rightarrow> ((bptr \<times> nat) option \<times> wsc) option" where
  "WSAllocate junk t len c =
     (let frameLength = (if len < 126 then u64_add len 2
                         else if len < 655356 then u64_add len (2 + 2) else u64_add len (2 + 8))
      in case Allocate junk (u32_of frameLength) (ws_WriteBuff c) of
           (None, q) \<Rightarrow> Some (None, c\<lparr>ws_WriteBuff := q\<rparr>)
         | (Some p, q) \<Rightarrow>
             (case poke p 0 (AllocateHeader t len) q of
                None \<Rightarrow> None
              | Some q1 \<Rightarrow> Some (Some (p, length (AllocateHeader t len)), c\<lparr>ws_WriteBuff := q1\<rparr>)))"

definition Deallocate :: "wsc \<Rightarrow> wsc" where
  "Deallocate c = c\<lparr>ws_WriteBuff := Commit 0 (ws_WriteBuff c)\<rparr>"

definition Send :: "wsc \<Rightarrow> wsc" where
  "Send c = ws_call PostWrite (c\<lparr>ws_WriteBuff := Commit_all (ws_WriteBuff c)\<rparr>)"

definition SendControlFrame :: "(nat \<Rightarrow> byte) \<Rightarrow> nat \<Rightarrow> wsc \<Rightarrow> (bool \<times> wsc) option" where
  "SendControlFrame junk op c =
     (case Allocate junk 2 (ws_WriteBuff c) of
        (None, q) \<Rightarrow> Some (False, c\<lparr>ws_WriteBuff := q\<rparr>)
      | (Some p, q) \<Rightarrow>
          (case poke p 0 [FLAG_FIN OR of_nat op, 0] q of
             None \<Rightarrow> None
           | Some q1 \<Rightarrow> Some (True, c\<lparr>ws_WriteBuff := Commit 2 q1\<rparr>)))"

text \<open>The reason is stored at \<open>(unsigned short *)Buff + 2\<close>, that is four bytes from \<open>Buff\<close>.\<close>

definition SendCloseInternal :: "(nat \<Rightarrow> byte) \<Rightarrow> nat \<Rightarrow> wsc \<Rightarrow> (bool \<times> wsc) option" where
  "SendCloseInternal junk reason c =
     (case Allocate junk 4 (ws_WriteBuff c) of
        (None, q) \<Rightarrow> Some (False, c\<lparr>ws_WriteBuff := q\<rparr>)
      | (Some p, q) \<Rightarrow>
          (case poke p 0 [FLAG_FIN OR of_nat OCN_CLOSE, 2] q of
             None \<Rightarrow> None
           | Some q1 \<Rightarrow>
               (case poke p (2 * 2) (be_bytes 2 reason) q1 of
                  None \<Rightarrow> None
                | Some q2 \<Rightarrow> Some (True, c\<lparr>ws_WriteBuff := Commit 4 q2\<rparr>))))"

definition SendPing :: "(nat \<Rightarrow> byte) \<Rightarrow> wsc \<Rightarrow> wsc option" where
  "SendPing junk c = map_option (\<lambda>(_, c1). ws_call PostWrite c1) (SendControlFrame junk OCN_PING c)"

definition WSClose :: "(nat \<Rightarrow> byte) \<Rightarrow> nat \<Rightarrow> wsc \<Rightarrow> wsc option" where
  "WSClose junk reason c = map_option (\<lambda>(_, c1). ws_call PostClose c1) (SendCloseInternal junk reason c)"

definition StartAsyncWriteExternal :: "wsc \<Rightarrow> wsc" where
  "StartAsyncWriteExternal c = StartAsyncWrite c"

definition StartAsyncWriteCloseExternal :: "wsc \<Rightarrow> wsc" where
  "StartAsyncWriteCloseExternal c = StartAsyncWrite (c\<lparr>ws_MyHandler := False\<rparr>)"

definition OnProtocolError :: "(nat \<Rightarrow> byte) \<Rightarrow> CLOSEREASON \<Rightarrow> wsc \<Rightarrow> wsc option" where
  "OnProtocolError junk reason c =
     (if ws_MyHandler c
      then (case SendCloseInternal junk (cr_code reason) (ws_call (CallClose (cr_code reason)) c) of
              None \<Rightarrow> None
            | Some (sent, c1) \<Rightarrow>
                Some ((if sent then StartAsyncWrite c1 else c1)\<lparr>ws_MyHandler := False\<rparr>))
      else Some c)"

section \<open>Frames\<close>

text \<open>A payload is its length as the code has computed it and, when it lies within the received
  bytes, its bytes.\<close>

definition ProcessControlFrame ::
  "(nat \<Rightarrow> byte) \<Rightarrow> nat \<Rightarrow> byte list option \<Rightarrow> nat \<Rightarrow> wsc \<Rightarrow> (CLOSEREASON \<times> wsc) option" where
  "ProcessControlFrame junk op payload len c =
     (if op = OCN_PONG then Some (CR_NONE, c)
      else if op = OCN_PING
      then (case SendControlFrame junk OCN_PONG c of
              None \<Rightarrow> None
            | Some (sent, c1) \<Rightarrow> Some (CR_NONE, if sent then StartAsyncWrite c1 else c1))
      else if op = OCN_CLOSE
      then (if ws_MyHandler c
            then (case (if len \<ge> 2 then map_option (\<lambda>p. be_nat (take 2 p)) payload else Some 0) of
                    None \<Rightarrow> None
                  | Some reasonCode \<Rightarrow>
                      (case SendCloseInternal junk reasonCode (ws_call (CallClose reasonCode) c) of
                         None \<Rightarrow> None
                       | Some (sent, c1) \<Rightarrow>
                           Some (CR_NONE, (if sent then StartAsyncWrite c1 else c1)\<lparr>ws_MyHandler := False\<rparr>)))
            else Some (CR_NONE, c))
      else Some (CR_PROT_ERROR, c))"

definition OnMessage :: "nat \<Rightarrow> byte list option \<Rightarrow> wsc \<Rightarrow> wsc option" where
  "OnMessage op msg c =
     (case msg of
        None \<Rightarrow> None
      | Some m \<Rightarrow> if ws_MyHandler c then Some (ws_call (CallMessage (GetMessageType op) m) c) else None)"

text \<open>The part of \<open>ProcessFrame\<close> after unmasking.\<close>

definition DispatchFrame ::
  "(nat \<Rightarrow> byte) \<Rightarrow> bool \<Rightarrow> nat \<Rightarrow> byte list option \<Rightarrow> nat \<Rightarrow> wsc \<Rightarrow> (CLOSEREASON \<times> wsc) option" where
  "DispatchFrame junk isFin op payload len c =
     (if isFin
      then if op < OCN_CONTROL_BEGIN
           then if ws_FragOpCode c \<noteq> OCN_CONTINUATION \<and> op = OCN_CONTINUATION
                then if length (ws_FragMsgData c) + len > MaxFragmentedSize then Some (CR_SIZE_LIMIT, c)
                     else (case OnMessage (ws_FragOpCode c) (map_option (\<lambda>p. ws_FragMsgData c @ p) payload) c of
                             None \<Rightarrow> None
                           | Some c1 \<Rightarrow> Some (CR_NONE, c1\<lparr>ws_FragMsgData := [], ws_FragOpCode := OCN_CONTINUATION\<rparr>))
                else if ws_FragOpCode c = OCN_CONTINUATION \<and> op \<noteq> OCN_CONTINUATION
                then map_option (\<lambda>c1. (CR_NONE, c1)) (OnMessage op payload c)
                else Some (CR_PROT_ERROR, c)
           else ProcessControlFrame junk op payload len c
      else if op < OCN_CONTROL_BEGIN
      then if ws_FragOpCode c \<noteq> OCN_CONTINUATION \<and> op = OCN_CONTINUATION
           then if length (ws_FragMsgData c) + len > MaxFragmentedSize then Some (CR_SIZE_LIMIT, c)
                else map_option (\<lambda>p. (CR_NONE, c\<lparr>ws_FragMsgData := ws_FragMsgData c @ p\<rparr>)) payload
           else if ws_FragOpCode c = OCN_CONTINUATION \<and> op \<noteq> OCN_CONTINUATION
           then map_option (\<lambda>p. (CR_NONE, c\<lparr>ws_FragMsgData := p, ws_FragOpCode := op\<rparr>)) payload
           else Some (CR_PROT_ERROR, c)
      else Some (CR_PROT_ERROR, c))"

text \<open>\<open>ProcessFrame\<close> on the bytes available from \<open>Buff\<close> on and the length of the frame; the
  unmasked payload is stored back into the read buffer, at \<open>PayloadPos\<close>.\<close>

definition ProcessFrame :: "(nat \<Rightarrow> byte) \<Rightarrow> byte list \<Rightarrow> nat \<Rightarrow> wsc \<Rightarrow> (CLOSEREASON \<times> wsc) option" where
  "ProcessFrame junk buff len c =
     (let isFin = (buff ! 0 AND FLAG_FIN \<noteq> 0); isMask = (buff ! 1 AND FLAG_MASK \<noteq> 0);
          op = unat (buff ! 0 AND OCN_MASK);
          payloadPos = payload_offset buff;
          plen = u32_sub len payloadPos;
          payload = (if payloadPos + plen \<le> length buff then Some (seg buff payloadPos plen) else None)
      in if isMask
         then (case payload of
                 None \<Rightarrow> None
               | Some p \<Rightarrow>
                   let p' = Unmask (le32 (seg buff (payloadPos - 4) 4)) p; b = ws_ReadBuff c
                   in DispatchFrame junk isFin op (Some p') plen
                        (c\<lparr>ws_ReadBuff := b\<lparr>rb_buf := mem_write (rb_buf b) (rb_ReadPos b + payloadPos) p'\<rparr>\<rparr>))
         else if \<not> AllowMaskedOnly then Some (CR_PROT_ERROR, c)
         else DispatchFrame junk isFin op payload plen c)"

text \<open>\<open>ProcessIncoming\<close>: the body of its loop, which every path leaves by a return.\<close>

definition ProcessIncoming :: "(nat \<Rightarrow> byte) \<Rightarrow> wsc \<Rightarrow> (CLOSEREASON \<times> wsc) option" where
  "ProcessIncoming junk c =
     (let data = GetAvailableData (ws_ReadBuff c)
      in case (if ws_CurrFrameLength c = UnknownFrameLength then frame_length data
               else Inr (ws_CurrFrameLength c)) of
           Inl n \<Rightarrow> Some (CR_NONE, c\<lparr>ws_ReadBuff := snd (RequestData junk n (ws_ReadBuff c))\<rparr>)
         | Inr fl \<Rightarrow>
             let c1 = c\<lparr>ws_CurrFrameLength := fl\<rparr>
             in if fl > MaxFrameSize then Some (CR_SIZE_LIMIT, c1)
                else if length data < fl
                then Some (CR_NONE, c1\<lparr>ws_ReadBuff := snd (RequestData junk (u32_of fl) (ws_ReadBuff c1))\<rparr>)
                else (case ProcessFrame junk data (u32_of fl) c1 of
                        None \<Rightarrow> None
                      | Some (r, c2) \<Rightarrow>
                          Some (r, c2\<lparr>ws_ReadBuff := srb_consume (u32_of fl) False (ws_ReadBuff c2),
                                      ws_CurrFrameLength := UnknownFrameLength\<rparr>)))"

section \<open>Completions and timer\<close>

text \<open>A read completion with the bytes the socket has put into the buffer, or an error.\<close>

fun OnRead :: "(nat \<Rightarrow> byte) \<Rightarrow> byte list option \<Rightarrow> wsc \<Rightarrow> wsc option" where
  "OnRead junk (Some xs) c =
     (case ProcessIncoming junk (c\<lparr>ws_ReadBuff := srb_feed xs (ws_ReadBuff c), ws_SilentTime := 0\<rparr>) of
        None \<Rightarrow> None
      | Some (reason, c1) \<Rightarrow>
          if reason = CR_NONE then Some (StartAsyncRead c1)
          else map_option (SetSafeState SAFE_READ) (OnProtocolError junk reason c1))"
| "OnRead junk None c = Some (close_handler (cr_code CR_CONN_ERROR) (SetSafeState SAFE_READ c))"

definition OnWrite :: "bool \<Rightarrow> wsc \<Rightarrow> wsc" where
  "OnWrite error c =
     (let c1 = SetSafeState SAFE_WRITE c
      in if \<not> error then StartAsyncWrite (c1\<lparr>ws_WriteBuff := Release (ws_WriteBuff c1)\<rparr>)
         else close_handler (cr_code CR_CONN_ERROR) c1)"

text \<open>\<open>OnStep\<close> returns whether the connection is kept.\<close>

definition OnStep :: "nat \<Rightarrow> wsc \<Rightarrow> bool \<times> wsc" where
  "OnStep stepInterval c =
     (let c1 = c\<lparr>ws_SilentTime := u32_add (ws_SilentTime c) stepInterval\<rparr>
      in if ws_SilentTime c1 > MaxSilentTime
         then let c2 = ws_call SockClose (close_handler (cr_code CR_CONN_ERROR) c1)
              in (ws_SafeStates c2 \<noteq> SAFE_ALL, c2)
         else if ws_MyHandler c1 then (True, ws_call (CallStep stepInterval) c1)
         else (ws_SafeStates c1 \<noteq> SAFE_ALL, c1))"

definition Stop :: "(nat \<Rightarrow> byte) \<Rightarrow> wsc \<Rightarrow> wsc option" where
  "Stop junk c =
     map_option (\<lambda>c1. close_handler (cr_code CR_CONN_ERROR) (ws_call SockClose c1))
       (OnProtocolError junk CR_EXIT c)"

definition ws_init :: "(nat \<Rightarrow> byte) \<Rightarrow> wsc" where
  "ws_init junk =
     StartAsyncRead (ClearSafeState SAFE_READ
       \<lparr>ws_SafeStates = SAFE_ALL, ws_SilentTime = 0, ws_CurrFrameLength = UnknownFrameLength,
        ws_ReadBuff = srb_init junk ReadBuffSize, ws_WriteBuff = wq_init junk WriteBuffSize,
        ws_FragOpCode = OCN_CONTINUATION, ws_FragMsgData = [], ws_MyHandler = True, ws_Calls = []\<rparr>)"

end
