(* ===== verification/WSDelivery.thy ===== *)
theory WSDelivery
  imports WSConnection
begin

text \<open>
  Reading of the WebSocket connection: handling a frame is independent of the read side, a
  frame may arrive in any number of reads, and a message in any number of frames.
\<close>

declare OnRead.simps [simp del]

section \<open>What does not depend on the read side\<close>

text \<open>The state without the read buffer, the length of the frame being read, the timer and the
  read requests. Handling a frame neither reads nor changes these.\<close>

definition not_read :: "ws_call \<Rightarrow> bool" where
  "not_read e \<longleftrightarrow> (case e of AsyncRead _ _ \<Rightarrow> False | _ \<Rightarrow> True)"

definition ws_rest :: "wsc \<Rightarrow> wsc" where
  "ws_rest c = c\<lparr>ws_SilentTime := 0, ws_CurrFrameLength := 0, ws_ReadBuff := srb_init (\<lambda>_. 0) 0,
     ws_Calls := filter not_read (ws_Calls c)\<rparr>"

lemma ws_rest_simps [simp]:
  "ws_rest (c\<lparr>ws_ReadBuff := b\<rparr>) = ws_rest c" "ws_rest (c\<lparr>ws_CurrFrameLength := n\<rparr>) = ws_rest c"
  "ws_rest (c\<lparr>ws_SilentTime := n\<rparr>) = ws_rest c"
  "ws_WriteBuff (ws_rest c) = ws_WriteBuff c" "ws_MyHandler (ws_rest c) = ws_MyHandler c"
  "ws_FragOpCode (ws_rest c) = ws_FragOpCode c" "ws_FragMsgData (ws_rest c) = ws_FragMsgData c"
  "ws_SafeStates (ws_rest c) = ws_SafeStates c"
  "ws_rest (ws_rest c) = ws_rest c"
  "ws_Calls (ws_rest c) = filter not_read (ws_Calls c)"
  by (simp_all add: ws_rest_def)

lemma ws_rest_updates:
  "(ws_rest c)\<lparr>ws_WriteBuff := q\<rparr> = ws_rest (c\<lparr>ws_WriteBuff := q\<rparr>)"
  "(ws_rest c)\<lparr>ws_MyHandler := h\<rparr> = ws_rest (c\<lparr>ws_MyHandler := h\<rparr>)"
  "(ws_rest c)\<lparr>ws_FragMsgData := m\<rparr> = ws_rest (c\<lparr>ws_FragMsgData := m\<rparr>)"
  "(ws_rest c)\<lparr>ws_FragOpCode := op\<rparr> = ws_rest (c\<lparr>ws_FragOpCode := op\<rparr>)"
  "ClearSafeState s (ws_rest c) = ws_rest (ClearSafeState s c)"
  "SetSafeState s (ws_rest c) = ws_rest (SetSafeState s c)"
  "not_read e \<Longrightarrow> ws_call e (ws_rest c) = ws_rest (ws_call e c)"
  "IsSafeState s (ws_rest c) = IsSafeState s c"
  by (simp_all add: ws_rest_def ClearSafeState_def SetSafeState_def ws_call_def IsSafeState_def)

lemma not_read_simps [simp]: "not_read (AsyncWrite p n)" "not_read (CallClose k)"
  "not_read (CallMessage t m)" "\<not> not_read (AsyncRead a b)"
  by (simp_all add: not_read_def)

lemma write_loop_rest: "write_loop (ws_rest c) = ws_rest (write_loop c)"
proof (induction c rule: write_loop.induct)
  case (1 c)
  show ?case
    by (subst (1 2) write_loop.simps)
      (auto simp: 1 ws_rest_updates split: option.split prod.split)
qed

lemma StartAsyncWrite_rest: "StartAsyncWrite (ws_rest c) = ws_rest (StartAsyncWrite c)"
  by (simp add: StartAsyncWrite_def write_loop_rest ws_rest_updates)

lemma SendControlFrame_rest:
  "SendControlFrame junk op (ws_rest c) = map_option (\<lambda>(s, c1). (s, ws_rest c1)) (SendControlFrame junk op c)"
  by (simp add: SendControlFrame_def ws_rest_updates split: option.split prod.split)

lemma SendCloseInternal_rest:
  "SendCloseInternal junk r (ws_rest c) = map_option (\<lambda>(s, c1). (s, ws_rest c1)) (SendCloseInternal junk r c)"
  by (simp add: SendCloseInternal_def ws_rest_updates split: option.split prod.split)

lemma ProcessControlFrame_rest:
  "ProcessControlFrame junk op p n (ws_rest c) =
    map_option (\<lambda>(s, c1). (s, ws_rest c1)) (ProcessControlFrame junk op p n c)"
  by (simp add: ProcessControlFrame_def SendControlFrame_rest SendCloseInternal_rest
      ws_rest_updates StartAsyncWrite_rest split: option.split prod.split)

lemma OnMessage_rest: "OnMessage op m (ws_rest c) = map_option ws_rest (OnMessage op m c)"
  by (simp add: OnMessage_def ws_rest_updates split: option.split)

lemma DispatchFrame_rest:
  "DispatchFrame junk fin op p n (ws_rest c) = map_option (\<lambda>(s, c1). (s, ws_rest c1)) (DispatchFrame junk fin op p n c)"
  by (simp add: DispatchFrame_def ProcessControlFrame_rest OnMessage_rest ws_rest_updates
      option.map_comp comp_def split: option.split)

lemma write_loop_read [simp]: "ws_ReadBuff (write_loop c) = ws_ReadBuff c"
proof (induction c rule: write_loop.induct)
  case (1 c)
  then show ?case
    by (subst write_loop.simps) (auto simp: ws_call_def ClearSafeState_def split: option.split prod.split)
qed

lemma StartAsyncWrite_read [simp]: "ws_ReadBuff (StartAsyncWrite c) = ws_ReadBuff c"
  by (simp add: StartAsyncWrite_def)

lemma DispatchFrame_read:
  "DispatchFrame junk fin op p n c = Some (r, c1) \<Longrightarrow> ws_ReadBuff c1 = ws_ReadBuff c"
  by (auto simp: DispatchFrame_def ProcessControlFrame_def OnMessage_def SendControlFrame_def
      SendCloseInternal_def ws_call_def split: if_splits option.splits prod.splits)

section \<open>Patching bytes that are about to be consumed\<close>

lemma srb_patch:
  assumes "srb_inv b" "k + length xs \<le> length (GetAvailableData b)"
  defines "b' \<equiv> b\<lparr>rb_buf := mem_write (rb_buf b) (rb_ReadPos b + k) xs\<rparr>"
  shows "srb_inv b'" "k + length xs \<le> n \<Longrightarrow> drop n (GetAvailableData b') = drop n (GetAvailableData b)"
    "rb_ReqDataEndPos b' = rb_ReqDataEndPos b"
proof -
  note D = srb_invD [OF assms(1)]
  have fits: "rb_ReadPos b + k + length xs \<le> rb_DataEndPos b"
    using assms(2) D by (simp add: length_GetAvailableData [OF assms(1)] GetAvailableDataLength_eq [OF assms(1)])
  then have len: "length (mem_write (rb_buf b) (rb_ReadPos b + k) xs) = length (rb_buf b)"
    using D(3) by (simp add: mem_simps)
  show i: "srb_inv b'"
    using assms(1) len by (simp add: srb_inv_def b'_def)
  show "drop n (GetAvailableData b') = drop n (GetAvailableData b)" if "k + length xs \<le> n"
    using that fits D(3) unfolding GetAvailableData_eq [OF i] GetAvailableData_eq [OF assms(1)] drop_seg
    by (simp add: b'_def mem_simps)
  show "rb_ReqDataEndPos b' = rb_ReqDataEndPos b"
    by (simp add: b'_def)
qed

section \<open>Reading a frame\<close>

lemma frame_length_mono: "frame_length d = Inr n \<Longrightarrow> frame_length (d @ xs) = Inr n"
  by (auto simp: frame_length_def Let_def nth_append seg_def split: if_splits)

text \<open>The state between two reads: the length of the current frame is the one its received
  bytes give, if it is known.\<close>

definition ws_sync :: "wsc \<Rightarrow> bool" where
  "ws_sync c \<longleftrightarrow> srb_inv (ws_ReadBuff c) \<and>
     (ws_CurrFrameLength c = UnknownFrameLength
      \<or> frame_length (GetAvailableData (ws_ReadBuff c)) = Inr (ws_CurrFrameLength c))"

text \<open>A read the socket can answer with: it fits the buffer, and the next request fits 32 bits.\<close>

definition ws_can_read :: "byte list \<Rightarrow> wsc \<Rightarrow> bool" where
  "ws_can_read xs c \<longleftrightarrow> length xs \<le> srb_room (ws_ReadBuff c)
     \<and> srb_may_request MaxFrameSize (srb_feed xs (ws_ReadBuff c))"

lemma StartAsyncRead_rest: "ws_rest (StartAsyncRead c) = ws_rest c"
  "ws_ReadBuff (StartAsyncRead c) = ws_ReadBuff c"
  "ws_CurrFrameLength (StartAsyncRead c) = ws_CurrFrameLength c"
  by (simp_all add: StartAsyncRead_def ws_call_def ws_rest_def case_prod_beta)

lemma may_request_mono: "srb_may_request n b \<Longrightarrow> m \<le> n \<Longrightarrow> srb_may_request m b"
  by (simp add: srb_may_request_def)

lemma frame_length_needs: "frame_length d = Inl n \<Longrightarrow> n \<le> 10"
  by (auto simp: frame_length_def Let_def split: if_splits)

lemma read_length:
  assumes "ws_sync c" "d = GetAvailableData (ws_ReadBuff c) @ xs"
  shows "(if ws_CurrFrameLength c = UnknownFrameLength then frame_length d
    else Inr (ws_CurrFrameLength c)) = frame_length d"
  using assms frame_length_mono by (auto simp: ws_sync_def)

lemma OnRead_partial:
  assumes "ws_sync c" "ws_can_read xs c"
  defines "d \<equiv> GetAvailableData (ws_ReadBuff c) @ xs"
  assumes "case frame_length d of Inl n \<Rightarrow> True | Inr n \<Rightarrow> n \<le> MaxFrameSize \<and> length d < n"
  shows "\<exists>c'. OnRead junk (Some xs) c = Some c' \<and> ws_sync c' \<and> GetAvailableData (ws_ReadBuff c') = d
    \<and> ws_rest c' = ws_rest c"
proof -
  let ?b = "srb_feed xs (ws_ReadBuff c)"
  have b: "srb_inv ?b" "GetAvailableData ?b = d" "srb_may_request MaxFrameSize ?b"
    using assms(1,2) by (simp_all add: ws_sync_def ws_can_read_def d_def srb_feed_inv srb_feed_ready)
  have req: "srb_inv (snd (RequestData junk n ?b))" "GetAvailableData (snd (RequestData junk n ?b)) = d"
    if "n \<le> MaxFrameSize" for n
    using RequestData_sound [OF b(1) may_request_mono [OF b(3) that], of junk] b(2) by simp_all
  note rl = read_length [OF assms(1) d_def [THEN meta_eq_to_obj_eq]]
  show ?thesis
  proof (cases "frame_length d")
    case (Inl n)
    then have n: "n \<le> MaxFrameSize"
      using frame_length_needs [OF Inl] by (simp add: MaxFrameSize_def)
    have "ws_CurrFrameLength c = UnknownFrameLength"
      using rl Inl by (simp split: if_splits)
    with Inl n show ?thesis
      by (simp add: OnRead.simps ProcessIncoming_def b(2) req StartAsyncRead_rest ws_sync_def)
  next
    case (Inr n)
    then have n: "n \<le> MaxFrameSize" "length d < n" "u32_of n = n"
      using assms(4) by (simp_all add: MaxFrameSize_def u32_simps)
    then show ?thesis
      using rl Inr by (cases "ws_CurrFrameLength c = UnknownFrameLength")
        (simp_all add: OnRead.simps ProcessIncoming_def Let_def b(2) req StartAsyncRead_rest ws_sync_def)
  qed
qed

text \<open>The read that completes a masked frame hands its unmasked payload to \<open>DispatchFrame\<close> and
  consumes the frame.\<close>

lemma OnRead_frame:
  assumes "ws_sync c" "ws_can_read xs c"
  defines "d \<equiv> GetAvailableData (ws_ReadBuff c) @ xs"
  assumes n: "frame_length d = Inr n" "n \<le> MaxFrameSize" "n \<le> length d"
    and po: "d ! 1 AND FLAG_MASK \<noteq> 0" "payload_offset d + k = n"
    and disp: "DispatchFrame junk (d ! 0 AND FLAG_FIN \<noteq> 0) (unat (d ! 0 AND OCN_MASK))
      (Some (Unmask (le32 (seg d (payload_offset d - 4) 4)) (seg d (payload_offset d) k))) k (ws_rest c)
        = Some (CR_NONE, c1)"
  shows "\<exists>c'. OnRead junk (Some xs) c = Some c' \<and> ws_sync c' \<and> ws_CurrFrameLength c' = UnknownFrameLength
    \<and> GetAvailableData (ws_ReadBuff c') = drop n d \<and> ws_rest c' = ws_rest c1"
proof -
  let ?b = "srb_feed xs (ws_ReadBuff c)" and ?po = "payload_offset d"
  let ?p = "Unmask (le32 (seg d (?po - 4) 4)) (seg d ?po k)"
  let ?b' = "?b\<lparr>rb_buf := mem_write (rb_buf ?b) (rb_ReadPos ?b + ?po) ?p\<rparr>"
  have b: "srb_inv ?b" "GetAvailableData ?b = d"
    using assms(1,2) by (simp_all add: ws_sync_def ws_can_read_def d_def srb_feed_inv srb_feed_ready)
  have u: "u32_of n = n" "u32_sub n ?po = k" "?po + k \<le> length d"
    using n po(2) by (simp_all add: MaxFrameSize_def u32_simps)
  have lp: "length ?p = k"
    using u(3) by (simp add: Unmask_octets)
  have b': "srb_inv ?b'" "drop n (GetAvailableData ?b') = drop n d"
    using srb_patch(1) [of ?b ?po ?p] srb_patch(2) [of ?b ?po ?p n] b u(3) lp po(2) by simp_all
  define c0 where "c0 = c\<lparr>ws_ReadBuff := ?b', ws_SilentTime := 0, ws_CurrFrameLength := n\<rparr>"
  have rest0: "ws_rest c0 = ws_rest c"
    by (simp add: c0_def)
  obtain c2 where c2: "DispatchFrame junk (d ! 0 AND FLAG_FIN \<noteq> 0) (unat (d ! 0 AND OCN_MASK)) (Some ?p) k c0
      = Some (CR_NONE, c2)" "ws_rest c2 = c1"
    using disp DispatchFrame_rest [of junk _ _ _ _ c0] unfolding rest0 by auto
  have read2: "ws_ReadBuff c2 = ?b'"
    using DispatchFrame_read [OF c2(1)] by (simp add: c0_def)
  define c3 where "c3 = c2\<lparr>ws_ReadBuff := srb_consume n False ?b', ws_CurrFrameLength := UnknownFrameLength\<rparr>"
  have upd: "(c\<lparr>ws_ReadBuff := ?b, ws_SilentTime := 0, ws_CurrFrameLength := n\<rparr>)\<lparr>ws_ReadBuff := ?b'\<rparr> = c0"
    by (simp add: c0_def)
  have pf: "ProcessFrame junk d n (c\<lparr>ws_ReadBuff := ?b, ws_SilentTime := 0, ws_CurrFrameLength := n\<rparr>)
      = Some (CR_NONE, c2)"
    using po(1) u c2(1) upd by (simp add: ProcessFrame_def Let_def)
  note rl = read_length [OF assms(1) d_def [THEN meta_eq_to_obj_eq]]
  have "ProcessIncoming junk (c\<lparr>ws_ReadBuff := ?b, ws_SilentTime := 0\<rparr>) = Some (CR_NONE, c3)"
    using rl n u(1) pf read2 by (cases "ws_CurrFrameLength c = UnknownFrameLength")
      (simp_all add: ProcessIncoming_def Let_def b(2) c3_def)
  then have "OnRead junk (Some xs) c = Some (StartAsyncRead c3)"
    by (simp add: OnRead.simps)
  moreover have "srb_inv (ws_ReadBuff c3)" "GetAvailableData (ws_ReadBuff c3) = drop n d"
    using b' by (simp_all add: c3_def Consume_inv Consume_ready)
  moreover have "ws_rest c3 = ws_rest c1"
    using c2(2) [symmetric] by (simp add: c3_def)
  ultimately show ?thesis
    by (simp add: ws_sync_def StartAsyncRead_rest c3_def)
qed


section \<open>Sequences of reads\<close>

fun ws_reads :: "(nat \<Rightarrow> byte) \<Rightarrow> byte list list \<Rightarrow> wsc \<Rightarrow> wsc option" where
  "ws_reads junk [] c = Some c"
| "ws_reads junk (x # xs) c = Option.bind (OnRead junk (Some x) c) (ws_reads junk xs)"

fun ws_legal :: "(nat \<Rightarrow> byte) \<Rightarrow> byte list list \<Rightarrow> wsc \<Rightarrow> bool" where
  "ws_legal junk [] c \<longleftrightarrow> True"
| "ws_legal junk (x # xs) c \<longleftrightarrow> x \<noteq> [] \<and> ws_can_read x c
     \<and> (case OnRead junk (Some x) c of None \<Rightarrow> True | Some c' \<Rightarrow> ws_legal junk xs c')"

text \<open>A read with which a client frame is complete: the frame is dispatched, and what came behind it stays.\<close>

lemma read_completes:
  fixes fin :: bool and op :: nat
  assumes "length p < 65536" "length key = 4" "op < 16"
  defines "f \<equiv> client_frame fin op key p"
  assumes "ws_sync c" "ws_can_read x c" "GetAvailableData (ws_ReadBuff c) @ x = f @ t"
    and "DispatchFrame junk fin op (Some p) (length p) (ws_rest c) = Some (CR_NONE, c1)"
  shows "\<exists>c'. OnRead junk (Some x) c = Some c' \<and> ws_sync c' \<and> GetAvailableData (ws_ReadBuff c') = t
    \<and> ws_rest c' = ws_rest c1"
proof -
  note F = client_frame_parts [OF assms(1,2), of fin op, folded f_def]
  have max: "length f \<le> MaxFrameSize"
    using F(8) assms(1) by (simp add: MaxFrameSize_def)
  have two: "2 \<le> length f" "payload_offset f - 4 + 4 \<le> length f" "payload_offset f + length p \<le> length f"
    using F(2,7) by linarith+
  have at: "(f @ t) ! 0 = f ! 0" "(f @ t) ! 1 = f ! 1" "payload_offset (f @ t) = payload_offset f"
    using two(1) by (auto simp: nth_append payload_offset_def Let_def)
  have sg: "seg (f @ t) a n = seg f a n" if "a + n \<le> length f" for a n
    using that by (simp add: seg_def)
  have un: "Unmask (le32 (seg (f @ t) (payload_offset f - 4) 4)) (seg (f @ t) (payload_offset f) (length p)) = p"
    using assms(2) by (simp add: sg two F(3,4) Unmask_octets le32_bytes_le32 mask_octets_twice)
  have fl: "frame_length (f @ t) = Inr (length f)"
    by (rule frame_length_mono [OF F(1)])
  have disp: "DispatchFrame junk ((f @ t) ! 0 AND FLAG_FIN \<noteq> 0) (unat ((f @ t) ! 0 AND OCN_MASK))
      (Some (Unmask (le32 (seg (f @ t) (payload_offset (f @ t) - 4) 4)) (seg (f @ t) (payload_offset (f @ t)) (length p))))
      (length p) (ws_rest c) = Some (CR_NONE, c1)"
    unfolding at un using assms(8) by (simp add: F(5) first_byte_facts [OF assms(3)])
  have "length f \<le> length (f @ t)" "(f @ t) ! 1 AND FLAG_MASK \<noteq> 0" "payload_offset (f @ t) + length p = length f"
    using F(2,6) at by simp_all
  from OnRead_frame [OF assms(5,6), unfolded assms(7), OF fl max this disp] show ?thesis
    by auto
qed

text \<open>A read that ends inside a client frame.\<close>

lemma read_continues:
  fixes fin :: bool and op :: nat
  assumes "length p < 65536" "length key = 4"
  defines "f \<equiv> client_frame fin op key p"
  assumes "ws_sync c" "ws_can_read x c" "x \<noteq> []" "d = GetAvailableData (ws_ReadBuff c) @ x" "f = d @ z" "z \<noteq> []"
  shows "\<exists>c'. OnRead junk (Some x) c = Some c' \<and> ws_sync c' \<and> GetAvailableData (ws_ReadBuff c') = d
    \<and> ws_rest c' = ws_rest c"
proof -
  note F = client_frame_parts [OF assms(1,2), of fin op, folded f_def]
  have max: "length f \<le> MaxFrameSize"
    using F(8) assms(1) by (simp add: MaxFrameSize_def)
  let ?k = "length d - 1"
  have k: "Suc ?k = length d" "length d < length f"
  proof -
    show "Suc ?k = length d" using assms(6) by (cases x) (simp_all add: assms(7))
    show "length d < length f" using arg_cong [OF assms(8), of length] assms(9) by simp
  qed
  have "take (length d) f = d"
    using assms(8) by simp
  then have dk: "d = take (Suc ?k) (first_byte fin op # length_field FLAG_MASK (length p) @ (key @ mask_octets key p))"
    unfolding k(1) by (simp add: f_def client_frame_form)
  have fl: "length f = 1 + length (length_field FLAG_MASK (length p)) + length p + 4"
    using assms(2) by (simp add: f_def client_frame_def)
  then have "?k \<le> length (length_field FLAG_MASK (length p)) + length (key @ mask_octets key p)"
    using k assms(2) by simp
  note P = frame_length_prefix [OF disjI1 [OF refl] assms(1) this, of "first_byte fin op", folded dk]
  have "case frame_length d of Inl n \<Rightarrow> True | Inr n \<Rightarrow> n \<le> MaxFrameSize \<and> length d < n"
    using P max k(2) unfolding fl by (elim disjE exE conjE) simp_all
  then show ?thesis
    using OnRead_partial [OF assms(4,5)] unfolding assms(7) by blast
qed

text \<open>A run of frames, dispatched one by one; it stops at the first that is refused.\<close>

fun dispatches :: "(nat \<Rightarrow> byte) \<Rightarrow> (bool \<times> nat \<times> byte list) list \<Rightarrow> wsc \<Rightarrow> wsc option" where
  "dispatches junk [] c = Some c"
| "dispatches junk ((fin, op, p) # fs) c =
     (case DispatchFrame junk fin op (Some p) (length p) c of
        Some (CR_NONE, c1) \<Rightarrow> dispatches junk fs c1
      | _ \<Rightarrow> None)"

lemma dispatches_Cons:
  "dispatches junk ((fin, op, p) # fs) c = Some c' \<longleftrightarrow>
    (\<exists>c1. DispatchFrame junk fin op (Some p) (length p) c = Some (CR_NONE, c1) \<and> dispatches junk fs c1 = Some c')"
  by (auto split: option.splits CLOSEREASON.splits)

declare dispatches.simps(2) [simp del]

lemma dispatches_rest: "dispatches junk fs (ws_rest c) = map_option ws_rest (dispatches junk fs c)"
  by (induction fs arbitrary: c) (auto simp: dispatches.simps DispatchFrame_rest
      split: option.splits CLOSEREASON.splits)

text \<open>What the client sends for a frame: the frame with some key.\<close>

definition frame_ok :: "bool \<times> nat \<times> byte list \<Rightarrow> byte list \<Rightarrow> bool" where
  "frame_ok f key \<longleftrightarrow> length (snd (snd f)) < 65536 \<and> fst (snd f) < 16 \<and> length key = 4"

definition frame_bytes :: "bool \<times> nat \<times> byte list \<Rightarrow> byte list \<Rightarrow> byte list" where
  "frame_bytes f key = client_frame (fst f) (fst (snd f)) key (snd (snd f))"

text \<open>One read dispatches at most one frame: a frame whose end came together with the end of the one before waits
  for the read behind that. How many frames the reads of the lengths \<open>xs\<close> dispatch, when \<open>k\<close> bytes are there before.\<close>

fun frames_read :: "nat \<Rightarrow> nat list \<Rightarrow> nat list \<Rightarrow> nat" where
  "frames_read k [] xs = 0"
| "frames_read k (f # fs) [] = 0"
| "frames_read k (f # fs) (x # xs) =
     (if k + x < f then frames_read (k + x) (f # fs) xs else Suc (frames_read (k + x - f) fs xs))"

lemma frames_read_le: "frames_read k fs xs \<le> length fs"
  by (induction k fs xs rule: frames_read.induct) auto

text \<open>All of them when there is one, when each has reads of its own, when no read is longer than a frame.\<close>

lemma frames_read_one: "xs \<noteq> [] \<Longrightarrow> k + sum_list xs = f \<Longrightarrow> frames_read k [f] xs = 1"
proof (induction xs arbitrary: k)
  case (Cons x xs)
  then show ?case by (cases xs) auto
qed simp

lemma frames_read_own:
  assumes "k + sum_list xs = f" "0 < k + sum_list xs \<longrightarrow> xs \<noteq> []" "\<forall>x \<in> set xs. 0 < x" "0 < f"
  shows "frames_read k (f # fs) (xs @ ys) = Suc (frames_read 0 fs ys)"
  using assms
proof (induction xs arbitrary: k)
  case (Cons x xs)
  show ?case
  proof (cases xs)
    case (Cons y ys')
    then have "k + x < f"
      using Cons.prems by auto
    then show ?thesis
      using Cons.IH [of "k + x"] Cons.prems Cons by simp
  qed (use Cons.prems in simp)
qed simp

lemma frames_read_apart:
  "map concat xss = bs \<Longrightarrow> [] \<notin> set bs \<Longrightarrow> [] \<notin> set (concat xss)
    \<Longrightarrow> frames_read 0 (map length bs) (map length (concat xss)) = length bs"
proof (induction xss arbitrary: bs)
  case (Cons xs xss)
  have "frames_read 0 (length (concat xs) # map length (map concat xss)) (map length xs @ map length (concat xss))
      = Suc (frames_read 0 (map length (map concat xss)) (map length (concat xss)))"
  proof (rule frames_read_own)
    have ne: "concat xs \<noteq> []"
      using Cons.prems(1,2) by auto
    then show "0 < length (concat xs)" "0 < 0 + sum_list (map length xs) \<longrightarrow> map length xs \<noteq> []" by auto
    show "0 + sum_list (map length xs) = length (concat xs)" by (simp add: length_concat)
    show "\<forall>x \<in> set (map length xs). 0 < x" using Cons.prems(3) by auto
  qed
  then show ?case
    using Cons.IH [of "map concat xss"] Cons.prems by auto
qed simp

lemma frames_read_short:
  "k + sum_list xs = sum_list fs \<Longrightarrow> fs = [] \<or> k < hd fs \<Longrightarrow> \<forall>x \<in> set xs. \<forall>f \<in> set fs. x \<le> f
    \<Longrightarrow> frames_read k fs xs = length fs"
proof (induction k fs xs rule: frames_read.induct)
  case (3 k f fs x xs)
  show ?case
  proof (cases "k + x < f")
    case False
    then have "frames_read (k + x - f) fs xs = length fs"
      using 3 by (intro "3.IH"(2)) (cases fs; force)+
    then show ?thesis
      using False by simp
  qed (use 3 in simp)
qed auto

lemma append_longer: "a @ b = c @ e \<Longrightarrow> length a < length c \<Longrightarrow> c = a @ drop (length a) c \<and> drop (length a) c \<noteq> []"
  by (auto simp: append_eq_append_conv2)

lemma append_shorter: "a @ b = c @ e \<Longrightarrow> \<not> length a < length c \<Longrightarrow> a = c @ drop (length c) a \<and> drop (length c) a @ b = e"
  by (auto simp: append_eq_append_conv2)

text \<open>Any cutting of client frames into reads dispatches as many of them as it reads, in order, and keeps the rest.\<close>

lemma dispatches_take:
  assumes "DispatchFrame junk fin op (Some p) (length p) c = Some (CR_NONE, c2)"
  shows "dispatches junk (take (Suc n) ((fin, op, p) # fs)) c = dispatches junk (take n fs) c2"
  using assms by (simp add: dispatches.simps)

lemma reads_frames:
  assumes "list_all2 frame_ok fs keys" "GetAvailableData (ws_ReadBuff c) @ concat reads = concat (map2 frame_bytes fs keys)"
    and "ws_sync c" "[] \<notin> set reads" "ws_legal junk reads c" "dispatches junk fs (ws_rest c) = Some c1"
    and "n = frames_read (length (GetAvailableData (ws_ReadBuff c))) (map length (map2 frame_bytes fs keys)) (map length reads)"
  shows "\<exists>c' c2. ws_reads junk reads c = Some c' \<and> ws_sync c' \<and> GetAvailableData (ws_ReadBuff c') = concat (drop n (map2 frame_bytes fs keys))
    \<and> dispatches junk (take n fs) (ws_rest c) = Some c2 \<and> ws_rest c' = ws_rest c2"
  using assms
proof (induction reads arbitrary: c fs keys c1 n)
  case Nil
  then have "n = 0"
    by (cases "map length (map2 frame_bytes fs keys)") auto
  then show ?case
    using Nil by simp
next
  case (Cons x xs)
  let ?d = "GetAvailableData (ws_ReadBuff c) @ x"
  have can: "ws_can_read x c" "x \<noteq> []" "[] \<notin> set xs"
    using Cons.prems(4,5) by auto
  show ?case
  proof (cases fs)
    case Nil
    then show ?thesis
      using Cons.prems(1,2) can(2) by simp
  next
    case fs: (Cons f fs')
    obtain fin op p where f: "f = (fin, op, p)" by (cases f)
    obtain key keys' where keys: "keys = key # keys'" "frame_ok f key" "list_all2 frame_ok fs' keys'"
      using Cons.prems(1) by (auto simp: fs list_all2_Cons1)
    have ok: "length p < 65536" "length key = 4" "op < 16"
      using keys(2) by (simp_all add: frame_ok_def f)
    let ?f = "client_frame fin op key p" and ?bs = "map2 frame_bytes fs' keys'"
    have fb: "frame_bytes f key = ?f"
      by (simp add: f frame_bytes_def)
    have e: "?d @ concat xs = ?f @ concat ?bs"
      using Cons.prems(2) by (simp add: fs keys(1) fb)
    have n: "n = (if length ?d < length ?f then frames_read (length ?d) (map length (?f # ?bs)) (map length xs)
        else Suc (frames_read (length ?d - length ?f) (map length ?bs) (map length xs)))"
      using Cons.prems(7) by (simp add: fs keys(1) fb)
    show ?thesis
    proof (cases "length ?d < length ?f")
      case True
      then have z: "?f = ?d @ drop (length ?d) ?f" "drop (length ?d) ?f \<noteq> []"
        using append_longer [OF e True] by blast+
      obtain c' where c': "OnRead junk (Some x) c = Some c'" "ws_sync c'" "GetAvailableData (ws_ReadBuff c') = ?d" "ws_rest c' = ws_rest c"
        using read_continues [OF ok(1,2) Cons.prems(3) can(1,2) refl z] by blast
      have "n = frames_read (length (GetAvailableData (ws_ReadBuff c'))) (map length (map2 frame_bytes fs keys)) (map length xs)"
        using True n by (simp add: c'(3) fs keys(1) fb)
      moreover have "GetAvailableData (ws_ReadBuff c') @ concat xs = concat (map2 frame_bytes fs keys)"
        using Cons.prems(2) by (simp add: c'(3))
      ultimately show ?thesis
        using Cons.IH [OF Cons.prems(1) _ c'(2) can(3)] Cons.prems(5,6) c'(1,4) by simp
    next
      case False
      let ?t = "drop (length ?f) ?d"
      have t: "?d = ?f @ ?t" "?t @ concat xs = concat ?bs"
        using append_shorter [OF e False] by blast+
      obtain c2 where c2: "DispatchFrame junk fin op (Some p) (length p) (ws_rest c) = Some (CR_NONE, c2)" "dispatches junk fs' c2 = Some c1"
        using Cons.prems(6) by (auto simp: fs f dispatches_Cons)
      obtain c' where c': "OnRead junk (Some x) c = Some c'" "ws_sync c'" "GetAvailableData (ws_ReadBuff c') = ?t" "ws_rest c' = ws_rest c2"
        using read_completes [OF ok Cons.prems(3) can(1) t(1) c2(1)] by blast
      define m where "m = frames_read (length ?d - length ?f) (map length ?bs) (map length xs)"
      have "dispatches junk fs' (ws_rest c') = Some (ws_rest c1)"
        using c2(2) dispatches_rest [of junk fs' c2] by (simp add: c'(4))
      moreover have "m = frames_read (length (GetAvailableData (ws_ReadBuff c'))) (map length ?bs) (map length xs)"
        by (simp only: m_def c'(3) length_drop)
      moreover have "GetAvailableData (ws_ReadBuff c') @ concat xs = concat ?bs" "ws_legal junk xs c'"
        using t(2) Cons.prems(5) by (simp_all add: c'(1,3))
      ultimately obtain c'' c3 where r: "ws_reads junk xs c' = Some c''" "ws_sync c''" "GetAvailableData (ws_ReadBuff c'') = concat (drop m ?bs)"
          "dispatches junk (take m fs') (ws_rest c') = Some c3" "ws_rest c'' = ws_rest c3"
        using Cons.IH [OF keys(3) _ c'(2) can(3)] by blast
      then obtain c4 where c4: "dispatches junk (take m fs') c2 = Some c4" "c3 = ws_rest c4"
        using dispatches_rest [of junk "take m fs'" c2] by (auto simp: c'(4))
      have "dispatches junk (take n fs) (ws_rest c) = Some c4"
        using dispatches_take [OF c2(1)] False c4(1) by (simp only: n m_def if_False fs f)
      moreover have "drop n (map2 frame_bytes fs keys) = drop m ?bs"
        using False n by (simp add: fs keys(1) m_def)
      ultimately show ?thesis
        using r c'(1) c4(2) by simp
    qed
  qed
qed

section \<open>Messages\<close>

text \<open>The frames of a message cut into parts: the first has the opcode, the others continue it.\<close>

fun cont_frames :: "byte list list \<Rightarrow> (bool \<times> nat \<times> byte list) list" where
  "cont_frames [] = []"
| "cont_frames [p] = [(True, OCN_CONTINUATION, p)]"
| "cont_frames (p # q # ps) = (False, OCN_CONTINUATION, p) # cont_frames (q # ps)"

fun message_frames :: "nat \<Rightarrow> byte list list \<Rightarrow> (bool \<times> nat \<times> byte list) list" where
  "message_frames op [] = []"
| "message_frames op [p] = [(True, op, p)]"
| "message_frames op (p # q # ps) = (False, op, p) # cont_frames (q # ps)"

lemma dispatch_cont:
  assumes "ps \<noteq> []" "ws_MyHandler c" "ws_FragOpCode c = op" "op \<noteq> OCN_CONTINUATION"
    "length (ws_FragMsgData c) + length (concat ps) \<le> MaxFragmentedSize"
  shows "dispatches junk (cont_frames ps) c =
    Some ((ws_call (CallMessage (GetMessageType op) (ws_FragMsgData c @ concat ps)) c)
      \<lparr>ws_FragMsgData := [], ws_FragOpCode := OCN_CONTINUATION\<rparr>)"
  using assms
proof (induction ps arbitrary: c rule: cont_frames.induct)
  case (2 p)
  then show ?case
    by (simp add: dispatches.simps DispatchFrame_def OnMessage_def ocn_defs)
next
  case (3 p q ps)
  let ?c = "c\<lparr>ws_FragMsgData := ws_FragMsgData c @ p\<rparr>"
  have "DispatchFrame junk False OCN_CONTINUATION (Some p) (length p) c = Some (CR_NONE, ?c)"
    using 3 by (simp add: DispatchFrame_def ocn_defs)
  moreover have "dispatches junk (cont_frames (q # ps)) ?c =
    Some ((ws_call (CallMessage (GetMessageType op) (ws_FragMsgData ?c @ concat (q # ps))) ?c)
      \<lparr>ws_FragMsgData := [], ws_FragOpCode := OCN_CONTINUATION\<rparr>)"
    using 3 by (intro 3) simp_all
  ultimately show ?case
    by (simp add: dispatches.simps ws_call_def)
qed simp

lemma dispatch_message:
  assumes "ps \<noteq> []" "ws_MyHandler c" "ws_FragOpCode c = OCN_CONTINUATION"
    "op = OCN_TEXT \<or> op = OCN_BINARY" "length (concat ps) \<le> MaxFragmentedSize"
  shows "\<exists>m. dispatches junk (message_frames op ps) c =
    Some (ws_call (CallMessage (GetMessageType op) (concat ps)) (c\<lparr>ws_FragMsgData := m\<rparr>))"
proof (cases "length ps = 1")
  case True
  then obtain p where "ps = [p]" by (cases ps) auto
  then show ?thesis
    using assms by (intro exI [of _ "ws_FragMsgData c"])
      (auto simp: dispatches.simps DispatchFrame_def OnMessage_def ocn_defs)
next
  case False
  then obtain p q qs where ps: "ps = p # q # qs"
    using assms(1) by (cases ps; cases "tl ps") auto
  let ?c = "c\<lparr>ws_FragMsgData := p, ws_FragOpCode := op\<rparr>"
  have "DispatchFrame junk False op (Some p) (length p) c = Some (CR_NONE, ?c)"
    using assms by (auto simp: DispatchFrame_def ocn_defs)
  moreover have "dispatches junk (cont_frames (q # qs)) ?c =
    Some ((ws_call (CallMessage (GetMessageType op) (ws_FragMsgData ?c @ concat (q # qs))) ?c)
      \<lparr>ws_FragMsgData := [], ws_FragOpCode := OCN_CONTINUATION\<rparr>)"
    using assms ps by (intro dispatch_cont) (auto simp: ocn_defs)
  ultimately show ?thesis
    using assms(3) ps by (intro exI [of _ "[]"]) (simp add: dispatches.simps ws_call_def)
qed

text \<open>The frames of a message but the last call nothing.\<close>

lemma cont_frames_open: "f \<in> set (butlast (cont_frames ps)) \<Longrightarrow> \<not> fst f \<and> fst (snd f) = OCN_CONTINUATION"
  by (induction ps rule: cont_frames.induct) (auto split: if_splits)

lemma message_frames_open:
  "f \<in> set (butlast (message_frames op ps)) \<Longrightarrow> \<not> fst f \<and> fst (snd f) \<in> {op, OCN_CONTINUATION}"
  by (induction op ps rule: message_frames.induct) (auto dest: cont_frames_open split: if_splits)

lemma dispatches_open:
  assumes "\<forall>f \<in> set fs. \<not> fst f \<and> fst (snd f) \<in> {OCN_TEXT, OCN_BINARY, OCN_CONTINUATION}" "dispatches junk fs c = Some c'"
  shows "ws_Calls c' = ws_Calls c \<and> ws_MyHandler c' = ws_MyHandler c"
  using assms
proof (induction fs arbitrary: c)
  case (Cons f fs)
  obtain fin op p where f: "f = (fin, op, p)" by (cases f)
  obtain c2 where c2: "DispatchFrame junk fin op (Some p) (length p) c = Some (CR_NONE, c2)" "dispatches junk fs c2 = Some c'"
    using Cons.prems(2) by (auto simp: f dispatches_Cons)
  have "ws_Calls c2 = ws_Calls c \<and> ws_MyHandler c2 = ws_MyHandler c"
    using c2(1) Cons.prems(1) by (auto simp: f DispatchFrame_def ocn_defs split: if_splits)
  then show ?case
    using Cons.IH [OF _ c2(2)] Cons.prems(1) by simp
qed simp

text \<open>The reads of a message change nothing but the call and the fragments: \<open>n\<close> of its frames are dispatched.\<close>

lemma message_read:
  assumes "ws_sync c" "GetAvailableData (ws_ReadBuff c) = []" "ws_MyHandler c"
    "ws_FragOpCode c = OCN_CONTINUATION" "op = OCN_TEXT \<or> op = OCN_BINARY"
    "parts \<noteq> []" "length (concat parts) \<le> MaxFragmentedSize"
    "list_all2 frame_ok (message_frames op parts) keys" "frames = map2 frame_bytes (message_frames op parts) keys"
    "concat reads = concat frames" "[] \<notin> set reads" "ws_legal junk reads c"
    "n = frames_read 0 (map length frames) (map length reads)"
  obtains c' where "ws_reads junk reads c = Some c'" "ws_sync c'" "GetAvailableData (ws_ReadBuff c') = concat (drop n frames)"
    "n < length frames \<Longrightarrow> ws_Calls (ws_rest c') = ws_Calls (ws_rest c) \<and> ws_MyHandler c'"
    "n = length frames \<Longrightarrow> \<exists>m. ws_rest c' = ws_rest (ws_call (CallMessage (GetMessageType op) (concat parts)) ((ws_rest c)\<lparr>ws_FragMsgData := m\<rparr>))"
proof -
  let ?fs = "message_frames op parts"
  obtain m where m: "dispatches junk ?fs (ws_rest c) =
    Some (ws_call (CallMessage (GetMessageType op) (concat parts)) ((ws_rest c)\<lparr>ws_FragMsgData := m\<rparr>))"
    using dispatch_message [of parts "ws_rest c" op junk] assms(3-7) by auto
  obtain c' c2 where c': "ws_reads junk reads c = Some c'" "ws_sync c'" "GetAvailableData (ws_ReadBuff c') = concat (drop n frames)"
      and c2: "dispatches junk (take n ?fs) (ws_rest c) = Some c2" "ws_rest c' = ws_rest c2"
    using reads_frames [OF assms(8) _ assms(1,11,12) m, of n] assms(2,9,10,13) by auto
  have len: "length frames = length ?fs"
    using assms(8,9) by (simp add: list_all2_lengthD)
  have "ws_Calls (ws_rest c') = ws_Calls (ws_rest c) \<and> ws_MyHandler c'" if "n < length frames"
  proof -
    have "set (take n ?fs) \<subseteq> set (butlast ?fs)"
      using that len by (simp add: butlast_conv_take set_take_subset_set_take)
    then have "\<forall>f \<in> set (take n ?fs). \<not> fst f \<and> fst (snd f) \<in> {OCN_TEXT, OCN_BINARY, OCN_CONTINUATION}"
      using message_frames_open assms(5) by blast
    then have "ws_Calls c2 = ws_Calls (ws_rest c) \<and> ws_MyHandler c2 = ws_MyHandler (ws_rest c)"
      using c2(1) by (rule dispatches_open)
    moreover have "ws_Calls (ws_rest c') = filter not_read (ws_Calls c2)" "ws_MyHandler c' = ws_MyHandler c2"
      using c2(2) ws_rest_simps(5) [of c'] ws_rest_simps(5) [of c2] by (simp_all del: ws_rest_simps(5))
    ultimately show ?thesis
      using assms(3) by simp
  qed
  moreover have "ws_rest c' = ws_rest (ws_call (CallMessage (GetMessageType op) (concat parts)) ((ws_rest c)\<lparr>ws_FragMsgData := m\<rparr>))"
    if "n = length frames"
    using c2 m that len by simp
  ultimately show thesis
    using that c' by blast
qed

lemma message_reads_all:
  assumes "list_all2 frame_ok (message_frames op parts) keys" "frames = map2 frame_bytes (message_frames op parts) keys"
    "concat reads = concat frames" "[] \<notin> set reads" "parts \<noteq> []"
    "length parts = 1 \<or> (\<exists>xss. reads = concat xss \<and> map concat xss = frames) \<or> (\<forall>x \<in> set reads. \<forall>f \<in> set frames. length x \<le> length f)"
  shows "frames_read 0 (map length frames) (map length reads) = length frames"
proof -
  have ne: "[] \<notin> set frames"
    by (auto simp: assms(2) in_set_zip frame_bytes_def client_frame_def)
  have sum: "0 + sum_list (map length reads) = sum_list (map length frames)"
    using arg_cong [OF assms(3), of length] by (simp add: length_concat)
  from assms(6) consider (one) "length parts = 1" | (own) xss where "reads = concat xss" "map concat xss = frames"
    | (short) "\<forall>x \<in> set reads. \<forall>f \<in> set frames. length x \<le> length f" by blast
  then show ?thesis
  proof cases
    case one
    then obtain p where "parts = [p]"
      by (cases parts) auto
    then obtain f where f: "frames = [f]"
      using assms(1,2) by (auto simp: list_all2_Cons1)
    moreover have "reads \<noteq> []"
      using f ne assms(3) by auto
    ultimately show ?thesis
      using frames_read_one [of "map length reads" 0 "length f"] sum by simp
  next
    case own
    then show ?thesis
      using frames_read_apart [of xss frames] ne assms(4) by simp
  next
    case short
    have "map length frames = [] \<or> 0 < hd (map length frames)"
      using ne by (cases frames) auto
    then show ?thesis
      using frames_read_short [OF sum] short by simp
  qed
qed

section \<open>Properties\<close>

text \<open>C3: the connection delivers messages whole. A client message of up to 16 MiB, cut into any number of
  fragments, each sent as a masked frame with its own key and of less than 64 KiB, and cut into reads in any
  way: each read handles one frame at most, and when all are handled the message has reached the handler
  as one \<open>OnMessage\<close> call with its type and its unfragmented, unmasked bytes, nothing else being called apart from
  the read requests, and the connection is ready for the next message. Before that nothing is called, and the
  bytes of the frames not handled are kept for the reads to come. All are handled by the reads that bring
  them if the message has one frame, if no read holds bytes of two frames, or if no read is longer than a frame.\<close>

theorem message_delivered_whole:
  assumes "ws_sync c" "GetAvailableData (ws_ReadBuff c) = []" "ws_MyHandler c"
    "ws_FragOpCode c = OCN_CONTINUATION" "op = OCN_TEXT \<or> op = OCN_BINARY"
    "parts \<noteq> []" "length (concat parts) \<le> MaxFragmentedSize"
    "list_all2 frame_ok (message_frames op parts) keys" "frames = map2 frame_bytes (message_frames op parts) keys"
    "concat reads = concat frames" "[] \<notin> set reads" "ws_legal junk reads c"
    "n = frames_read 0 (map length frames) (map length reads)"
  shows "(\<exists>c'. ws_reads junk reads c = Some c' \<and> ws_sync c' \<and> ws_MyHandler c'
      \<and> GetAvailableData (ws_ReadBuff c') = concat (drop n frames)
      \<and> (if n = length frames
         then filter not_read (ws_Calls c') = filter not_read (ws_Calls c) @ [CallMessage (GetMessageType op) (concat parts)]
           \<and> ws_FragOpCode c' = OCN_CONTINUATION
         else filter not_read (ws_Calls c') = filter not_read (ws_Calls c)))
    \<and> (length parts = 1 \<or> (\<exists>xss. reads = concat xss \<and> map concat xss = frames)
       \<or> (\<forall>x \<in> set reads. \<forall>f \<in> set frames. length x \<le> length f) \<longrightarrow> n = length frames)"
proof -
  have n: "n \<le> length frames"
    using frames_read_le [of 0 "map length frames" "map length reads"] assms(13) by simp
  obtain c' where c': "ws_reads junk reads c = Some c'" "ws_sync c'" "GetAvailableData (ws_ReadBuff c') = concat (drop n frames)"
    and r: "n < length frames \<Longrightarrow> ws_Calls (ws_rest c') = ws_Calls (ws_rest c) \<and> ws_MyHandler c'"
      "n = length frames \<Longrightarrow> \<exists>m. ws_rest c' = ws_rest (ws_call (CallMessage (GetMessageType op) (concat parts)) ((ws_rest c)\<lparr>ws_FragMsgData := m\<rparr>))"
    using message_read [OF assms] by blast
  have "ws_Calls (ws_rest c') = ws_Calls (ws_rest c) @ [CallMessage (GetMessageType op) (concat parts)]
      \<and> ws_MyHandler (ws_rest c') \<and> ws_FragOpCode (ws_rest c') = OCN_CONTINUATION" if "n = length frames"
    using r(2) [OF that] assms(3,4) by (elim exE) (simp add: ws_call_def)
  then show ?thesis
    using c' r(1) n message_reads_all [OF assms(8,9,10,11,6)] assms(13) by (cases "n = length frames") auto
qed


lemma ws_init_state:
  "ws_sync (ws_init junk)" "GetAvailableData (ws_ReadBuff (ws_init junk)) = []" "ws_MyHandler (ws_init junk)"
  "ws_FragOpCode (ws_init junk) = OCN_CONTINUATION" "ws_ReadBuff (ws_init junk) = srb_init junk ReadBuffSize"
proof -
  show r: "ws_ReadBuff (ws_init junk) = srb_init junk ReadBuffSize"
    by (simp add: ws_init_def StartAsyncRead_rest ClearSafeState_def)
  have i: "srb_inv (srb_init junk ReadBuffSize)"
    by (rule srb_inv_init) (simp add: ReadBuffSize_def)
  show "GetAvailableData (ws_ReadBuff (ws_init junk)) = []"
    unfolding r by (simp add: GetAvailableData_eq i) (simp add: srb_init_def)
  show "ws_sync (ws_init junk)"
    using i by (simp add: ws_sync_def r) (simp add: ws_init_def StartAsyncRead_rest ClearSafeState_def)
  show "ws_MyHandler (ws_init junk)" "ws_FragOpCode (ws_init junk) = OCN_CONTINUATION"
    by (simp_all add: ws_init_def StartAsyncRead_def ClearSafeState_def ws_call_def case_prod_beta)
qed

lemma ws_init_can_read:
  assumes "length xs \<le> 4096"
  shows "ws_can_read xs (ws_init junk)"
proof -
  have i: "srb_inv (srb_init junk ReadBuffSize)"
    by (rule srb_inv_init) (simp add: ReadBuffSize_def)
  have r: "length xs \<le> srb_room (srb_init junk ReadBuffSize)"
    using assms i by (simp add: srb_room_eq) (simp add: srb_init_def ReadBuffSize_def)
  then show ?thesis
    using assms by (simp add: ws_can_read_def ws_init_state srb_may_request_def srb_feed_state [OF i r])
      (simp add: srb_init_def MaxFrameSize_def)
qed

theorem message_delivered_whole_witness:
  "\<exists>c'. ws_reads (\<lambda>_. 0) [client_frame True OCN_TEXT [1, 2, 3, 4] [0x48, 0x69]] (ws_init (\<lambda>_. 0)) = Some c'
    \<and> filter not_read (ws_Calls c') = filter not_read (ws_Calls (ws_init (\<lambda>_. 0)))
        @ [CallMessage MSGTYPE_TEXT [0x48, 0x69]]"
proof -
  let ?f = "client_frame True OCN_TEXT [1, 2, 3, 4] [0x48, 0x69]" and ?c = "ws_init (\<lambda>_. 0)"
  let ?n = "frames_read 0 (map length [?f]) (map length [?f])"
  have l: "length ?f \<le> 4096"
    using client_frame_parts(8) [of "[0x48, 0x69]" "[1, 2, 3, 4]" True OCN_TEXT] by simp
  have leg: "ws_legal (\<lambda>_. 0) [?f] ?c"
    using ws_init_can_read [OF l] by (simp add: client_frame_def split: option.split)
  have "(\<exists>c'. ws_reads (\<lambda>_. 0) [?f] ?c = Some c' \<and> ws_sync c' \<and> ws_MyHandler c'
      \<and> GetAvailableData (ws_ReadBuff c') = concat (drop ?n [?f])
      \<and> (if ?n = length [?f]
         then filter not_read (ws_Calls c') = filter not_read (ws_Calls ?c) @ [CallMessage (GetMessageType OCN_TEXT) (concat [[0x48, 0x69]])]
           \<and> ws_FragOpCode c' = OCN_CONTINUATION
         else filter not_read (ws_Calls c') = filter not_read (ws_Calls ?c)))
    \<and> (length [[0x48, 0x69 :: byte]] = 1 \<or> (\<exists>xss. [?f] = concat xss \<and> map concat xss = [?f])
       \<or> (\<forall>x \<in> set [?f]. \<forall>f \<in> set [?f]. length x \<le> length f) \<longrightarrow> ?n = length [?f])"
    by (rule message_delivered_whole [where keys = "[[1, 2, 3, 4]]"])
      (use leg in \<open>simp_all add: ws_init_state(1-4) frame_ok_def frame_bytes_def ocn_defs MaxFragmentedSize_def client_frame_def\<close>)
  then show ?thesis
    by (auto simp: GetMessageType_def)
qed

end
