(* ===== verification/WSHandler.thy ===== *)
theory WSHandler
  imports WSDelivery
begin

text \<open>
  The calls the WebSocket connection makes on its message handler, over all interleavings of
  its operations: a step relation, and what each operation may do with the handler.
\<close>

section \<open>Calls of the handler\<close>

definition is_handler_call :: "ws_call \<Rightarrow> bool" where
  "is_handler_call e \<longleftrightarrow> (case e of CallMessage _ _ \<Rightarrow> True | CallClose _ \<Rightarrow> True | CallStep _ \<Rightarrow> True | _ \<Rightarrow> False)"

definition handler_calls :: "wsc \<Rightarrow> ws_call list" where
  "handler_calls c = filter is_handler_call (ws_Calls c)"

definition no_close :: "ws_call list \<Rightarrow> bool" where
  "no_close es \<longleftrightarrow> (\<forall>k. CallClose k \<notin> set es)"

text \<open>What one operation may do with the handler: with none it calls nothing; otherwise it may
  close it, and that is its last call.\<close>

definition hrel :: "ws_call list \<Rightarrow> bool \<Rightarrow> ws_call list \<Rightarrow> bool \<Rightarrow> bool" where
  "hrel cs h cs' h' \<longleftrightarrow> (\<exists>es. cs' = cs @ es \<and>
     (if h then no_close es \<or> \<not> h' \<and> (\<exists>ms k. es = ms @ [CallClose k] \<and> no_close ms)
      else es = [] \<and> \<not> h'))"

definition hstep :: "wsc \<Rightarrow> wsc \<Rightarrow> bool" where
  "hstep c c' \<longleftrightarrow> hrel (handler_calls c) (ws_MyHandler c) (handler_calls c') (ws_MyHandler c')"

definition hsame :: "wsc \<Rightarrow> wsc \<Rightarrow> bool" where
  "hsame c c' \<longleftrightarrow> handler_calls c' = handler_calls c \<and> ws_MyHandler c' = ws_MyHandler c"

lemma is_handler_call_simps [simp]:
  "is_handler_call (CallMessage t m)" "is_handler_call (CallClose k)" "is_handler_call (CallStep n)"
  "\<not> is_handler_call (AsyncRead a b)" "\<not> is_handler_call (AsyncWrite p n)" "\<not> is_handler_call SockClose"
  "\<not> is_handler_call PostWrite" "\<not> is_handler_call PostClose"
  by (simp_all add: is_handler_call_def)

lemma no_close_simps [simp]: "no_close []" "no_close (xs @ ys) = (no_close xs \<and> no_close ys)"
  "no_close [e] = (\<forall>k. e \<noteq> CallClose k)"
  by (auto simp: no_close_def)

lemma handler_calls_simps [simp]:
  "handler_calls (c\<lparr>ws_ReadBuff := b\<rparr>) = handler_calls c" "handler_calls (c\<lparr>ws_WriteBuff := q\<rparr>) = handler_calls c"
  "handler_calls (c\<lparr>ws_SilentTime := t\<rparr>) = handler_calls c" "handler_calls (c\<lparr>ws_CurrFrameLength := n\<rparr>) = handler_calls c"
  "handler_calls (c\<lparr>ws_FragOpCode := n\<rparr>) = handler_calls c" "handler_calls (c\<lparr>ws_FragMsgData := m\<rparr>) = handler_calls c"
  "handler_calls (c\<lparr>ws_MyHandler := h\<rparr>) = handler_calls c" "handler_calls (SetSafeState s c) = handler_calls c"
  "handler_calls (ClearSafeState s c) = handler_calls c"
  "handler_calls (ws_call e c) = handler_calls c @ (if is_handler_call e then [e] else [])"
  "ws_MyHandler (ws_call e c) = ws_MyHandler c" "ws_MyHandler (SetSafeState s c) = ws_MyHandler c"
  "ws_MyHandler (ClearSafeState s c) = ws_MyHandler c" "ws_SilentTime (ws_call e c) = ws_SilentTime c"
  by (simp_all add: handler_calls_def SetSafeState_def ClearSafeState_def ws_call_def)

lemma hsame_refl: "hsame c c"
  by (simp add: hsame_def)

lemma hrel_intros:
  "hrel cs h cs h" "hrel cs h cs False" "no_close [e] \<Longrightarrow> hrel cs True (cs @ [e]) h'"
  "hrel cs True (cs @ [CallClose k]) False"
  by (auto simp: hrel_def intro: exI [of _ "[]"])

lemma hrel_trans:
  assumes "hrel a ha b hb" "hrel b hb c hc"
  shows "hrel a ha c hc"
proof (cases hb)
  case False
  with assms show ?thesis by (auto simp: hrel_def)
next
  case True
  then obtain es1 es2 where e: "b = a @ es1" "ha" "no_close es1" "c = b @ es2"
    "no_close es2 \<or> \<not> hc \<and> (\<exists>ms k. es2 = ms @ [CallClose k] \<and> no_close ms)"
    using assms by (auto simp: hrel_def split: if_splits)
  have "no_close (es1 @ es2) \<or> \<not> hc \<and> (\<exists>ms k. es1 @ es2 = ms @ [CallClose k] \<and> no_close ms)"
    using e(3,5) by (metis append_assoc no_close_simps(2))
  then show ?thesis
    using e(1,2,4) by (auto simp: hrel_def)
qed

lemma hsame_step: "hsame c c' \<Longrightarrow> hstep c c'"
  by (simp add: hsame_def hstep_def hrel_intros)

lemma hstep_refl: "hstep c c"
  by (simp add: hstep_def hrel_intros)

lemma hstep_trans: "hstep a b \<Longrightarrow> hstep b c \<Longrightarrow> hstep a c"
  unfolding hstep_def by (rule hrel_trans)

lemma hsame_update: "hsame c c' \<Longrightarrow> hsame c (c'\<lparr>ws_WriteBuff := q\<rparr>)"
  by (simp add: hsame_def)

lemma write_loop_hsame: "hsame c (write_loop c)"
proof (induction c rule: write_loop.induct)
  case (1 c)
  then show ?case
    by (subst write_loop.simps) (auto simp: hsame_def split: option.split prod.split)
qed

lemma StartAsyncWrite_hsame: "hsame c (StartAsyncWrite c)"
  by (simp add: StartAsyncWrite_def write_loop_hsame hsame_refl)

lemma StartAsyncWrite_handler [simp]:
  "handler_calls (StartAsyncWrite c) = handler_calls c" "ws_MyHandler (StartAsyncWrite c) = ws_MyHandler c"
  using StartAsyncWrite_hsame [of c] by (simp_all add: hsame_def)

lemma StartAsyncRead_handler [simp]:
  "handler_calls (StartAsyncRead c) = handler_calls c" "ws_MyHandler (StartAsyncRead c) = ws_MyHandler c"
  by (simp_all add: StartAsyncRead_def case_prod_beta)

lemma SendControlFrame_hsame: "SendControlFrame junk op c = Some (s, c') \<Longrightarrow> hsame c c'"
  by (auto simp: SendControlFrame_def hsame_def split: option.splits prod.splits)

lemma SendCloseInternal_hsame: "SendCloseInternal junk op c = Some (s, c') \<Longrightarrow> hsame c c'"
  by (auto simp: SendCloseInternal_def hsame_def split: option.splits prod.splits)

lemma close_handler_hstep: "hstep c (close_handler k c)"
  by (auto simp: close_handler_def hstep_def hrel_intros)

lemma SendClose_hstep:
  assumes "SendCloseInternal junk r (ws_call (CallClose k) c) = Some (s, c1)" "ws_MyHandler c"
  shows "hstep c (c1\<lparr>ws_MyHandler := False\<rparr>)" "hstep c ((StartAsyncWrite c1)\<lparr>ws_MyHandler := False\<rparr>)"
  using SendCloseInternal_hsame [OF assms(1)] assms(2) by (simp_all add: hsame_def hstep_def hrel_intros)

lemma SendControl_hstep:
  assumes "SendControlFrame junk op c = Some (s, c1)"
  shows "hstep c c1" "hstep c (StartAsyncWrite c1)"
  using SendControlFrame_hsame [OF assms] by (simp_all add: hsame_def hstep_def hrel_intros)

lemma OnProtocolError_hstep: "OnProtocolError junk r c = Some c' \<Longrightarrow> hstep c c'"
  by (auto simp: OnProtocolError_def hstep_refl intro: SendClose_hstep split: if_splits option.splits prod.splits)

lemma ProcessControlFrame_hstep: "ProcessControlFrame junk op p n c = Some (r, c') \<Longrightarrow> hstep c c'"
  by (auto simp: ProcessControlFrame_def hstep_refl intro: SendClose_hstep SendControl_hstep
      split: if_splits option.splits prod.splits)

lemma OnMessage_hstep: "OnMessage op m c = Some c' \<Longrightarrow> hstep c c'"
  by (auto simp: OnMessage_def hstep_def intro!: hrel_intros(3) split: if_splits option.splits)

lemma hstep_update:
  "hstep c (c'\<lparr>ws_FragMsgData := m, ws_FragOpCode := op\<rparr>) = hstep c c'"
  "hstep c (c'\<lparr>ws_ReadBuff := b, ws_CurrFrameLength := n\<rparr>) = hstep c c'"
  "hstep c (SetSafeState s c') = hstep c c'" "hstep c (StartAsyncRead c') = hstep c c'"
  "hstep c (c'\<lparr>ws_ReadBuff := b\<rparr>) = hstep c c'" "hstep c (c'\<lparr>ws_FragMsgData := m\<rparr>) = hstep c c'"
  "hstep c (c'\<lparr>ws_SilentTime := t\<rparr>) = hstep c c'"
  "hstep c (c'\<lparr>ws_CurrFrameLength := n\<rparr>) = hstep c c'" "hstep c (c'\<lparr>ws_WriteBuff := q\<rparr>) = hstep c c'"
  "hstep (c\<lparr>ws_ReadBuff := b\<rparr>) c' = hstep c c'" "hstep (c\<lparr>ws_CurrFrameLength := n\<rparr>) c' = hstep c c'"
  "hstep (c\<lparr>ws_SilentTime := t\<rparr>) c' = hstep c c'" "hstep (SetSafeState s c) c' = hstep c c'"
  by (simp_all add: hstep_def)

lemma DispatchFrame_hstep: "DispatchFrame junk fin op p n c = Some (r, c') \<Longrightarrow> hstep c c'"
  by (auto simp: DispatchFrame_def hstep_refl hstep_update
      dest: OnMessage_hstep ProcessControlFrame_hstep split: if_splits option.splits)

lemma ProcessFrame_hstep: "ProcessFrame junk d n c = Some (r, c') \<Longrightarrow> hstep c c'"
  by (auto simp: ProcessFrame_def Let_def hstep_refl hstep_update dest!: DispatchFrame_hstep
      split: if_splits option.splits)

lemma ProcessIncoming_hstep: "ProcessIncoming junk c = Some (r, c') \<Longrightarrow> hstep c c'"
  by (auto simp: ProcessIncoming_def Let_def hstep_refl hstep_update dest!: ProcessFrame_hstep
      split: if_splits option.splits sum.splits)

lemma OnRead_hstep: "OnRead junk xs c = Some c' \<Longrightarrow> hstep c c'"
proof (cases xs)
  case None
  then show "OnRead junk xs c = Some c' \<Longrightarrow> hstep c c'"
    using close_handler_hstep [of "SetSafeState SAFE_READ c"] by (auto simp: OnRead.simps hstep_update)
next
  case (Some x)
  assume r: "OnRead junk xs c = Some c'"
  let ?c = "c\<lparr>ws_ReadBuff := srb_feed x (ws_ReadBuff c), ws_SilentTime := 0\<rparr>"
  obtain reason c1 where p: "ProcessIncoming junk ?c = Some (reason, c1)"
    using r Some by (auto simp: OnRead.simps split: option.splits)
  then have h: "hstep c c1"
    using ProcessIncoming_hstep by (force simp: hstep_update)
  show "hstep c c'"
    using r Some p h by (auto simp: OnRead.simps hstep_update split: if_splits
        dest!: OnProtocolError_hstep intro: hstep_trans)
qed

lemma OnWrite_hstep: "hstep c (OnWrite e c)"
  using close_handler_hstep [of "SetSafeState SAFE_WRITE c"]
  by (simp add: OnWrite_def Let_def hstep_update) (simp add: hstep_def hrel_intros)

lemma OnStep_hstep: "hstep c (snd (OnStep n c))"
proof -
  let ?c = "c\<lparr>ws_SilentTime := u32_add (ws_SilentTime c) n\<rparr>"
  have "hstep ?c (ws_call SockClose (close_handler (cr_code CR_CONN_ERROR) ?c))"
    by (auto simp: close_handler_def hstep_def hrel_intros)
  moreover have "ws_MyHandler c \<Longrightarrow> hstep ?c (ws_call (CallStep n) ?c)"
    by (simp add: hstep_def hrel_intros)
  ultimately show ?thesis
    by (auto simp: OnStep_def Let_def hstep_update hstep_refl)
qed

lemma Stop_hstep: "Stop junk c = Some c' \<Longrightarrow> hstep c c'"
  by (auto simp: Stop_def dest!: OnProtocolError_hstep intro!: hstep_trans [OF _ close_handler_hstep])
    (simp add: hstep_def)

lemma sends_hstep:
  "WSAllocate junk t n c = Some (p, c') \<Longrightarrow> hstep c c'" "hstep c (Deallocate c)" "hstep c (Send c)"
  "SendPing junk c = Some c' \<Longrightarrow> hstep c c'" "WSClose junk r c = Some c' \<Longrightarrow> hstep c c'"
  "hstep c (StartAsyncWriteExternal c)" "hstep c (StartAsyncWriteCloseExternal c)"
  by (auto simp: WSAllocate_def Deallocate_def Send_def SendPing_def WSClose_def Let_def
      StartAsyncWriteExternal_def StartAsyncWriteCloseExternal_def hstep_def hrel_intros hsame_def
      dest!: SendControlFrame_hsame SendCloseInternal_hsame split: option.splits prod.splits)

section \<open>Reachable states\<close>

text \<open>One operation on the connection, by the server thread, the sender or the executor.\<close>

inductive ws_step :: "(nat \<Rightarrow> byte) \<Rightarrow> wsc \<Rightarrow> wsc \<Rightarrow> bool" for junk where
  read: "OnRead junk xs c = Some c' \<Longrightarrow> ws_step junk c c'"
| written: "ws_step junk c (OnWrite e c)"
| timer: "ws_step junk c (snd (OnStep n c))"
| stop: "Stop junk c = Some c' \<Longrightarrow> ws_step junk c c'"
| allocate: "WSAllocate junk t n c = Some (p, c') \<Longrightarrow> ws_step junk c c'"
| fill: "poke p k xs (ws_WriteBuff c) = Some q \<Longrightarrow> ws_step junk c (c\<lparr>ws_WriteBuff := q\<rparr>)"
| deallocate: "ws_step junk c (Deallocate c)"
| send: "ws_step junk c (Send c)"
| ping: "SendPing junk c = Some c' \<Longrightarrow> ws_step junk c c'"
| close: "WSClose junk r c = Some c' \<Longrightarrow> ws_step junk c c'"
| write_req: "ws_step junk c (StartAsyncWriteExternal c)"
| close_req: "ws_step junk c (StartAsyncWriteCloseExternal c)"

lemma ws_step_hstep: "ws_step junk c c' \<Longrightarrow> hstep c c'"
  by (induction rule: ws_step.induct)
    (simp_all add: OnRead_hstep OnWrite_hstep OnStep_hstep Stop_hstep sends_hstep hstep_update hstep_refl)

lemma ws_init_calls: "handler_calls (ws_init junk) = []" "ws_SilentTime (ws_init junk) = 0"
  by (simp_all add: ws_init_def StartAsyncRead_def ClearSafeState_def ws_call_def case_prod_beta handler_calls_def)

text \<open>C9: the handler contract. In every state reachable from a new connection, whatever the
  peer sends and however reads, writes, timer steps and sends interleave, \<open>OnClose\<close> is called at
  most once, it is the last call the handler gets, and while the handler is set it has not been
  called.\<close>

theorem no_call_after_OnClose:
  assumes "(ws_step junk)\<^sup>*\<^sup>* (ws_init junk) c" "handler_calls c = xs @ CallClose k # ys"
  shows "ys = [] \<and> no_close xs \<and> \<not> ws_MyHandler c"
proof -
  have "hstep (ws_init junk) c"
    using assms(1) by (induction rule: rtranclp_induct) (auto intro: hstep_refl hstep_trans ws_step_hstep)
  moreover have "handler_calls (ws_init junk) = []" "ws_MyHandler (ws_init junk)"
    by (simp_all add: ws_init_state(3) ws_init_calls)
  ultimately have "no_close (xs @ CallClose k # ys) \<or>
      \<not> ws_MyHandler c \<and> (\<exists>ms j. xs @ CallClose k # ys = ms @ [CallClose j] \<and> no_close ms)"
    using assms(2) by (simp add: hstep_def hrel_def)
  moreover have "\<not> no_close (xs @ CallClose k # ys)"
    by (auto simp: no_close_def)
  ultimately obtain ms j where m: "xs @ CallClose k # ys = ms @ [CallClose j]" "no_close ms" "\<not> ws_MyHandler c"
    by blast
  show ?thesis
  proof (cases ys rule: rev_cases)
    case Nil
    then show ?thesis using m by simp
  next
    case (snoc zs z)
    then have "ms = xs @ CallClose k # zs"
      using m(1) by (metis append.assoc append_Cons butlast_snoc)
    then show ?thesis using m(2) by (auto simp: no_close_def)
  qed
qed

theorem no_call_after_OnClose_witness:
  "handler_calls (snd (OnStep 4000 (snd (OnStep 5 (ws_init (\<lambda>_. 0)))))) = [CallStep 5] @ CallClose 1006 # []
    \<and> \<not> ws_MyHandler (snd (OnStep 4000 (snd (OnStep 5 (ws_init (\<lambda>_. 0))))))"
proof -
  let ?c = "snd (OnStep 4000 (snd (OnStep 5 (ws_init (\<lambda>_. 0)))))"
  have r: "(ws_step (\<lambda>_. 0))\<^sup>*\<^sup>* (ws_init (\<lambda>_. 0)) ?c"
    by (meson converse_rtranclp_into_rtranclp rtranclp.rtrancl_refl timer)
  have h: "handler_calls ?c = [CallStep 5] @ CallClose 1006 # []"
    by (simp add: OnStep_def Let_def MaxSilentTime_def u32_simps ws_init_state(3) ws_init_calls close_handler_def)
  show ?thesis
    using no_call_after_OnClose [OF r h] h by blast
qed

end
