(* ===== verification/WSSend.thy ===== *)
theory WSSend
  imports WSDelivery
begin

text \<open>
  The sending side of the WebSocket connection: frames become entries of the write queue,
  \<open>StartAsyncWrite\<close> hands every pending byte to the socket, pings are answered, and what the
  close frame really holds.
\<close>

section \<open>Frames in the write queue\<close>

lemma ring_fits:
  assumes "ring us fr cap (xs @ [(p, n)])"
  shows "p + n \<le> cap"
  using ring_bounds [OF assms, of p n] by simp

text \<open>A write that fits the allocation is inside the storage.\<close>

lemma open_poke:
  assumes "wq_open q bs b l0 n" "length xs \<le> n"
  shows "poke (ptr_at (bf_Buff b) l0) 0 xs q = Some (wq_store (ptr_at (bf_Buff b) l0) xs q)"
proof -
  note O = wq_openD [OF assms(1)] and B = wq_baseD [OF wq_openD(1) [OF assms(1)]]
  show ?thesis
  proof (cases "bf_Buff b")
    case (StaticPtr p)
    then have "p + (l0 + n) \<le> length (wq_mem q)"
      using B(2) O(2,4) by (intro ring_fits [of _ _ _ "statics bs"]) simp
    then show ?thesis
      using assms(2) StaticPtr by simp
  next
    case (DynPtr i)
    then have "l0 + n \<le> length (wq_heap q i)"
      using B(3) [of b] O(2,4) by (simp add: buffer_ok_def)
    then show ?thesis
      using assms(2) DynPtr by simp
  qed
qed

lemma mem_write_twice:
  "p + length xs + length ys \<le> length m \<Longrightarrow>
    mem_write (mem_write m p xs) (p + length xs) ys = mem_write m p (xs @ ys)"
proof -
  assume a: "p + length xs + length ys \<le> length m"
  then have p: "length (take p m) = p"
    by simp
  then have "take (p + length xs) (mem_write m p xs) = take p m @ xs"
    by (simp add: mem_write_def)
  moreover have "drop (p + length xs + length ys) (mem_write m p xs) = drop (p + length xs + length ys) m"
    using p by (simp add: mem_write_def add.commute add.left_commute)
  ultimately show ?thesis
    by (simp add: mem_write_def [of "mem_write m p xs"]) (simp add: mem_write_def add.assoc)
qed

lemma poke_twice:
  assumes "poke p 0 (xs @ ys) q = Some q'"
  shows "\<exists>q1. poke p 0 xs q = Some q1 \<and> poke p (length xs) ys q1 = Some q'"
proof (cases p)
  case (StaticPtr a)
  then show ?thesis
    using assms by (auto simp: mem_write_twice mem_simps split: if_splits)
next
  case (DynPtr i)
  then show ?thesis
    using assms mem_write_twice [of 0 xs ys "wq_heap q i"] by (auto simp: mem_simps split: if_splits)
qed

lemma Allocate_open:
  assumes "wq_inv q" "wq_may n q" "0 < n"
  obtains q1 bs b l0 where "Allocate junk n q = (Some (ptr_at (bf_Buff b) l0), q1)" "wq_open q1 bs b l0 n"
proof (cases "fifo_place n (q\<lparr>wq_LastAllocLength := n\<rparr>)")
  case None
  then show ?thesis
    using Allocate_heap [of q n junk] assms that by (auto simp: wq_may_def)
next
  case (Some x)
  then show ?thesis
    using Allocate_ring [of q n "fst x" "snd x" junk] assms that by (auto simp: wq_may_def)
qed

text \<open>Allocating and writing a frame of exactly the allocated length is one \<open>wq_put\<close>.\<close>

lemma Allocate_poke:
  assumes "wq_inv q" "wq_may (length xs) q" "xs \<noteq> []"
  shows "\<exists>p q1 q2. Allocate junk (length xs) q = (Some p, q1) \<and> poke p 0 xs q1 = Some q2
    \<and> Commit (length xs) q2 = wq_put junk (length xs) xs q \<and> Commit_all q2 = wq_put junk (length xs) xs q"
proof -
  obtain q1 bs b l0 where a: "Allocate junk (length xs) q = (Some (ptr_at (bf_Buff b) l0), q1)"
    and o: "wq_open q1 bs b l0 (length xs)"
    using Allocate_open [OF assms(1,2), of junk thesis] assms(3) by auto
  let ?q2 = "wq_store (ptr_at (bf_Buff b) l0) xs q1"
  have "wq_LastAllocLength ?q2 = length xs"
    using wq_openD(5) [OF wq_store_open(1) [OF o order_refl]] .
  then have "Commit (U32 - 1) ?q2 = Commit (length xs) ?q2"
    using assms(2) by (intro Commit_no_shrink) (simp_all add: wq_may_def)
  then show ?thesis
    using a open_poke [OF o order_refl] by (simp add: wq_put_def Commit_all_def)
qed

section \<open>Submitting the pending bytes\<close>

text \<open>The bytes behind the write requests of a list of calls, as the queue holds them.\<close>

definition submitted :: "ws_call list \<Rightarrow> (bptr \<times> nat) list" where
  "submitted es = concat (map (\<lambda>e. case e of AsyncWrite p n \<Rightarrow> [(p, n)] | _ \<Rightarrow> []) es)"

definition inflight_ptrs :: "'b wbq \<Rightarrow> (bptr \<times> nat) list" where
  "inflight_ptrs q = map (\<lambda>b. (bf_Buff b, bf_Length b)) (take (wq_FirstPendingI q) (wq_OutBuffA q))"

lemma Pop_ptrs:
  assumes "Pop q = (Some (p, n), q')"
  shows "inflight_ptrs q' = inflight_ptrs q @ [(p, n)]"
  using assms by (auto simp: Pop_def Let_def inflight_ptrs_def take_Suc_conv_app_nth split: if_splits)

text \<open>From \<open>c\<close> to \<open>c'\<close> a part of the pending bytes was handed to the socket, in order.\<close>

definition flushes :: "wsc \<Rightarrow> wsc \<Rightarrow> bool" where
  "flushes c c' \<longleftrightarrow> wq_inv (ws_WriteBuff c')
     \<and> (\<exists>cs. wq_inflight (ws_WriteBuff c') = wq_inflight (ws_WriteBuff c) @ cs
         \<and> wq_pending (ws_WriteBuff c) = concat cs @ wq_pending (ws_WriteBuff c'))
     \<and> (\<exists>es. ws_Calls c' = ws_Calls c @ es
         \<and> inflight_ptrs (ws_WriteBuff c') = inflight_ptrs (ws_WriteBuff c) @ submitted es)"

lemma flushes_refl: "wq_inv (ws_WriteBuff c) \<Longrightarrow> flushes c c"
  by (simp add: flushes_def submitted_def)

lemma flushes_trans: "flushes a b \<Longrightarrow> flushes b c \<Longrightarrow> flushes a c"
  unfolding flushes_def submitted_def
  by (elim conjE exE) (intro conjI exI [where x = "_ @ _"], simp_all)

lemma write_one:
  assumes "wq_inv (ws_WriteBuff c)" "Pop (ws_WriteBuff c) = (Some (p, n), q')"
  shows "flushes c (ws_call (AsyncWrite p n) (ClearSafeState SAFE_WRITE (c\<lparr>ws_WriteBuff := q'\<rparr>)))"
proof -
  have ne: "wq_pending (ws_WriteBuff c) \<noteq> []"
    using assms pending_Nil [OF assms(1)] by (auto simp: Pop_def Let_def split: if_splits)
  then have "wq_inv q'" "\<exists>k. wq_inflight q' = wq_inflight (ws_WriteBuff c) @ [k]
      \<and> wq_pending (ws_WriteBuff c) = k @ wq_pending q'"
    using Pop_inv [OF assms(1)] Pop_chunk [OF assms(1) ne] assms(2) by auto
  then show ?thesis
    using Pop_ptrs [OF assms(2)]
    by (auto simp: flushes_def ws_call_def ClearSafeState_def submitted_def intro: exI [of _ "[_]"])
qed

lemma write_loop_flushes:
  "wq_inv (ws_WriteBuff c) \<Longrightarrow> flushes c (write_loop c) \<and> wq_pending (ws_WriteBuff (write_loop c)) = []"
proof (induction c rule: write_loop.induct)
  case (1 c)
  obtain r q' where pop: "Pop (ws_WriteBuff c) = (r, q')" by force
  show ?case
  proof (cases r)
    case None
    then have "wq_pending (ws_WriteBuff c) = []"
      using pop 1(2) Pop_some(2) [OF 1(2)] pending_Nil [OF 1(2)] by auto
    moreover from this have "q' = ws_WriteBuff c"
      using pop Pop_none(1) [OF 1(2)] pending_Nil [OF 1(2)] by simp
    ultimately show ?thesis
      using pop None 1(2) by (subst (1 2) write_loop.simps) (simp add: flushes_refl)
  next
    case (Some pn)
    obtain p n where pn: "pn = (p, n)" by force
    let ?c = "ws_call (AsyncWrite p n) (ClearSafeState SAFE_WRITE (c\<lparr>ws_WriteBuff := q'\<rparr>))"
    have w: "write_loop c = write_loop ?c"
      using pop Some pn by (subst write_loop.simps) simp
    have one: "flushes c ?c"
      using write_one 1(2) pop Some pn by simp
    then have "wq_inv (ws_WriteBuff ?c)"
      by (simp add: flushes_def)
    then have "flushes ?c (write_loop ?c) \<and> wq_pending (ws_WriteBuff (write_loop ?c)) = []"
      using 1(1) pop Some pn by simp
    then show ?thesis
      unfolding w using one flushes_trans by blast
  qed
qed

section \<open>Properties\<close>

text \<open>Note: nothing stays behind. When no write is outstanding, \<open>StartAsyncWrite\<close> hands every
  pending byte to the socket, in order and as the queue's buffers, and nothing is pending
  afterwards; when a write is outstanding it changes nothing.\<close>

theorem StartAsyncWrite_submits_all:
  assumes "wq_inv (ws_WriteBuff c)"
  shows "if IsSafeState SAFE_WRITE c
    then flushes c (StartAsyncWrite c) \<and> wq_pending (ws_WriteBuff (StartAsyncWrite c)) = []
    else StartAsyncWrite c = c"
  using write_loop_flushes [OF assms] by (simp add: StartAsyncWrite_def)

theorem StartAsyncWrite_submits_all_witness:
  "flushes (ws_init (\<lambda>_. 0)) (StartAsyncWrite (ws_init (\<lambda>_. 0)))"
proof -
  have w: "ws_WriteBuff (ws_init (\<lambda>_. 0)) = wq_init (\<lambda>_. 0) WriteBuffSize"
    "ws_SafeStates (ws_init (\<lambda>_. 0)) = SAFE_ALL AND NOT SAFE_READ"
    by (simp_all add: ws_init_def StartAsyncRead_def ClearSafeState_def ws_call_def case_prod_beta)
  have "wq_inv (ws_WriteBuff (ws_init (\<lambda>_. 0)))"
    unfolding w by (rule wq_base_init) (simp_all add: WriteBuffSize_def)
  moreover have "IsSafeState SAFE_WRITE (ws_init (\<lambda>_. 0))"
    by (simp add: IsSafeState_def w SAFE_ALL_def SAFE_READ_def SAFE_WRITE_def)
  ultimately show ?thesis
    using StartAsyncWrite_submits_all [of "ws_init (\<lambda>_. 0)"] by simp
qed

lemma message_queued:
  assumes "wq_inv (ws_WriteBuff c)" "wq_may (length (AllocateHeader t (length m)) + length m) (ws_WriteBuff c)"
  shows "\<exists>p k c1 q. WSAllocate junk t (length m) c = Some (Some (p, k), c1)
    \<and> poke p k m (ws_WriteBuff c1) = Some q
    \<and> wq_pending (ws_WriteBuff (Send (c1\<lparr>ws_WriteBuff := q\<rparr>))) =
        wq_pending (ws_WriteBuff c) @ AllocateHeader t (length m) @ m
    \<and> wq_inflight (ws_WriteBuff (Send (c1\<lparr>ws_WriteBuff := q\<rparr>))) = wq_inflight (ws_WriteBuff c)
    \<and> wq_inv (ws_WriteBuff (Send (c1\<lparr>ws_WriteBuff := q\<rparr>)))"
proof -
  let ?q = "ws_WriteBuff c" and ?h = "AllocateHeader t (length m)"
  let ?f = "?h @ m"
  have may: "wq_may (length ?f) ?q" and ne: "?f \<noteq> []"
    using assms(2) by (simp_all add: AllocateHeader_def)
  have small: "length ?h + length m < U32"
    using assms(2) by (simp add: wq_may_def)
  have len: "u32_of (if length m < 126 then u64_add (length m) 2
      else if length m < 655356 then u64_add (length m) (2 + 2) else u64_add (length m) (2 + 8)) = length ?f"
    using small by (auto simp: AllocateHeader_def u64_add_def u32_simps split: if_splits)
  obtain p q1 q2 where a: "Allocate junk (length ?f) ?q = (Some p, q1)" "poke p 0 ?f q1 = Some q2"
    "Commit_all q2 = wq_put junk (length ?f) ?f ?q"
    using Allocate_poke [OF assms(1) may ne, of junk] by blast
  obtain q3 where q3: "poke p 0 ?h q1 = Some q3" "poke p (length ?h) m q3 = Some q2"
    using poke_twice [OF a(2)] by blast
  have "WSAllocate junk t (length m) c = Some (Some (p, length ?h), c\<lparr>ws_WriteBuff := q3\<rparr>)"
    unfolding WSAllocate_def Let_def len using a(1) q3(1) by simp
  moreover have s: "ws_WriteBuff (Send ((c\<lparr>ws_WriteBuff := q3\<rparr>)\<lparr>ws_WriteBuff := q2\<rparr>)) = wq_put junk (length ?f) ?f ?q"
    by (simp add: Send_def ws_call_def a(3))
  note P = wq.put_pending [OF assms(1) may order_refl, of junk] wq.put_inflight [OF assms(1) may order_refl, of junk]
    wq.put_inv [OF assms(1) may order_refl, of junk]
  have "poke p (length ?h) m (ws_WriteBuff (c\<lparr>ws_WriteBuff := q3\<rparr>)) = Some q2"
    using q3(2) by simp
  ultimately show ?thesis
    using P unfolding s [symmetric] by blast
qed

text \<open>Note: a message is queued as one frame. Allocating a message buffer, filling it completely
  and sending it adds exactly the frame header and the message to the pending bytes, behind
  everything already queued, and leaves the buffers being written alone.\<close>

theorem sent_message_queued:
  assumes "wq_inv (ws_WriteBuff c)" "wq_may (length (AllocateHeader t (length m)) + length m) (ws_WriteBuff c)"
  shows "\<exists>p k c1 q. WSAllocate junk t (length m) c = Some (Some (p, k), c1)
    \<and> poke p k m (ws_WriteBuff c1) = Some q
    \<and> wq_pending (ws_WriteBuff (Send (c1\<lparr>ws_WriteBuff := q\<rparr>))) =
        wq_pending (ws_WriteBuff c) @ AllocateHeader t (length m) @ m
    \<and> wq_inflight (ws_WriteBuff (Send (c1\<lparr>ws_WriteBuff := q\<rparr>))) = wq_inflight (ws_WriteBuff c)
    \<and> wq_inv (ws_WriteBuff (Send (c1\<lparr>ws_WriteBuff := q\<rparr>)))"
  by (rule message_queued [OF assms])

theorem sent_message_queued_witness:
  "\<exists>p k c1 q. WSAllocate (\<lambda>_. 0) MSGTYPE_BINARY (length [7, 8 :: byte]) (ws_init (\<lambda>_. 0)) = Some (Some (p, k), c1)
    \<and> poke p k [7, 8] (ws_WriteBuff c1) = Some q
    \<and> wq_pending (ws_WriteBuff (Send (c1\<lparr>ws_WriteBuff := q\<rparr>))) = [0x82, 2, 7, 8]"
proof -
  have w: "ws_WriteBuff (ws_init (\<lambda>_. 0)) = wq_init (\<lambda>_. 0) WriteBuffSize"
    by (simp add: ws_init_def StartAsyncRead_def ClearSafeState_def ws_call_def case_prod_beta)
  have i: "wq_inv (ws_WriteBuff (ws_init (\<lambda>_. 0)))"
    unfolding w by (rule wq_base_init) (simp_all add: WriteBuffSize_def)
  have h: "AllocateHeader MSGTYPE_BINARY (length [7, 8 :: byte]) = [0x82, 2]"
    by (simp add: AllocateHeader_def GetOpcode_def ocn_defs FLAG_FIN_def)
  have m: "wq_may (length (AllocateHeader MSGTYPE_BINARY (length [7, 8 :: byte])) + length [7, 8 :: byte])
      (ws_WriteBuff (ws_init (\<lambda>_. 0)))"
    unfolding w h by (simp add: wq_may_def wq_init_def)
  have p: "wq_pending (ws_WriteBuff (ws_init (\<lambda>_. 0))) = []"
    unfolding w by (simp add: wq_pending_def wq_init_def)
  show ?thesis
    using sent_message_queued [OF i m, of "\<lambda>_. 0"] unfolding h p by auto
qed


text \<open>All the bytes a queue holds: those being written, then those pending.\<close>

definition queue_bytes :: "wsc \<Rightarrow> byte list" where
  "queue_bytes c = concat (wq_inflight (ws_WriteBuff c)) @ wq_pending (ws_WriteBuff c)"

lemma StartAsyncWrite_queue:
  assumes "wq_inv (ws_WriteBuff c)"
  shows "queue_bytes (StartAsyncWrite c) = queue_bytes c" "wq_inv (ws_WriteBuff (StartAsyncWrite c))"
  using write_loop_flushes [OF assms] assms by (auto simp: StartAsyncWrite_def queue_bytes_def flushes_def)

lemma write_loop_keeps:
  "ws_FragOpCode (write_loop c) = ws_FragOpCode c \<and> ws_FragMsgData (write_loop c) = ws_FragMsgData c
    \<and> ws_MyHandler (write_loop c) = ws_MyHandler c"
proof (induction c rule: write_loop.induct)
  case (1 c)
  then show ?case
    by (subst (1 2 3) write_loop.simps) (auto simp: ws_call_def ClearSafeState_def split: option.split prod.split)
qed

lemma SendControlFrame_put:
  assumes "wq_inv (ws_WriteBuff c)" "wq_may 2 (ws_WriteBuff c)"
  shows "SendControlFrame junk op c =
    Some (True, c\<lparr>ws_WriteBuff := wq_put junk 2 [FLAG_FIN OR of_nat op, 0] (ws_WriteBuff c)\<rparr>)"
  using Allocate_poke [of "ws_WriteBuff c" "[FLAG_FIN OR of_nat op, 0]" junk] assms
  by (auto simp: SendControlFrame_def eval_nat_numeral)

text \<open>Note: a ping is answered in place. It may arrive between the fragments of a message: the
  fragment state and the handler are as before, and exactly one empty pong frame is added
  behind the bytes already queued, whether or not a write is outstanding.\<close>

theorem ping_answered:
  assumes "wq_inv (ws_WriteBuff c)" "wq_may 2 (ws_WriteBuff c)"
  shows "\<exists>c'. DispatchFrame junk True OCN_PING payload n c = Some (CR_NONE, c')
    \<and> queue_bytes c' = queue_bytes c @ [0x8A, 0] \<and> ws_FragOpCode c' = ws_FragOpCode c
    \<and> ws_FragMsgData c' = ws_FragMsgData c \<and> ws_MyHandler c' = ws_MyHandler c"
proof -
  let ?q = "wq_put junk 2 [FLAG_FIN OR of_nat OCN_PONG, 0] (ws_WriteBuff c)"
  have q: "wq_inv ?q" "wq_pending ?q = wq_pending (ws_WriteBuff c) @ [0x8A, 0]"
    "wq_inflight ?q = wq_inflight (ws_WriteBuff c)"
    using wq.put_inv [OF assms, of "[FLAG_FIN OR of_nat OCN_PONG, 0]" junk]
      wq.put_pending [OF assms, of "[FLAG_FIN OR of_nat OCN_PONG, 0]" junk]
      wq.put_inflight [OF assms, of "[FLAG_FIN OR of_nat OCN_PONG, 0]" junk]
    by (simp_all add: FLAG_FIN_def OCN_PONG_def)
  let ?c = "StartAsyncWrite (c\<lparr>ws_WriteBuff := ?q\<rparr>)"
  have "DispatchFrame junk True OCN_PING payload n c = Some (CR_NONE, ?c)"
    by (simp add: DispatchFrame_def ProcessControlFrame_def ocn_defs SendControlFrame_put [OF assms])
  moreover have "queue_bytes ?c = queue_bytes c @ [0x8A, 0]"
    using StartAsyncWrite_queue(1) [of "c\<lparr>ws_WriteBuff := ?q\<rparr>"] q by (simp add: queue_bytes_def)
  moreover have "ws_FragOpCode ?c = ws_FragOpCode c" "ws_FragMsgData ?c = ws_FragMsgData c"
    "ws_MyHandler ?c = ws_MyHandler c"
    using write_loop_keeps [of "c\<lparr>ws_WriteBuff := ?q\<rparr>"] by (simp_all add: StartAsyncWrite_def)
  ultimately show ?thesis by blast
qed

lemma ws_init_queue: "ws_WriteBuff (ws_init junk) = wq_init junk WriteBuffSize" "wq_inv (wq_init junk WriteBuffSize)"
  "queue_bytes (ws_init junk) = []"
proof -
  show w: "ws_WriteBuff (ws_init junk) = wq_init junk WriteBuffSize"
    by (simp add: ws_init_def StartAsyncRead_def ClearSafeState_def ws_call_def case_prod_beta)
  show "wq_inv (wq_init junk WriteBuffSize)"
    by (rule wq_base_init) (simp_all add: WriteBuffSize_def)
  show "queue_bytes (ws_init junk) = []"
    by (simp add: queue_bytes_def w wq_init_def wq_inflight_def wq_pending_def)
qed

theorem ping_answered_witness:
  "\<exists>c'. DispatchFrame (\<lambda>_. 0) True OCN_PING (Some []) 0 (ws_init (\<lambda>_. 0)) = Some (CR_NONE, c')
    \<and> queue_bytes c' = [0x8A, 0]"
proof -
  have "wq_may 2 (ws_WriteBuff (ws_init (\<lambda>_. 0)))"
    by (simp add: ws_init_queue wq_may_def wq_init_def)
  moreover have "wq_inv (ws_WriteBuff (ws_init (\<lambda>_. 0)))"
    by (simp add: ws_init_queue)
  ultimately show ?thesis
    using ping_answered [of "ws_init (\<lambda>_. 0)" "\<lambda>_. 0" "Some []" 0] by (auto simp: ws_init_queue(3))
qed

lemma seg_fresh: "p + n \<le> k \<Longrightarrow> seg (fresh junk k) p n = map junk [p..<p + n]"
  by (simp add: seg_def fresh_def drop_map take_map)

text \<open>Note: the close frame does not carry its reason. On a new connection every reason code
  gives the same four bytes: the close opcode, the length 2 and two bytes of the buffer as they
  were, because the reason is stored four bytes into the frame, behind its end.\<close>

theorem close_frame_without_reason:
  "\<exists>c'. SendCloseInternal junk reason (ws_init junk) = Some (True, c')
    \<and> wq_pending (ws_WriteBuff c') = [0x88, 2, junk 2, junk 3]"
proof -
  let ?m = "fresh junk 4096"
  let ?m1 = "mem_write ?m 0 [0x88, 2]"
  let ?m2 = "mem_write ?m1 4 (be_bytes 2 reason)"
  let ?b = "\<lparr>bf_Buff = StaticPtr 0, bf_Length = 4, bf_AllocLength = 4, bf_State = BS_ALLOCATED\<rparr>"
  have al: "Allocate junk 4 (wq_init junk WriteBuffSize) = (Some (StaticPtr 0),
      (wq_init junk WriteBuffSize)\<lparr>wq_LastAllocLength := 4, wq_FIFOFreeBegin := 4, wq_OutBuffA := [?b]\<rparr>)"
    by (simp add: Allocate_def Let_def fifo_place_def GetContinousFreeFIFOLength_def wq_init_def WriteBuffSize_def
        u32_simps extends_last_def)
  have l: "length ?m1 = 4096" "length ?m2 = 4096"
    by (simp_all add: mem_simps)
  let ?q = "(wq_init junk WriteBuffSize)\<lparr>wq_mem := ?m2, wq_LastAllocLength := 4, wq_FIFOFreeBegin := 4,
    wq_OutBuffA := [?b\<lparr>bf_State := BS_PENDING\<rparr>]\<rparr>"
  have "SendCloseInternal junk reason (ws_init junk) = Some (True, (ws_init junk)\<lparr>ws_WriteBuff := ?q\<rparr>)"
    unfolding SendCloseInternal_def ws_init_queue(1) al
    using l(1) by (simp add: wq_init_def WriteBuffSize_def Commit_def FLAG_FIN_def ocn_defs)
  moreover have "wq_pending ?q = seg ?m2 0 4"
    by (simp add: wq_pending_def bf_bytes_def wq_init_def)
  moreover have "seg ?m2 0 4 = seg ?m1 0 4"
    by (simp add: mem_simps)
  moreover have "seg ?m1 0 4 = seg ?m1 0 2 @ seg ?m1 2 2"
    by (simp add: seg_extend)
  moreover have "seg ?m1 0 2 = [0x88, 2]" "seg ?m1 2 2 = seg ?m 2 2"
    using seg_mem_write_same [of 0 "[0x88, 2]" ?m] by (simp_all add: mem_simps eval_nat_numeral)
  moreover have "seg ?m 2 2 = [junk 2, junk 3]"
    using seg_fresh [of 2 2 4096 junk] by (simp add: upt_rec)
  ultimately show ?thesis
    by (intro exI [of _ "(ws_init junk)\<lparr>ws_WriteBuff := ?q\<rparr>"]) simp
qed

end
