(* ===== verification/MultipartScan.thy ===== *)
theory MultipartScan
  imports Prelude "HOL-Library.Sublist"
begin

text \<open>
  The boundary scanner of \<open>QueryParams::AppendFormMultipart\<close> (QueryParams.cpp): it receives a
  multipart body in pieces of any size and calls \<open>AppendToCurrentPart\<close> with content and
  \<open>StartNewPart\<close> at every boundary. Positions are offsets into the current piece;
  \<open>BoundaryParseCounter\<close> and \<open>ParseTmp\<close> carry a partial match from one piece to the next.
\<close>

section \<open>The scanner\<close>

datatype mp_call = AppendPart string | NewPart

text \<open>The loop state: \<open>Pos\<close>, \<open>ContentBegin\<close>, \<open>BoundaryParseCounter\<close>, \<open>ParseTmp\<close>, calls made.\<close>

record mp_state =
  mp_Pos :: nat
  mp_ContentBegin :: nat
  mp_Counter :: nat
  mp_ParseTmp :: string
  mp_Calls :: "mp_call list"

text \<open>The inner loop: to the character after the next CR, or to the end.\<close>

definition skip_to_CR :: "string \<Rightarrow> nat \<Rightarrow> nat \<times> nat" where
  "skip_to_CR buf pos =
     (let k = length (takeWhile (\<lambda>c. c \<noteq> CHR 0x0D) (drop pos buf))
      in if pos + k < length buf then (pos + k + 1, 1) else (length buf, 0))"

text \<open>One round of the outer loop after the inner one.\<close>

definition full_match :: "string \<Rightarrow> mp_state \<Rightarrow> mp_state" where
  "full_match buf s =
     s\<lparr>mp_Calls := mp_Calls s
         @ (if mp_Pos s < mp_Counter s
            then (if length (mp_ParseTmp s) > mp_Counter s - mp_Pos s
                  then [AppendPart (take (length (mp_ParseTmp s) - (mp_Counter s - mp_Pos s)) (mp_ParseTmp s))]
                  else [])
            else if mp_ContentBegin s < mp_Pos s - mp_Counter s
            then [AppendPart (seg buf (mp_ContentBegin s) (mp_Pos s - mp_Counter s - mp_ContentBegin s))]
            else [])
         @ [NewPart],
       mp_Counter := 0, mp_ParseTmp := [], mp_ContentBegin := mp_Pos s\<rparr>"

definition match_round :: "string \<Rightarrow> string \<Rightarrow> mp_state \<Rightarrow> mp_state" where
  "match_round boundary buf s =
     (if buf ! mp_Pos s = deref (drop (mp_Counter s) boundary)
      then let s1 = s\<lparr>mp_Counter := Suc (mp_Counter s), mp_Pos := Suc (mp_Pos s)\<rparr>
           in if mp_Counter s1 = length boundary then full_match buf s1 else s1
      else if mp_Counter s \<noteq> 0
      then s\<lparr>mp_Calls := mp_Calls s
               @ (if mp_ParseTmp s \<noteq> [] then [AppendPart (mp_ParseTmp s)] else [])
               @ [AppendPart (seg buf (mp_ContentBegin s) (mp_Pos s - mp_ContentBegin s))],
             mp_ParseTmp := [], mp_Counter := 0, mp_ContentBegin := mp_Pos s\<rparr>
      else s\<lparr>mp_Pos := Suc (mp_Pos s)\<rparr>)"

function mp_loop :: "string \<Rightarrow> string \<Rightarrow> mp_state \<Rightarrow> mp_state" where
  "mp_loop boundary buf s =
     (if mp_Pos s < length buf
      then if mp_Counter s = 0
           then let (pos, counter) = skip_to_CR buf (mp_Pos s);
                    s1 = s\<lparr>mp_Pos := pos, mp_Counter := counter\<rparr>
                in if pos < length buf then mp_loop boundary buf (match_round boundary buf s1) else s1
           else mp_loop boundary buf (match_round boundary buf s)
      else s)"
  by auto
termination
  by (relation "measure (\<lambda>(b, buf, s). 2 * (length buf - mp_Pos s) + (if mp_Counter s = 0 then 0 else 1))")
    (auto simp: skip_to_CR_def match_round_def full_match_def Let_def split: if_splits)

declare mp_loop.simps [simp del]

text \<open>\<open>AppendFormMultipart\<close> on one piece: the counter and the kept text afterwards, and the
  calls made.\<close>

definition AppendFormMultipart :: "string \<Rightarrow> string \<Rightarrow> nat \<times> string \<Rightarrow> (nat \<times> string) \<times> mp_call list" where
  "AppendFormMultipart boundary buf st =
     (let s = mp_loop boundary buf \<lparr>mp_Pos = 0, mp_ContentBegin = 0, mp_Counter = fst st,
                mp_ParseTmp = snd st, mp_Calls = []\<rparr>
      in if mp_Counter s \<noteq> 0
         then ((mp_Counter s, mp_ParseTmp s @ drop (mp_Pos s - mp_Counter s) (take (mp_Pos s) buf)),
               mp_Calls s @ [AppendPart (seg buf (mp_ContentBegin s)
                  (mp_Pos s - mp_Counter s - mp_ContentBegin s))])
         else ((mp_Counter s, mp_ParseTmp s),
               mp_Calls s @ (if mp_Pos s \<noteq> 0
                  then [AppendPart (seg buf (mp_ContentBegin s) (mp_Pos s - mp_ContentBegin s))] else [])))"

definition OnBoundaryParsed :: "string \<Rightarrow> string" where
  "OnBoundaryParsed boundaryStr = CHR 0x0D # CHR 0x0A # ''--'' @ boundaryStr"

text \<open>A body received in pieces, from the state of a new \<open>QueryParams\<close>.\<close>

fun scan_pieces :: "string \<Rightarrow> string list \<Rightarrow> nat \<times> string \<Rightarrow> mp_call list" where
  "scan_pieces boundary [] st = []"
| "scan_pieces boundary (x # xs) st =
     (let (st', calls) = AppendFormMultipart boundary x st in calls @ scan_pieces boundary xs st')"

section \<open>The reference automaton\<close>

text \<open>The content of the parts, in order; the last one is being received.\<close>

definition add_part :: "string \<Rightarrow> string list \<Rightarrow> string list" where
  "add_part s out = butlast out @ [last out @ s]"

fun play :: "mp_call \<Rightarrow> string list \<Rightarrow> string list" where
  "play (AppendPart s) out = add_part s out"
| "play NewPart out = out @ [[]]"

lemma add_part_simps [simp]: "out \<noteq> [] \<Longrightarrow> add_part [] out = out" "add_part t (add_part s out) = add_part (s @ t) out"
  "add_part s out \<noteq> []"
  by (simp_all add: add_part_def)

lemma play_nonempty: "out \<noteq> [] \<Longrightarrow> play c out \<noteq> []"
  by (cases c) simp_all

lemma fold_play_nonempty: "out \<noteq> [] \<Longrightarrow> fold play cs out \<noteq> []"
  by (induction cs arbitrary: out) (simp_all add: play_nonempty)

text \<open>Character by character: how much of the boundary is matched, the characters held back for
  it, and the parts.\<close>

fun ref_step :: "string \<Rightarrow> char \<Rightarrow> nat \<times> string \<times> string list \<Rightarrow> nat \<times> string \<times> string list" where
  "ref_step bd c (m, held, out) =
     (if c = bd ! m
      then if Suc m = length bd then (0, [], out @ [[]]) else (Suc m, held @ [c], out)
      else if c = CHR 0x0D then (1, [c], add_part held out)
      else (0, [], add_part (held @ [c]) out))"

definition boundary_ok :: "string \<Rightarrow> bool" where
  "boundary_ok bd \<longleftrightarrow> 2 < length bd \<and> hd bd = CHR 0x0D \<and> CHR 0x0D \<notin> set (tl bd)"

text \<open>How a loop state and the automaton correspond: what is held back is the kept text and the
  last characters of the piece; what is not yet handed out lies before them.\<close>

definition scan_rel :: "string \<Rightarrow> string \<Rightarrow> string list \<Rightarrow> mp_state \<Rightarrow> nat \<times> string \<times> string list \<Rightarrow> bool" where
  "scan_rel bd buf out0 s r \<longleftrightarrow> (case r of (m, held, out) \<Rightarrow>
     m = mp_Counter s \<and> m < length bd \<and> mp_Pos s \<le> length buf \<and>
     (if mp_ParseTmp s = [] \<and> m \<le> mp_Pos s
      then mp_ContentBegin s \<le> mp_Pos s - m \<and> held = seg buf (mp_Pos s - m) m
        \<and> out = add_part (seg buf (mp_ContentBegin s) (mp_Pos s - m - mp_ContentBegin s)) (fold play (mp_Calls s) out0)
      else mp_ContentBegin s = 0 \<and> mp_Calls s = [] \<and> held = mp_ParseTmp s @ take (mp_Pos s) buf \<and> out = out0
        \<and> (m = length held \<or> m = length held + 2)))"

section \<open>The scanner follows the automaton\<close>

lemma boundary_okD:
  assumes "boundary_ok bd"
  shows "2 < length bd" "bd ! 0 = CHR 0x0D" "0 < i \<Longrightarrow> i < length bd \<Longrightarrow> bd ! i \<noteq> CHR 0x0D"
proof -
  show l: "2 < length bd" and "bd ! 0 = CHR 0x0D"
    using assms by (cases bd; simp add: boundary_ok_def)+
  show "bd ! i \<noteq> CHR 0x0D" if "0 < i" "i < length bd"
  proof -
    have "bd ! i = tl bd ! (i - 1)" "i - 1 < length (tl bd)"
      using that by (simp_all add: nth_tl)
    then have "bd ! i \<in> set (tl bd)"
      by (metis nth_mem)
    then show ?thesis using assms by (auto simp: boundary_ok_def)
  qed
qed

lemma deref_drop: "m < length bd \<Longrightarrow> deref (drop m bd) = bd ! m"
  by (simp add: deref_def Cons_nth_drop_Suc [symmetric])

lemma ref_skip:
  assumes "boundary_ok bd" "CHR 0x0D \<notin> set ws" "out \<noteq> []"
  shows "fold (ref_step bd) ws (0, [], out) = (0, [], add_part ws out)"
  using assms(2,3)
proof (induction ws arbitrary: out)
  case (Cons c ws)
  then have "c \<noteq> bd ! 0" "c \<noteq> CHR 0x0D"
    using boundary_okD(2) [OF assms(1)] by auto
  then show ?case
    using Cons by simp
qed simp

lemma ref_mismatch:
  assumes "boundary_ok bd" "m < length bd" "c \<noteq> bd ! m" "out \<noteq> []"
  shows "ref_step bd c (m, held, out) = ref_step bd c (0, [], add_part held out)"
  using assms boundary_okD [OF assms(1)] by auto

lemma scan_rel_zero:
  assumes "scan_rel bd buf out0 s r" "mp_Counter s = 0" "out0 \<noteq> []"
  shows "mp_ParseTmp s = []" "mp_ContentBegin s \<le> mp_Pos s"
    "r = (0, [], add_part (seg buf (mp_ContentBegin s) (mp_Pos s - mp_ContentBegin s)) (fold play (mp_Calls s) out0))"
  using assms by (auto simp: scan_rel_def split: if_splits)

lemma skip_rel:
  assumes "boundary_ok bd" "scan_rel bd buf out0 s r" "mp_Counter s = 0" "out0 \<noteq> []" "mp_Pos s < length buf"
  shows "scan_rel bd buf out0 (s\<lparr>mp_Pos := fst (skip_to_CR buf (mp_Pos s)), mp_Counter := snd (skip_to_CR buf (mp_Pos s))\<rparr>)
      (fold (ref_step bd) (seg buf (mp_Pos s) (fst (skip_to_CR buf (mp_Pos s)) - mp_Pos s)) r)"
    "mp_Pos s < fst (skip_to_CR buf (mp_Pos s))" "fst (skip_to_CR buf (mp_Pos s)) \<le> length buf"
    "fst (skip_to_CR buf (mp_Pos s)) < length buf \<Longrightarrow> snd (skip_to_CR buf (mp_Pos s)) = 1"
proof -
  note Z = scan_rel_zero [OF assms(2-4)]
  let ?P = "mp_Pos s" and ?cb = "mp_ContentBegin s"
  let ?out = "fold play (mp_Calls s) out0"
  let ?w = "takeWhile (\<lambda>c. c \<noteq> CHR 0x0D) (drop ?P buf)"
  let ?k = "length ?w"
  have ne: "?out \<noteq> []"
    using assms(4) by (rule fold_play_nonempty)
  have w: "?w = seg buf ?P ?k" "CHR 0x0D \<notin> set ?w"
    unfolding seg_def by (rule takeWhile_eq_take, auto dest: set_takeWhileD)
  have k: "?k \<le> length buf - ?P"
    using length_takeWhile_le [of _ "drop ?P buf"] by simp
  have run: "fold (ref_step bd) ?w r = (0, [], add_part (seg buf ?cb (?P + ?k - ?cb)) ?out)"
    using ref_skip [OF assms(1) w(2), of "add_part (seg buf ?cb (?P - ?cb)) ?out"] Z(2) ne
      seg_extend [of ?P ?cb "?P - ?cb" buf ?k] by (simp add: Z(3) w(1) [symmetric])
  have l: "2 < length bd" "bd \<noteq> []"
    using boundary_okD(1) [OF assms(1)] by auto
  show "mp_Pos s < fst (skip_to_CR buf ?P)" "fst (skip_to_CR buf ?P) \<le> length buf"
    "fst (skip_to_CR buf ?P) < length buf \<Longrightarrow> snd (skip_to_CR buf ?P) = 1"
    using assms(5) by (auto simp: skip_to_CR_def Let_def split: if_splits)
  show "scan_rel bd buf out0 (s\<lparr>mp_Pos := fst (skip_to_CR buf ?P), mp_Counter := snd (skip_to_CR buf ?P)\<rparr>)
      (fold (ref_step bd) (seg buf ?P (fst (skip_to_CR buf ?P) - ?P)) r)"
  proof (cases "?P + ?k < length buf")
    case False
    then have e: "?P + ?k = length buf" using k assms(5) by linarith
    then have sk: "skip_to_CR buf ?P = (length buf, 0)" "length buf - ?P = ?k"
      by (simp_all add: skip_to_CR_def Let_def)
    show ?thesis
      unfolding sk fst_conv snd_conv w(1) [symmetric] run
      using Z e l assms(5) by (simp add: scan_rel_def)
  next
    case True
    then have sk: "skip_to_CR buf ?P = (?P + ?k + 1, 1)"
      by (simp add: skip_to_CR_def Let_def)
    have cr: "seg buf (?P + ?k) 1 = [CHR 0x0D]"
    proof -
      have "drop ?P buf ! ?k = CHR 0x0D"
        using True nth_length_takeWhile [of "\<lambda>c. c \<noteq> CHR 0x0D" "drop ?P buf"] by simp
      then have "buf ! (?P + ?k) = CHR 0x0D"
        using True by simp
      then show ?thesis
        using True by (simp add: seg_def take_Suc hd_drop_conv_nth)
    qed
    then have "seg buf ?P (?P + ?k + 1 - ?P) = ?w @ [CHR 0x0D]"
      using seg_extend [of "?P + ?k" ?P ?k buf 1] w(1) by simp
    then show ?thesis
      unfolding sk fst_conv snd_conv fold_append comp_def run
      using Z l True cr boundary_okD(2) [OF assms(1)] run by (simp add: scan_rel_def)
  qed
qed

lemma round_rel:
  assumes "boundary_ok bd" "scan_rel bd buf out0 s r" "out0 \<noteq> []" "mp_Pos s < length buf" "mp_Counter s \<noteq> 0"
  shows "\<exists>r'. scan_rel bd buf out0 (match_round bd buf s) r'
    \<and> fold (ref_step bd) (drop (mp_Pos (match_round bd buf s)) buf) r' = fold (ref_step bd) (drop (mp_Pos s) buf) r"
proof -
  obtain m held out where r: "r = (m, held, out)" by (cases r) auto
  note R = assms(2) [unfolded scan_rel_def r prod.case]
  let ?P = "mp_Pos s" and ?c = "buf ! mp_Pos s"
  have m: "m = mp_Counter s" "m < length bd" "m \<noteq> 0" using R assms(5) by auto
  have d: "drop ?P buf = ?c # drop (Suc ?P) buf"
    using assms(4) by (simp add: Cons_nth_drop_Suc)
  have ne: "fold play (mp_Calls s) out0 \<noteq> []" using assms(3) by (rule fold_play_nonempty)
  have sg: "seg buf (?P - m) (Suc m) = seg buf (?P - m) m @ [?c]" if "m \<le> ?P"
    using that assms(4) seg_extend [of ?P "?P - m" m buf 1] by (simp add: seg_def take_Suc hd_drop_conv_nth)
  have tk: "take (Suc ?P) buf = take ?P buf @ [?c]"
    using assms(4) by (rule take_Suc_conv_app_nth)
  consider (full) "?c = bd ! m" "Suc m = length bd" | (part) "?c = bd ! m" "Suc m < length bd" | (broken) "?c \<noteq> bd ! m"
    using m(2) by linarith
  then show ?thesis
  proof cases
    case full
    have st: "ref_step bd ?c r = (0, [], out @ [[]])"
      using full by (simp add: r)
    have mr: "match_round bd buf s = full_match buf (s\<lparr>mp_Counter := Suc m, mp_Pos := Suc ?P\<rparr>)"
      using full m by (simp add: match_round_def deref_drop Let_def)
    have "scan_rel bd buf out0 (match_round bd buf s) (ref_step bd ?c r)"
    proof (cases "mp_ParseTmp s = [] \<and> m \<le> ?P")
      case True
      moreover have "Suc ?P - length bd = ?P - m" "Suc ?P - (length bd + j) = ?P - (m + j)" for j
        using full(2) by simp_all
      ultimately show ?thesis
        using R m full(2) assms(4) ne unfolding mr st
        by (auto simp: scan_rel_def full_match_def fold_play_nonempty)
    next
      case False
      then have "\<not> Suc m \<le> Suc ?P" "\<not> Suc m - Suc ?P < length (mp_ParseTmp s)"
        using R assms(4) by (auto split: if_splits)
      then show ?thesis
        using False R m full(2) assms(4) unfolding mr st
        by (auto simp: scan_rel_def full_match_def)
    qed
    then show ?thesis
      by (intro exI [of _ "ref_step bd ?c r"]) (simp add: d mr full_match_def)
  next
    case part
    have "match_round bd buf s = s\<lparr>mp_Counter := Suc m, mp_Pos := Suc ?P\<rparr>"
      using part m by (simp add: match_round_def deref_drop Let_def)
    moreover have "scan_rel bd buf out0 (s\<lparr>mp_Counter := Suc m, mp_Pos := Suc ?P\<rparr>) (ref_step bd ?c r)"
      using R part assms(4) sg tk by (auto simp: r scan_rel_def split: if_splits)
    ultimately show ?thesis
      by (intro exI [of _ "ref_step bd ?c r"]) (simp add: d)
  next
    case broken
    have "scan_rel bd buf out0 (match_round bd buf s) (0, [], add_part held out)"
    proof (cases "mp_ParseTmp s = [] \<and> m \<le> ?P")
      case True
      then have "seg buf (mp_ContentBegin s) (?P - m - mp_ContentBegin s) @ seg buf (?P - m) m =
          seg buf (mp_ContentBegin s) (?P - mp_ContentBegin s)"
        using R by (subst seg_extend) auto
      then show ?thesis
        using True R m broken assms(4) ne by (auto simp: match_round_def deref_drop scan_rel_def)
    next
      case False
      then show ?thesis
        using R m broken assms(3,4) by (auto simp: match_round_def deref_drop scan_rel_def seg_def)
    qed
    moreover have "mp_Pos (match_round bd buf s) = ?P"
      using broken m by (simp add: match_round_def deref_drop)
    moreover have "out \<noteq> []"
      using R assms(3) by (auto split: if_splits)
    ultimately show ?thesis
      using ref_mismatch [OF assms(1) m(2) broken, of out held]
      by (intro exI [of _ "(0, [], add_part held out)"]) (simp add: d r)
  qed
qed


lemma match_round_pos: "mp_Pos s < length buf \<Longrightarrow> mp_Pos (match_round bd buf s) \<le> length buf"
  by (simp add: match_round_def full_match_def Let_def)

lemma loop_rel:
  assumes "boundary_ok bd" "scan_rel bd buf out0 s r" "out0 \<noteq> []"
  shows "scan_rel bd buf out0 (mp_loop bd buf s) (fold (ref_step bd) (drop (mp_Pos s) buf) r)
    \<and> mp_Pos (mp_loop bd buf s) = length buf"
  using assms(1,2)
proof (induction bd buf s arbitrary: r rule: mp_loop.induct)
  case (1 bd buf s)
  note ok = 1(3) and rel = 1(4)
  have le: "mp_Pos s \<le> length buf"
    using rel by (auto simp: scan_rel_def)
  let ?sk = "skip_to_CR buf (mp_Pos s)"
  let ?s1 = "s\<lparr>mp_Pos := fst ?sk, mp_Counter := snd ?sk\<rparr>"
  consider (end_) "mp_Pos s = length buf" | (skip) "mp_Pos s < length buf" "mp_Counter s = 0"
    | (round) "mp_Pos s < length buf" "mp_Counter s \<noteq> 0"
    using le by linarith
  then show ?case
  proof cases
    case end_
    then show ?thesis
      using rel by (subst (1 2) mp_loop.simps) simp
  next
    case round
    obtain r' where r': "scan_rel bd buf out0 (match_round bd buf s) r'"
      "fold (ref_step bd) (drop (mp_Pos (match_round bd buf s)) buf) r' = fold (ref_step bd) (drop (mp_Pos s) buf) r"
      using round_rel [OF ok rel assms(3) round] by blast
    have "mp_loop bd buf s = mp_loop bd buf (match_round bd buf s)"
      using round by (subst mp_loop.simps) simp
    then show ?thesis
      using 1(2) [OF round ok r'(1)] r'(2) by simp
  next
    case skip
    note S = skip_rel [OF ok rel skip(2) assms(3) skip(1)]
    let ?r1 = "fold (ref_step bd) (seg buf (mp_Pos s) (fst ?sk - mp_Pos s)) r"
    have "drop (mp_Pos s) buf = seg buf (mp_Pos s) (fst ?sk - mp_Pos s) @ drop (fst ?sk) buf"
      using S(2) by (simp add: seg_def) (metis append_take_drop_id drop_drop le_add_diff_inverse2 less_imp_le)
    then have run: "fold (ref_step bd) (drop (mp_Pos s) buf) r = fold (ref_step bd) (drop (fst ?sk) buf) ?r1"
      by (metis comp_apply fold_append)
    show ?thesis
    proof (cases "fst ?sk < length buf")
      case False
      then have "fst ?sk = length buf" "mp_loop bd buf s = ?s1"
        using S(3) skip by (simp, subst mp_loop.simps, simp add: case_prod_beta)
      then show ?thesis
        using S(1) run by simp
    next
      case True
      have "mp_Pos ?s1 < length buf" "mp_Counter ?s1 \<noteq> 0"
        using True S(4) by simp_all
      then obtain r' where r': "scan_rel bd buf out0 (match_round bd buf ?s1) r'"
        "fold (ref_step bd) (drop (mp_Pos (match_round bd buf ?s1)) buf) r' = fold (ref_step bd) (drop (fst ?sk) buf) ?r1"
        using round_rel [OF ok S(1) assms(3)] by auto
      have "mp_loop bd buf s = mp_loop bd buf (match_round bd buf ?s1)"
        using True skip by (subst mp_loop.simps) (simp add: case_prod_beta)
      moreover have "scan_rel bd buf out0 (mp_loop bd buf (match_round bd buf ?s1))
          (fold (ref_step bd) (drop (mp_Pos (match_round bd buf ?s1)) buf) r')
        \<and> mp_Pos (mp_loop bd buf (match_round bd buf ?s1)) = length buf"
        by (rule 1(1) [OF skip refl prod.collapse refl True ok r'(1)])
      ultimately show ?thesis
        using r'(2) run by simp
    qed
  qed
qed

text \<open>Between two pieces: what is held back is the kept text.\<close>

definition piece_rel :: "nat \<times> string \<Rightarrow> nat \<times> string \<times> string list \<Rightarrow> string \<Rightarrow> bool" where
  "piece_rel st r bd \<longleftrightarrow> fst r = fst st \<and> fst st < length bd \<and> fst (snd r) = snd st
     \<and> (fst st = length (snd st) \<or> fst st = length (snd st) + 2)"

lemma piece_step:
  assumes "boundary_ok bd" "piece_rel st (m, held, out) bd" "out \<noteq> []"
  shows "case fold (ref_step bd) x (m, held, out) of (m', held', out') \<Rightarrow>
    piece_rel (fst (AppendFormMultipart bd x st)) (m', held', out') bd
    \<and> out' = fold play (snd (AppendFormMultipart bd x st)) out"
proof -
  let ?init = "\<lparr>mp_Pos = 0, mp_ContentBegin = 0, mp_Counter = fst st, mp_ParseTmp = snd st, mp_Calls = []\<rparr>"
  let ?s = "mp_loop bd x ?init"
  have "scan_rel bd x out ?init (m, held, out)"
    using assms by (auto simp: scan_rel_def piece_rel_def)
  then have L: "scan_rel bd x out ?s (fold (ref_step bd) x (m, held, out))" "mp_Pos ?s = length x"
    using loop_rel [OF assms(1) _ assms(3), of x ?init "(m, held, out)"] by simp_all
  obtain m' held' out' where r: "fold (ref_step bd) x (m, held, out) = (m', held', out')"
    by (cases "fold (ref_step bd) x (m, held, out)") auto
  note R = L(1) [unfolded r scan_rel_def prod.case L(2)]
  have ne: "fold play (mp_Calls ?s) out \<noteq> []"
    using assms(3) by (rule fold_play_nonempty)
  show ?thesis
  proof (cases "mp_ParseTmp ?s = [] \<and> m' \<le> length x")
    case True
    then show ?thesis
      using R ne L(2) unfolding r
      by (auto simp: AppendFormMultipart_def Let_def piece_rel_def seg_def)
  next
    case False
    then have "length x < m' \<or> mp_ParseTmp ?s \<noteq> [] \<and> length x \<le> m'" "m' \<noteq> 0"
      using R by auto
    then show ?thesis
      using False R ne L(2) assms(3) unfolding r
      by (auto simp: AppendFormMultipart_def Let_def piece_rel_def)
  qed
qed


lemma pieces_ref:
  assumes "boundary_ok bd" "piece_rel st (m, held, out) bd" "out \<noteq> []"
  shows "fold play (scan_pieces bd xs st) out = snd (snd (fold (ref_step bd) (concat xs) (m, held, out)))"
  using assms(2,3)
proof (induction xs arbitrary: st m held out)
  case (Cons x xs)
  let ?A = "AppendFormMultipart bd x st"
  obtain m' held' out' where r: "fold (ref_step bd) x (m, held, out) = (m', held', out')"
    by (cases "fold (ref_step bd) x (m, held, out)") auto
  have "piece_rel (fst ?A) (m', held', out') bd \<and> out' = fold play (snd ?A) out"
    using piece_step [OF assms(1) Cons.prems, of x] unfolding r prod.case .
  then have p: "piece_rel (fst ?A) (m', held', out') bd" "out' = fold play (snd ?A) out"
    by blast+
  then show ?case
    using Cons.IH [OF p(1)] Cons.prems(2) by (simp add: r case_prod_beta fold_play_nonempty)
qed simp

section \<open>What the automaton computes\<close>

lemma ref_inside:
  assumes "boundary_ok bd" "\<not> sublist bd p" "out \<noteq> []"
  shows "\<exists>m e. fold (ref_step bd) p (0, [], out) = (m, take m bd, add_part e out) \<and> m < length bd \<and> e @ take m bd = p"
  using assms(2)
proof (induction p rule: rev_induct)
  case Nil
  then show ?case
    using boundary_okD(1) [OF assms(1)] assms(3) by (intro exI [of _ 0] exI [of _ "[]"]) auto
next
  case (snoc c p)
  have "\<not> sublist bd p"
    using snoc.prems by (meson sublist_appendI sublist_order.order.trans sublist_append_rightI)
  then obtain m e where m: "fold (ref_step bd) p (0, [], out) = (m, take m bd, add_part e out)"
    "m < length bd" "e @ take m bd = p"
    using snoc.IH by blast
  note D = boundary_okD [OF assms(1)]
  show ?case
  proof (cases "c = bd ! m")
    case True
    then have h: "take m bd @ [c] = take (Suc m) bd"
      using m(2) by (simp add: take_Suc_conv_app_nth)
    have "Suc m \<noteq> length bd"
    proof
      assume "Suc m = length bd"
      then have "p @ [c] = e @ bd"
        using m(3) h by (metis append_assoc order_refl take_all)
      then show False
        using snoc.prems by (metis sublist_append_leftI)
    qed
    then show ?thesis
      using True m h by (intro exI [of _ "Suc m"] exI [of _ e]) auto
  next
    case False
    have "take 1 bd = [CHR 0x0D]"
      using D(1,2) by (cases bd) auto
    then show ?thesis
      using False m D(1) by (intro exI [of _ "if c = CHR 0x0D then 1 else 0"]
          exI [of _ "if c = CHR 0x0D then p else p @ [c]"]) auto
  qed
qed

lemma ref_match:
  assumes "k < length bd"
  shows "fold (ref_step bd) (drop k bd) (k, h, out) = (0, [], out @ [[]])"
  using assms
proof (induction "length bd - k" arbitrary: k h)
  case (Suc n)
  have d: "drop k bd = bd ! k # drop (Suc k) bd"
    using Suc.prems by (simp add: Cons_nth_drop_Suc)
  show ?case
  proof (cases "Suc k = length bd")
    case False
    then show ?thesis
      using Suc(1) [of "Suc k" "h @ [bd ! k]"] Suc(2,3) by (simp add: d)
  qed (simp add: d)
qed simp

lemma ref_part:
  assumes "boundary_ok bd" "\<not> sublist bd p" "out \<noteq> []"
  shows "fold (ref_step bd) (p @ bd) (0, [], out) = (0, [], add_part p out @ [[]])"
proof -
  note D = boundary_okD [OF assms(1)]
  obtain m e where m: "fold (ref_step bd) p (0, [], out) = (m, take m bd, add_part e out)"
    "m < length bd" "e @ take m bd = p"
    using ref_inside [OF assms] by blast
  have "ref_step bd (CHR 0x0D) (m, take m bd, add_part e out) = (1, [CHR 0x0D], add_part p out)"
    using m(2,3) D(1,2) D(3) [of m] by (cases "m = 0") auto
  moreover have "bd = CHR 0x0D # drop 1 bd"
    using D(1,2) by (cases bd) auto
  then have "fold (ref_step bd) bd r = fold (ref_step bd) (drop 1 bd) (ref_step bd (CHR 0x0D) r)" for r
    by (metis comp_apply fold_simps(2))
  ultimately show ?thesis
    using ref_match [of 1 bd "[CHR 0x0D]"] D(1) by (simp add: m(1))
qed

lemma ref_parts:
  assumes "boundary_ok bd" "\<forall>p \<in> set ps. \<not> sublist bd p"
  shows "fold (ref_step bd) (concat (map (\<lambda>p. p @ bd) ps)) (0, [], pre @ [[]]) = (0, [], pre @ ps @ [[]])"
  using assms(2)
proof (induction ps arbitrary: pre)
  case (Cons p ps)
  have "fold (ref_step bd) (p @ bd) (0, [], pre @ [[]]) = (0, [], (pre @ [p]) @ [[]])"
    using ref_part [OF assms(1), of p "pre @ [[]]"] Cons.prems by (simp add: add_part_def)
  then show ?case
    using Cons.IH [of "pre @ [p]"] Cons.prems by simp
qed simp

lemma ref_keeps_parts:
  "out \<noteq> [] \<Longrightarrow> \<exists>q. snd (snd (fold (ref_step bd) s (m, h, pre @ out))) = pre @ q"
proof (induction s arbitrary: m h out)
  case (Cons c s)
  have "\<exists>m' h' out'. ref_step bd c (m, h, pre @ out) = (m', h', pre @ out') \<and> out' \<noteq> []"
    using Cons.prems by (auto simp: add_part_def butlast_append)
  then show ?case
    using Cons.IH by fastforce
qed auto

section \<open>Properties\<close>

definition parts_of :: "string \<Rightarrow> string list \<Rightarrow> string list" where
  "parts_of boundary pieces = fold play (scan_pieces boundary pieces (2, [])) [[]]"

lemma parts_ref:
  "boundary_ok bd \<Longrightarrow> parts_of bd xs = snd (snd (fold (ref_step bd) (concat xs) (2, [], [[]])))"
  using pieces_ref [of bd "(2, [])" 2 "[]" "[[]]" xs] by (simp add: parts_of_def piece_rel_def boundary_ok_def)

text \<open>The whole body: behind the last part, the automaton begins with the rest.\<close>

lemma body_ref:
  assumes "CHR 0x0D \<notin> set boundary" "\<forall>p \<in> set ps. \<not> sublist (OnBoundaryParsed boundary) p"
    "concat pieces = ''--'' @ boundary @ concat (map (\<lambda>p. p @ OnBoundaryParsed boundary) ps) @ rest"
  shows "boundary_ok (OnBoundaryParsed boundary)"
    "parts_of (OnBoundaryParsed boundary) pieces = snd (snd (fold (ref_step (OnBoundaryParsed boundary)) rest (0, [], ([] # ps) @ [[]])))"
proof -
  let ?bd = "OnBoundaryParsed boundary"
  show ok: "boundary_ok ?bd"
    using assms(1) by (simp add: boundary_ok_def OnBoundaryParsed_def)
  have body: "concat pieces = drop 2 ?bd @ concat (map (\<lambda>p. p @ ?bd) ps) @ rest"
    using assms(3) by (simp add: OnBoundaryParsed_def)
  have "fold (ref_step ?bd) (drop 2 ?bd) (2, [], [[]]) = (0, [], [[]] @ [[]])"
    using ref_match [of 2 ?bd "[]" "[[]]"] boundary_okD(1) [OF ok] by simp
  then show "parts_of ?bd pieces = snd (snd (fold (ref_step ?bd) rest (0, [], ([] # ps) @ [[]])))"
    using ref_parts [OF ok assms(2), of "[[]]"] unfolding parts_ref [OF ok] body by simp
qed

text \<open>C12: the multipart scanner splits a body at its boundaries, however the body is cut into
  pieces. For a boundary without CR and parts that do not contain it, the content handed to
  the parts is exactly the text between the boundaries: nothing before the first one, then
  every part whole and in order.\<close>

theorem multipart_split:
  assumes "CHR 0x0D \<notin> set boundary" "\<forall>p \<in> set ps. \<not> sublist (OnBoundaryParsed boundary) p"
    "concat pieces = ''--'' @ boundary @ concat (map (\<lambda>p. p @ OnBoundaryParsed boundary) ps) @ rest"
  shows "take (Suc (length ps)) (parts_of (OnBoundaryParsed boundary) pieces) = [] # ps"
  using body_ref [OF assms] ref_keeps_parts [of "[[]]" "OnBoundaryParsed boundary" rest 0 "[]" "[] # ps"] by auto

text \<open>Note: the cutting of a multipart body into pieces has no influence at all on the content
  handed to the parts, also for a body that is malformed or ends in the middle of a boundary.\<close>

theorem multipart_chunking_irrelevant:
  assumes "boundary_ok bd" "concat xs = concat ys"
  shows "parts_of bd xs = parts_of bd ys"
  using assms by (simp add: parts_ref)

theorem multipart_chunking_irrelevant_witness:
  "parts_of (OnBoundaryParsed ''X'') [''--X'', ''ab'', [CHR 0x0D]]
    = parts_of (OnBoundaryParsed ''X'') [''--Xab'' @ [CHR 0x0D]]"
  using multipart_chunking_irrelevant [of "OnBoundaryParsed ''X''" "[''--X'', ''ab'', [CHR 0x0D]]"
    "[''--Xab'' @ [CHR 0x0D]]"] by (simp add: boundary_ok_def OnBoundaryParsed_def)

theorem multipart_split_witness:
  "take 3 (parts_of (OnBoundaryParsed ''X'') [''--'', ''Xone'', CHR 0x0D # CHR 0x0A # ''-'',
      ''-Xtwo'' @ CHR 0x0D # CHR 0x0A # ''--X'', ''--'']) = [[], ''one'', ''two'']"
proof -
  have "take (Suc (length [''one'', ''two''])) (parts_of (OnBoundaryParsed ''X'') [''--'', ''Xone'',
      CHR 0x0D # CHR 0x0A # ''-'', ''-Xtwo'' @ CHR 0x0D # CHR 0x0A # ''--X'', ''--'']) = [] # [''one'', ''two'']"
    by (rule multipart_split [where rest = "''--''"]) (simp_all add: OnBoundaryParsed_def sublist_code)
  then show ?thesis by (simp add: numeral_3_eq_3)
qed

end
