(* ===== verification/CLib.thy ===== *)
theory CLib
  imports StringUtils
begin

text \<open>
  What the code uses of the C library on strings: decimal conversions in both directions and
  \<open>strchr\<close>. Integers are those of the values; the results of \<open>strtoull\<close> and \<open>strtoll\<close> saturate as
  documented.
\<close>

abbreviation ULL_MAX :: nat where
  "ULL_MAX \<equiv> 18446744073709551615"

definition isspace :: "char \<Rightarrow> bool" where
  "isspace c \<longleftrightarrow> c = CHR '' '' \<or> (9 \<le> (of_char c :: nat) \<and> (of_char c :: nat) \<le> 13)"

definition is_digit :: "char \<Rightarrow> bool" where
  "is_digit c \<longleftrightarrow> 48 \<le> (of_char c :: nat) \<and> (of_char c :: nat) \<le> 57"

definition digit_val :: "char \<Rightarrow> nat" where
  "digit_val c = of_char c - 48"

definition digit :: "nat \<Rightarrow> char" where
  "digit n = char_of (48 + n)"

definition digits_val :: "string \<Rightarrow> nat" where
  "digits_val s = foldl (\<lambda>a c. a * 10 + digit_val c) 0 s"

text \<open>\<open>%u\<close>, \<open>%llu\<close>: decimal without leading zeros.\<close>

fun dec :: "nat \<Rightarrow> string" where
  "dec n = (if n < 10 then [digit n] else dec (n div 10) @ [digit (n mod 10)])"

declare dec.simps [simp del]

definition strip_sign :: "string \<Rightarrow> bool \<times> string" where
  "strip_sign s = (case s of c # t \<Rightarrow> if c = CHR ''-'' then (True, t) else if c = CHR ''+'' then (False, t) else (False, s)
     | [] \<Rightarrow> (False, []))"

text \<open>The value and whether anything was converted (\<open>EndPtr != Value\<close>).\<close>

definition strtoull :: "string \<Rightarrow> nat \<times> bool" where
  "strtoull s =
     (let (neg, t) = strip_sign (dropWhile isspace (cstr s)); ds = takeWhile is_digit t; v = digits_val ds
      in if ds = [] then (0, False)
         else if v > ULL_MAX then (ULL_MAX, True)
         else ((if neg then (ULL_MAX + 1 - v) mod (ULL_MAX + 1) else v), True))"

definition strtoll :: "string \<Rightarrow> int \<times> bool" where
  "strtoll s =
     (let (neg, t) = strip_sign (dropWhile isspace (cstr s)); ds = takeWhile is_digit t;
          v = (if neg then - int (digits_val ds) else int (digits_val ds))
      in if ds = [] then (0, False)
         else (max (- (2 ^ 63)) (min (2 ^ 63 - 1) v), True))"

definition atoi :: "string \<Rightarrow> int" where
  "atoi s = fst (strtoll s)"

text \<open>The offset of the first occurrence of a character in a C string.\<close>

definition strchr :: "string \<Rightarrow> char \<Rightarrow> nat option" where
  "strchr s c = (let k = length (takeWhile (\<lambda>x. x \<noteq> c) (cstr s)) in if k < length (cstr s) then Some k else None)"

section \<open>Digits\<close>

lemma digit_facts:
  assumes "n < 10"
  shows "is_digit (digit n)" "digit_val (digit n) = n" "digit n \<noteq> NUL" "\<not> isspace (digit n)"
    "digit n \<noteq> CHR ''-''" "digit n \<noteq> CHR ''+''"
proof -
  have o: "(of_char (digit n) :: nat) = 48 + n"
    using assms by (simp add: digit_def)
  then show "is_digit (digit n)" "digit_val (digit n) = n"
    using assms by (simp_all add: is_digit_def digit_val_def)
  have neq: "digit n \<noteq> c" if "(of_char c :: nat) < 48" for c
    using that o by auto
  show "digit n \<noteq> NUL" "digit n \<noteq> CHR ''-''" "digit n \<noteq> CHR ''+''"
    by (rule neq, simp)+
  then show "\<not> isspace (digit n)"
    using o neq [of "CHR '' ''"] by (simp add: isspace_def)
qed

lemma digits_val_snoc: "digits_val (s @ [c]) = digits_val s * 10 + digit_val c"
  by (simp add: digits_val_def)

lemma dec_facts:
  shows "list_all is_digit (dec n)" "digits_val (dec n) = n" "dec n \<noteq> []" "NUL \<notin> set (dec n)"
    "\<not> isspace (hd (dec n))" "hd (dec n) \<noteq> CHR ''-''" "hd (dec n) \<noteq> CHR ''+''"
proof -
  have "list_all is_digit (dec n) \<and> digits_val (dec n) = n \<and> dec n \<noteq> [] \<and> NUL \<notin> set (dec n)
    \<and> \<not> isspace (hd (dec n)) \<and> hd (dec n) \<noteq> CHR ''-'' \<and> hd (dec n) \<noteq> CHR ''+''"
  proof (induction n rule: dec.induct)
    case (1 n)
    show ?case
    proof (cases "n < 10")
      case True
      then show ?thesis
        using digit_facts [OF True] by (subst dec.simps) (simp add: dec.simps digits_val_def)
    next
      case False
      have m: "n mod 10 < 10" by simp
      have "dec n = dec (n div 10) @ [digit (n mod 10)]"
        using False by (subst dec.simps) simp
      then show ?thesis
        using 1 False digit_facts [OF m] by (simp add: digits_val_snoc)
    qed
  qed
  then show "list_all is_digit (dec n)" "digits_val (dec n) = n" "dec n \<noteq> []" "NUL \<notin> set (dec n)"
    "\<not> isspace (hd (dec n))" "hd (dec n) \<noteq> CHR ''-''" "hd (dec n) \<noteq> CHR ''+''" by blast+
qed

lemma takeWhile_run: "list_all p xs \<Longrightarrow> (ys = [] \<or> \<not> p (hd ys)) \<Longrightarrow> takeWhile p (xs @ ys) = xs"
  by (induction xs) (cases ys, auto)

lemma cstr_append_clean: "NUL \<notin> set s \<Longrightarrow> cstr (s @ t) = s @ cstr t"
  by (induction s) auto

lemma strip_sign_digits: "s \<noteq> [] \<Longrightarrow> hd s \<noteq> CHR ''-'' \<Longrightarrow> hd s \<noteq> CHR ''+'' \<Longrightarrow> strip_sign s = (False, s)"
  by (cases s) (auto simp: strip_sign_def)

lemma digit_run_scan:
  assumes "list_all is_digit ds" "ds \<noteq> []" "NUL \<notin> set ds" "\<not> isspace (hd ds)" "hd ds \<noteq> CHR ''-''" "hd ds \<noteq> CHR ''+''"
    "rest = [] \<or> \<not> is_digit (hd rest)"
  shows "strip_sign (dropWhile isspace (cstr (ds @ rest))) = (False, ds @ cstr rest)"
    "takeWhile is_digit (ds @ cstr rest) = ds"
proof -
  have d: "dropWhile isspace (cstr (ds @ rest)) = ds @ cstr rest"
    using assms(2-4) by (cases ds) (auto simp: cstr_append_clean)
  show "strip_sign (dropWhile isspace (cstr (ds @ rest))) = (False, ds @ cstr rest)"
    unfolding d using assms(2,5,6) by (intro strip_sign_digits) auto
  have "cstr rest = [] \<or> \<not> is_digit (hd (cstr rest))"
    using assms(7) by (cases rest) auto
  then show "takeWhile is_digit (ds @ cstr rest) = ds"
    using takeWhile_run assms(1) by blast
qed

lemma strtoull_dec:
  assumes "n \<le> ULL_MAX" "rest = [] \<or> \<not> is_digit (hd rest)"
  shows "strtoull (dec n @ rest) = (n, True)"
  using digit_run_scan [OF dec_facts(1,3-7) assms(2), of n] dec_facts(2,3) [of n] assms(1)
  by (simp add: strtoull_def)

lemma strchr_first:
  assumes "c \<notin> set s" "NUL \<notin> set s" "c \<noteq> NUL"
  shows "strchr (s @ c # t) c = Some (length s)"
proof -
  have "cstr (s @ c # t) = s @ c # cstr t"
    using assms(2,3) by (simp add: cstr_append_clean)
  moreover have "takeWhile (\<lambda>x. x \<noteq> c) (s @ c # cstr t) = s"
    using assms(1) by (intro takeWhile_run) (auto simp: list_all_iff)
  ultimately show ?thesis
    by (simp add: strchr_def)
qed

lemma strchr_none:
  assumes "c \<notin> set (cstr s)"
  shows "strchr s c = None"
proof -
  have "takeWhile (\<lambda>x. x \<noteq> c) (cstr s) = cstr s"
    using assms by (auto simp: takeWhile_eq_all_conv)
  then show ?thesis
    unfolding strchr_def Let_def by (simp only:) simp
qed

end
