(* ===== verification/HttpHeader.thy ===== *)
theory HttpHeader
  imports CLib
begin

text \<open>
  Request headers of Header.cpp: a header line is cut in place into a lower-case name and a
  value (\<open>ExtractHeader\<close>), the name is looked up, and values are parsed: content type with
  boundary, content disposition, numbers and dates. Memory is the list of its bytes; a header
  holds the text its pointers point at, \<open>None\<close> for a null value pointer; reading through a null
  pointer is the result \<open>None\<close>, an exception is \<open>Inl\<close>.
\<close>

section \<open>Header names\<close>

datatype HEADERNAME = HN_UNKNOWN | HN_HOST | HN_CONNECTION | HN_CONTENT_DISPOSITION | HN_CONTENT_TYPE
  | HN_CONTENT_LENGTH | HN_CONTENT_ENCODING | HN_USER_AGENT | HN_IF_MOD_SINCE | HH_ORIGIN | HH_UPGRADE
  | HH_SEC_WEBSOCKET_KEY | HH_SEC_WEBSCOKET_VERSION | HH_SEC_WEBSOCKET_PROTOCOL | HN_LAST_MODIFIED
  | HN_LOCATION | HH_SEC_WEBSOCKET_ACCEPT | HN_ACCESS_CONTROL_REQUEST_METHOD
  | HN_ACCESS_CONTROL_REQUEST_HEADERS | HN_NOTUSED

datatype CONTENTTYPE = CT_UNKNOWN | CT_URL_ENCODED | CT_FORM_MULTIPART | CT_NOTUSED

fun GetHeaderName :: "HEADERNAME \<Rightarrow> string" where
  "GetHeaderName HN_HOST = ''host''"
| "GetHeaderName HN_CONNECTION = ''connection''"
| "GetHeaderName HN_CONTENT_DISPOSITION = ''content-disposition''"
| "GetHeaderName HN_CONTENT_TYPE = ''content-type''"
| "GetHeaderName HN_CONTENT_LENGTH = ''content-length''"
| "GetHeaderName HN_CONTENT_ENCODING = ''content-encoding''"
| "GetHeaderName HN_USER_AGENT = ''user-agent''"
| "GetHeaderName HN_IF_MOD_SINCE = ''if-modified-since''"
| "GetHeaderName HH_ORIGIN = ''origin''"
| "GetHeaderName HH_UPGRADE = ''upgrade''"
| "GetHeaderName HH_SEC_WEBSOCKET_KEY = ''sec-websocket-key''"
| "GetHeaderName HH_SEC_WEBSCOKET_VERSION = ''sec-websocket-version''"
| "GetHeaderName HH_SEC_WEBSOCKET_PROTOCOL = ''sec-websocket-protocol''"
| "GetHeaderName HN_LAST_MODIFIED = ''last-modified''"
| "GetHeaderName HN_LOCATION = ''location''"
| "GetHeaderName HH_SEC_WEBSOCKET_ACCEPT = ''sec-websocket-accept''"
| "GetHeaderName HN_ACCESS_CONTROL_REQUEST_METHOD = ''access-control-request-method''"
| "GetHeaderName HN_ACCESS_CONTROL_REQUEST_HEADERS = ''access-control-request-headers''"
| "GetHeaderName _ = ''''"

text \<open>The loop of \<open>InitHeaderNameMap\<close> runs over the enumerators between \<open>HN_UNKNOWN\<close> and
  \<open>HN_NOTUSED\<close>.\<close>

definition header_range :: "HEADERNAME list" where
  "header_range = [HN_HOST, HN_CONNECTION, HN_CONTENT_DISPOSITION, HN_CONTENT_TYPE, HN_CONTENT_LENGTH,
     HN_CONTENT_ENCODING, HN_USER_AGENT, HN_IF_MOD_SINCE, HH_ORIGIN, HH_UPGRADE, HH_SEC_WEBSOCKET_KEY,
     HH_SEC_WEBSCOKET_VERSION, HH_SEC_WEBSOCKET_PROTOCOL, HN_LAST_MODIFIED, HN_LOCATION,
     HH_SEC_WEBSOCKET_ACCEPT, HN_ACCESS_CONTROL_REQUEST_METHOD, HN_ACCESS_CONTROL_REQUEST_HEADERS]"

definition AddToHeaderMap :: "HEADERNAME \<Rightarrow> (string \<rightharpoonup> HEADERNAME) \<Rightarrow> (string \<rightharpoonup> HEADERNAME)" where
  "AddToHeaderMap h m = m(GetHeaderName h \<mapsto> h)"

definition HeaderNameMap :: "string \<rightharpoonup> HEADERNAME" where
  "HeaderNameMap = fold AddToHeaderMap header_range Map.empty"

definition ParseHeader :: "string \<Rightarrow> HEADERNAME" where
  "ParseHeader name = (case HeaderNameMap name of Some h \<Rightarrow> h | None \<Rightarrow> HN_UNKNOWN)"

section \<open>Cutting a line\<close>

definition is_upper :: "char \<Rightarrow> bool" where
  "is_upper c \<longleftrightarrow> 65 \<le> (of_char c :: nat) \<and> (of_char c :: nat) \<le> 90"

text \<open>The loops of \<open>ExtractHeader\<close> on the text between \<open>LineBegin\<close> and \<open>LineEnd\<close>. The first gives
  the text as rewritten up to the colon and the text behind it.\<close>

fun name_loop :: "string \<Rightarrow> string \<times> string" where
  "name_loop [] = ([], [])"
| "name_loop (c # s) =
     (if is_upper c then (let (d, r) = name_loop s in (tolower c # d, r))
      else if c = CHR '':'' then ([NUL], s)
      else (let (d, r) = name_loop s in (c # d, r)))"

text \<open>The line afterwards, the offset of the value (if any), and the offset behind the CR (the
  result, null without CR). The name is at offset 0.\<close>

definition ExtractHeader :: "string \<Rightarrow> string \<times> nat option \<times> nat option" where
  "ExtractHeader line =
     (let (d, r) = name_loop line;
          spaces = takeWhile (\<lambda>c. c = CHR '' '') r; v = drop (length spaces) r;
          t = takeWhile (\<lambda>c. c \<noteq> CHR 0x0D) v;
          outValue = (if v = [] then None else Some (length d + length spaces))
      in if length t < length v
         then (d @ spaces @ t @ NUL # drop (Suc (length t)) v, outValue,
               Some (length d + length spaces + length t + 1))
         else (d @ r, outValue, None))"

record header =
  hd_Name :: string
  hd_Value :: "string option"
  hd_IntName :: HEADERNAME

text \<open>The constructor on a line of a buffer: the text before the line, the line, the text
  behind it. The pointers see the buffer as it is afterwards.\<close>

definition Header :: "string \<Rightarrow> string \<Rightarrow> header \<times> string" where
  "Header line post =
     (let (line', val, ret) = ExtractHeader line; name = cstr (line' @ post)
      in (\<lparr>hd_Name = name, hd_Value = map_option (\<lambda>k. cstr (drop k (line' @ post))) val,
           hd_IntName = (if ret \<noteq> None then ParseHeader name else HN_UNKNOWN)\<rparr>, line'))"

definition Header_SkipParse :: "string \<Rightarrow> string \<Rightarrow> header \<times> string" where
  "Header_SkipParse line post =
     (let (line', val, ret) = ExtractHeader line
      in (\<lparr>hd_Name = cstr (line' @ post), hd_Value = map_option (\<lambda>k. cstr (drop k (line' @ post))) val,
           hd_IntName = HN_UNKNOWN\<rparr>, line'))"

section \<open>Delimited key=value pairs\<close>

text \<open>\<open>ParseDelimitedKeyValue\<close>: like the scanner of \<open>StringUtils\<close>, with pairs ended by a
  semicolon and keys without value; the consumer's calls have no value for a null range.\<close>

record dkv_parser =
  dkv_State :: PARSE_STATE
  dkv_Key :: string
  dkv_Value :: string
  dkv_Out :: "(string \<times> string option) list"

definition dkv_init :: dkv_parser where
  "dkv_init = \<lparr>dkv_State = PS_ZERO, dkv_Key = [], dkv_Value = [], dkv_Out = []\<rparr>"

definition dkv_emit :: "string option \<Rightarrow> dkv_parser \<Rightarrow> dkv_parser" where
  "dkv_emit v p = p\<lparr>dkv_Out := dkv_Out p @ [(dkv_Key p, v)]\<rparr>"

definition dkv_step :: "char \<Rightarrow> char \<Rightarrow> dkv_parser \<Rightarrow> dkv_parser" where
  "dkv_step sep c p =
     (case dkv_State p of
        PS_ZERO \<Rightarrow> if \<not> IsWS c \<and> c \<noteq> CHR '';'' then p\<lparr>dkv_Key := [c], dkv_State := PS_KEY\<rparr> else p
      | PS_KEY \<Rightarrow>
          if IsWS c then p\<lparr>dkv_State := PS_SEPSEARCH\<rparr>
          else if c = sep then p\<lparr>dkv_State := PS_VALSEARCH\<rparr>
          else if c = CHR '';'' then (dkv_emit None p)\<lparr>dkv_State := PS_ZERO\<rparr>
          else p\<lparr>dkv_Key := dkv_Key p @ [c]\<rparr>
      | PS_SEPSEARCH \<Rightarrow>
          if c = sep then p\<lparr>dkv_State := PS_VALSEARCH\<rparr>
          else if c = CHR '';'' then (dkv_emit None p)\<lparr>dkv_State := PS_ZERO\<rparr>
          else if \<not> IsWS c then p\<lparr>dkv_Key := [c], dkv_State := PS_KEY\<rparr>
          else p
      | PS_VALSEARCH \<Rightarrow>
          if \<not> IsWS c
          then p\<lparr>dkv_Value := [c], dkv_State := (if c = CHR 0x22 then PS_QUOTEDVAL else PS_VAL)\<rparr>
          else if IsNewLine c then (dkv_emit (Some []) p)\<lparr>dkv_State := PS_ZERO\<rparr>
          else p
      | PS_VAL \<Rightarrow>
          if IsWS c \<or> c = CHR '';'' then (dkv_emit (Some (dkv_Value p)) p)\<lparr>dkv_State := PS_ZERO\<rparr>
          else p\<lparr>dkv_Value := dkv_Value p @ [c]\<rparr>
      | PS_QUOTEDVAL \<Rightarrow>
          if c = CHR 0x22 then (dkv_emit (Some (tl (dkv_Value p))) p)\<lparr>dkv_State := PS_ZERO\<rparr>
          else p\<lparr>dkv_Value := dkv_Value p @ [c]\<rparr>)"

definition dkv_finish :: "dkv_parser \<Rightarrow> (string \<times> string option) list" where
  "dkv_finish p =
     (case dkv_State p of
        PS_VAL \<Rightarrow> dkv_Out (dkv_emit (Some (dkv_Value p)) p)
      | PS_QUOTEDVAL \<Rightarrow> dkv_Out (dkv_emit (Some (tl (dkv_Value p))) p)
      | _ \<Rightarrow> dkv_Out p)"

definition ParseDelimitedKeyValue :: "string \<Rightarrow> (string \<times> string option) list" where
  "ParseDelimitedKeyValue source = dkv_finish (fold (dkv_step (CHR ''='')) (cstr source) dkv_init)"

text \<open>The consumers: one call each.\<close>

definition SingleKeyExtractor :: "string \<Rightarrow> string \<times> string option \<Rightarrow> string \<Rightarrow> string" where
  "SingleKeyExtractor key = (\<lambda>(k, v) target. case v of Some x \<Rightarrow> if IsEqual key k then x else target | None \<Rightarrow> target)"

definition ContentDisposExtractor ::
  "string \<times> string option \<Rightarrow> string \<times> string \<times> bool \<Rightarrow> string \<times> string \<times> bool" where
  "ContentDisposExtractor = (\<lambda>(k, v) (name, fileName, exists).
     case v of
       Some x \<Rightarrow> if IsEqual ''name'' k then (x, fileName, exists)
         else if IsEqual ''filename'' k then (name, x, True)
         else (name, fileName, exists)
     | None \<Rightarrow> (name, fileName, exists))"

section \<open>Values\<close>

definition GetContentType :: "header \<Rightarrow> string \<Rightarrow> (CONTENTTYPE \<times> string) option" where
  "GetContentType h outBoundary =
     (if hd_IntName h \<noteq> HN_CONTENT_TYPE then Some (CT_UNKNOWN, outBoundary)
      else case hd_Value h of
        None \<Rightarrow> None
      | Some v \<Rightarrow>
          (case strchr v (CHR '';'') of
             Some sc \<Rightarrow>
               if CmpI_range ''multipart/form-data'' (take sc v) = 0
               then let b = fold (SingleKeyExtractor ''boundary'') (ParseDelimitedKeyValue (drop sc v)) []
                    in Some (if b \<noteq> [] then CT_FORM_MULTIPART else CT_UNKNOWN, b)
               else if CmpI_range ''application/x-www-form-urlencoded'' (take sc v) = 0
               then Some (CT_URL_ENCODED, outBoundary)
               else Some (CT_UNKNOWN, outBoundary)
           | None \<Rightarrow>
               if CmpI v ''application/x-www-form-urlencoded'' = 0 then Some (CT_URL_ENCODED, outBoundary)
               else Some (CT_UNKNOWN, outBoundary)))"

text \<open>\<open>ParseContentDisposition\<close> on the three output references; the flag is left as it is for
  another header.\<close>

definition ParseContentDisposition :: "header \<Rightarrow> string \<times> string \<times> bool \<Rightarrow> (string \<times> string \<times> bool) option" where
  "ParseContentDisposition h out =
     (if hd_IntName h = HN_CONTENT_DISPOSITION
      then map_option (\<lambda>v. fold ContentDisposExtractor (ParseDelimitedKeyValue v)
                        (fst out, fst (snd out), False)) (hd_Value h)
      else Some ([], [], snd (snd out)))"

definition IsConnectionClose :: "header \<Rightarrow> bool option" where
  "IsConnectionClose h = map_option (\<lambda>v. cstr v = ''close'') (hd_Value h)"

datatype format_error = FormatException string

definition GetULongLong :: "header \<Rightarrow> (format_error + nat) option" where
  "GetULongLong h = map_option (\<lambda>v. let (n, converted) = strtoull v
     in if converted then Inr n else Inl (FormatException ''Cannot parse ULongLong value'')) (hd_Value h)"

definition GetLongLong :: "header \<Rightarrow> (format_error + int) option" where
  "GetLongLong h = map_option (\<lambda>v. let (n, converted) = strtoll v
     in if converted then Inr n else Inl (FormatException ''Cannot parse LongLong value'')) (hd_Value h)"

section \<open>Dates\<close>

record tm =
  tm_sec :: int
  tm_min :: int
  tm_hour :: int
  tm_mday :: int
  tm_mon :: int
  tm_year :: int
  tm_wday :: int
  tm_yday :: int
  tm_isdst :: int

text \<open>The switch on the letters of the month.\<close>

definition month_of :: "char \<Rightarrow> char \<Rightarrow> char \<Rightarrow> int" where
  "month_of a b c =
     (if a = CHR ''A'' then (if b = CHR ''p'' then 3 else if b = CHR ''u'' then 7 else -1)
      else if a = CHR ''D'' then 11
      else if a = CHR ''F'' then 2
      else if a = CHR ''J'' then (if b = CHR ''a'' then 0 else if c = CHR ''l'' then 6
        else if c = CHR ''n'' then 5 else -1)
      else if a = CHR ''M'' then (if c = CHR ''r'' then 2 else if c = CHR ''y'' then 4 else -1)
      else if a = CHR ''N'' then 10
      else if a = CHR ''O'' then 9
      else if a = CHR ''S'' then 8
      else -1)"

definition DateStringLength :: nat where
  "DateStringLength = 29"

text \<open>\<open>GetDateTime\<close>; \<open>timegm\<close> is the platform's \<open>TimeGM\<close>.\<close>

definition GetDateTime :: "(tm \<Rightarrow> int) \<Rightarrow> header \<Rightarrow> (format_error + int) option" where
  "GetDateTime timegm h = map_option (\<lambda>v.
     if length (cstr v) \<noteq> DateStringLength then Inl (FormatException ''DateTime has invalid length'')
     else let t = \<lparr>tm_sec = atoi (drop 23 v), tm_min = atoi (drop 20 v), tm_hour = atoi (drop 17 v),
                   tm_mday = atoi (drop 5 v), tm_mon = month_of (v ! 8) (v ! 9) (v ! 10),
                   tm_year = atoi (drop 12 v) - 1900, tm_wday = 0, tm_yday = 0, tm_isdst = 0\<rparr>
          in if tm_year t = 0 \<or> tm_mon t = 1 then Inl (FormatException ''DateTime is invalid'')
             else if timegm t \<noteq> -1 then Inr (timegm t)
             else Inl (FormatException ''DateTime is invalid'')) (hd_Value h)"

section \<open>Facts on names\<close>

lemma HeaderNameMap_eq: "HeaderNameMap = map_of (map (\<lambda>h. (GetHeaderName h, h)) header_range)"
  by (rule ext) (simp add: HeaderNameMap_def header_range_def AddToHeaderMap_def)

lemma header_range_all: "(h \<in> set header_range) = (h \<noteq> HN_UNKNOWN \<and> h \<noteq> HN_NOTUSED)"
  by (cases h) (simp_all add: header_range_def)

lemma header_names_distinct: "distinct (map GetHeaderName header_range)"
  by (simp add: header_range_def)

lemma ParseHeader_iff:
  "ParseHeader s = h \<and> h \<noteq> HN_UNKNOWN \<longleftrightarrow> h \<in> set header_range \<and> s = GetHeaderName h"
proof
  assume a: "ParseHeader s = h \<and> h \<noteq> HN_UNKNOWN"
  then have "HeaderNameMap s = Some h"
    by (auto simp: ParseHeader_def split: option.splits)
  then show "h \<in> set header_range \<and> s = GetHeaderName h"
    unfolding HeaderNameMap_eq using map_of_SomeD by fastforce
next
  assume a: "h \<in> set header_range \<and> s = GetHeaderName h"
  have "map_of (map (\<lambda>h. (GetHeaderName h, h)) header_range) (GetHeaderName h) = Some h"
    using a header_names_distinct by (intro map_of_is_SomeI) (auto simp: comp_def)
  then have "HeaderNameMap s = Some h"
    using a by (simp add: HeaderNameMap_eq)
  then show "ParseHeader s = h \<and> h \<noteq> HN_UNKNOWN"
    using a header_range_all by (simp add: ParseHeader_def)
qed

section \<open>Facts on lines\<close>

lemma is_upper_tolower: "\<not> is_upper c \<Longrightarrow> tolower c = c"
  by (auto simp: is_upper_def tolower_def Let_def)

lemma is_upper_colon: "\<not> is_upper (CHR '':'')"
  by (simp add: is_upper_def)

lemma name_loop_line:
  "CHR '':'' \<notin> set name \<Longrightarrow> name_loop (name @ CHR '':'' # s) = (map tolower name @ [NUL], s)"
  by (induction name) (auto simp: is_upper_colon is_upper_tolower)

text \<open>A well-formed line: name, colon, blanks, value, CR.\<close>

definition header_line :: "string \<Rightarrow> nat \<Rightarrow> string \<Rightarrow> string" where
  "header_line name k value = name @ CHR '':'' # replicate k (CHR '' '') @ value @ [CHR 0x0D]"

definition value_ok :: "string \<Rightarrow> bool" where
  "value_ok v \<longleftrightarrow> v \<noteq> [] \<and> hd v \<noteq> CHR '' '' \<and> CHR 0x0D \<notin> set v \<and> NUL \<notin> set v"

lemma ExtractHeader_line:
  assumes "CHR '':'' \<notin> set name" "value_ok value"
  shows "ExtractHeader (header_line name k value) =
    (map tolower name @ NUL # replicate k (CHR '' '') @ value @ [NUL],
     Some (length name + 1 + k), Some (length name + 1 + k + length value + 1))"
proof -
  have n: "name_loop (header_line name k value) = (map tolower name @ [NUL], replicate k (CHR '' '') @ value @ [CHR 0x0D])"
    unfolding header_line_def using assms(1) by (rule name_loop_line)
  have s: "takeWhile (\<lambda>c. c = CHR '' '') (replicate k (CHR '' '') @ value @ [CHR 0x0D]) = replicate k (CHR '' '')"
    using assms(2) by (intro takeWhile_run) (auto simp: value_ok_def list_all_iff hd_append)
  have t: "takeWhile (\<lambda>c. c \<noteq> CHR 0x0D) (value @ [CHR 0x0D]) = value"
    using assms(2) by (intro takeWhile_run) (auto simp: value_ok_def list_all_iff)
  show ?thesis
    unfolding ExtractHeader_def n by (simp add: s t Let_def)
qed

lemma Header_line:
  assumes "CHR '':'' \<notin> set name" "NUL \<notin> set name" "value_ok value"
  shows "Header (header_line name k value) post =
    (\<lparr>hd_Name = map tolower name, hd_Value = Some value, hd_IntName = ParseHeader (map tolower name)\<rparr>,
     map tolower name @ NUL # replicate k (CHR '' '') @ value @ [NUL])"
proof -
  have n: "NUL \<notin> set (map tolower name)"
    using assms(2) by auto (metis tolower_is_NUL)
  have v: "NUL \<notin> set value" using assms(3) by (simp add: value_ok_def)
  let ?l = "map tolower name @ NUL # replicate k (CHR '' '') @ value @ [NUL]"
  have "drop (length name + 1 + k) (?l @ post) = value @ NUL # post"
    by simp
  then show ?thesis
    using cstr_append [OF n, of "replicate k (CHR '' '') @ value @ NUL # post"] cstr_append [OF v, of post]
    by (simp add: Header_def ExtractHeader_line [OF assms(1,3)] Let_def)
qed

section \<open>Facts on delimited pairs\<close>

fun dkv_item :: "string \<times> (bool \<times> string) option \<Rightarrow> string" where
  "dkv_item (k, None) = k @ '';''"
| "dkv_item (k, Some (quoted, v)) = k @ CHR ''='' # (if quoted then CHR 0x22 # v @ [CHR 0x22] else v) @ '';''"

definition key_char :: "char \<Rightarrow> bool" where
  "key_char c \<longleftrightarrow> \<not> IsWS c \<and> c \<noteq> CHR ''='' \<and> c \<noteq> CHR '';'' \<and> c \<noteq> NUL"

fun dkv_ok :: "string \<times> (bool \<times> string) option \<Rightarrow> bool" where
  "dkv_ok (k, v) \<longleftrightarrow> k \<noteq> [] \<and> list_all key_char k \<and>
     (case v of None \<Rightarrow> True
      | Some (quoted, v) \<Rightarrow> if quoted then list_all (\<lambda>c. c \<noteq> CHR 0x22 \<and> c \<noteq> NUL) v
          else v \<noteq> [] \<and> hd v \<noteq> CHR 0x22 \<and> list_all (\<lambda>c. \<not> IsWS c \<and> c \<noteq> CHR '';'' \<and> c \<noteq> NUL) v)"

lemma dkv_key_run:
  assumes "list_all key_char k" "dkv_State p = PS_KEY"
  shows "fold (dkv_step (CHR ''='')) k p = p\<lparr>dkv_Key := dkv_Key p @ k\<rparr>"
  using assms by (induction k arbitrary: p) (simp_all add: dkv_step_def key_char_def del: IsWS.simps)

lemma dkv_val_run:
  assumes "list_all (\<lambda>c. \<not> IsWS c \<and> c \<noteq> CHR '';'' \<and> c \<noteq> NUL) v" "dkv_State p = PS_VAL"
  shows "fold (dkv_step sep) v p = p\<lparr>dkv_Value := dkv_Value p @ v\<rparr>"
  using assms by (induction v arbitrary: p) (simp_all add: dkv_step_def del: IsWS.simps)

lemma dkv_quoted_run:
  assumes "list_all (\<lambda>c. c \<noteq> CHR 0x22 \<and> c \<noteq> NUL) v" "dkv_State p = PS_QUOTEDVAL"
  shows "fold (dkv_step sep) v p = p\<lparr>dkv_Value := dkv_Value p @ v\<rparr>"
  using assms by (induction v arbitrary: p) (simp_all add: dkv_step_def)

lemma dkv_key_start:
  assumes "k \<noteq> []" "list_all key_char k" "dkv_State p = PS_ZERO"
  shows "fold (dkv_step (CHR ''='')) k p = p\<lparr>dkv_Key := k, dkv_State := PS_KEY\<rparr>"
  using assms dkv_key_run [of "tl k" "p\<lparr>dkv_Key := [hd k], dkv_State := PS_KEY\<rparr>"]
  by (cases k) (simp_all add: dkv_step_def key_char_def del: IsWS.simps)

lemma dkv_item_run:
  assumes "dkv_ok (k, v)" "dkv_State p = PS_ZERO"
  shows "\<exists>w. fold (dkv_step (CHR ''='')) (dkv_item (k, v)) p =
    p\<lparr>dkv_Key := k, dkv_Value := w, dkv_Out := dkv_Out p @ [(k, map_option snd v)], dkv_State := PS_ZERO\<rparr>"
proof -
  have key: "fold (dkv_step (CHR ''='')) k p = p\<lparr>dkv_Key := k, dkv_State := PS_KEY\<rparr>"
    using assms by (intro dkv_key_start) simp_all
  show ?thesis
  proof (cases v)
    case None
    then show ?thesis
      using key by (intro exI [of _ "dkv_Value p"]) (simp add: dkv_step_def dkv_emit_def)
  next
    case (Some qv)
    obtain quoted x where qv: "qv = (quoted, x)" by force
    let ?p1 = "p\<lparr>dkv_Key := k, dkv_State := PS_VALSEARCH\<rparr>"
    have p1: "fold (dkv_step (CHR ''='')) (k @ ''='') p = ?p1"
      using key by (simp add: dkv_step_def)
    show ?thesis
    proof (cases quoted)
      case True
      then show ?thesis
        using p1 Some qv assms(1) dkv_quoted_run [of x "?p1\<lparr>dkv_Value := [CHR 0x22], dkv_State := PS_QUOTEDVAL\<rparr>" "CHR ''=''"]
        by (intro exI [of _ "CHR 0x22 # x"]) (simp add: dkv_step_def dkv_emit_def)
    next
      case False
      then obtain c x' where x: "x = c # x'" "c \<noteq> CHR 0x22" "\<not> IsWS c"
        "list_all (\<lambda>c. \<not> IsWS c \<and> c \<noteq> CHR '';'' \<and> c \<noteq> NUL) x'"
        using Some qv assms(1) by (cases x) (auto simp del: IsWS.simps)
      then have "fold (dkv_step (CHR ''='')) x ?p1 = ?p1\<lparr>dkv_Value := x, dkv_State := PS_VAL\<rparr>"
        using dkv_val_run [of x' "?p1\<lparr>dkv_Value := [c], dkv_State := PS_VAL\<rparr>" "CHR ''=''"]
        by (simp add: dkv_step_def del: IsWS.simps)
      then show ?thesis
        using p1 False Some qv by (intro exI [of _ x]) (simp add: dkv_step_def dkv_emit_def)
    qed
  qed
qed

lemma dkv_items_run:
  assumes "list_all dkv_ok items" "dkv_State p = PS_ZERO"
  shows "dkv_State (fold (dkv_step (CHR ''='')) (concat (map (\<lambda>i. CHR '' '' # dkv_item i) items)) p) = PS_ZERO
    \<and> dkv_Out (fold (dkv_step (CHR ''='')) (concat (map (\<lambda>i. CHR '' '' # dkv_item i) items)) p)
      = dkv_Out p @ map (\<lambda>(k, v). (k, map_option snd v)) items"
  using assms
proof (induction items arbitrary: p)
  case (Cons i items)
  obtain k v where i: "i = (k, v)" by force
  have sp: "dkv_step (CHR ''='') (CHR '' '') p = p"
    using Cons.prems(2) by (simp add: dkv_step_def)
  have "dkv_ok (k, v)"
    using Cons.prems(1) i by (simp del: dkv_ok.simps)
  then obtain w where w: "fold (dkv_step (CHR ''='')) (dkv_item (k, v)) p =
    p\<lparr>dkv_Key := k, dkv_Value := w, dkv_Out := dkv_Out p @ [(k, map_option snd v)], dkv_State := PS_ZERO\<rparr>"
    using dkv_item_run [OF _ Cons.prems(2)] by blast
  show ?case
    using Cons.IH [of "p\<lparr>dkv_Key := k, dkv_Value := w, dkv_Out := dkv_Out p @ [(k, map_option snd v)], dkv_State := PS_ZERO\<rparr>"]
      Cons.prems(1) w sp by (simp add: i del: dkv_item.simps)
qed simp


text \<open>A last pair with a value needs no semicolon.\<close>

definition dkv_last :: "string \<Rightarrow> bool \<Rightarrow> string \<Rightarrow> string" where
  "dkv_last k quoted v = k @ CHR ''='' # (if quoted then CHR 0x22 # v @ [CHR 0x22] else v)"

lemma dkv_last_item: "dkv_item (k, Some (quoted, v)) = dkv_last k quoted v @ '';''"
  by (simp add: dkv_last_def)

lemma dkv_last_run:
  assumes "dkv_ok (k, Some (quoted, v))" "dkv_State p = PS_ZERO"
  shows "dkv_finish (fold (dkv_step (CHR ''='')) (dkv_last k quoted v) p) = dkv_Out p @ [(k, Some v)]"
proof -
  let ?q = "fold (dkv_step (CHR ''='')) (dkv_last k quoted v) p"
  obtain w where "dkv_step (CHR ''='') (CHR '';'') ?q =
      p\<lparr>dkv_Key := k, dkv_Value := w, dkv_Out := dkv_Out p @ [(k, Some v)], dkv_State := PS_ZERO\<rparr>"
    using dkv_item_run [OF assms] unfolding dkv_last_item by auto
  then have "dkv_State (dkv_step (CHR ''='') (CHR '';'') ?q) = PS_ZERO"
    "dkv_Out (dkv_step (CHR ''='') (CHR '';'') ?q) = dkv_Out p @ [(k, Some v)]"
    by simp_all
  moreover have "dkv_State ?q = PS_VAL \<or> dkv_State ?q = PS_ZERO"
  proof -
    let ?p1 = "p\<lparr>dkv_Key := k, dkv_State := PS_VALSEARCH\<rparr>"
    have "fold (dkv_step (CHR ''='')) (k @ ''='') p = ?p1"
      using assms dkv_key_start [of k p] by (simp add: dkv_step_def)
    then have q: "?q = fold (dkv_step (CHR ''='')) (if quoted then CHR 0x22 # v @ [CHR 0x22] else v) ?p1"
      by (simp add: dkv_last_def)
    show ?thesis
    proof (cases quoted)
      case True
      then show ?thesis
        using q assms(1) dkv_quoted_run [of v "?p1\<lparr>dkv_Value := [CHR 0x22], dkv_State := PS_QUOTEDVAL\<rparr>" "CHR ''=''"]
        by (simp add: dkv_step_def dkv_emit_def)
    next
      case False
      then obtain c x' where x: "v = c # x'" "c \<noteq> CHR 0x22" "\<not> IsWS c"
        "list_all (\<lambda>c. \<not> IsWS c \<and> c \<noteq> CHR '';'' \<and> c \<noteq> NUL) x'"
        using assms(1) by (cases v) (auto simp del: IsWS.simps)
      then show ?thesis
        using q False dkv_val_run [of x' "?p1\<lparr>dkv_Value := [c], dkv_State := PS_VAL\<rparr>" "CHR ''=''"]
        by (simp add: dkv_step_def del: IsWS.simps)
    qed
  qed
  ultimately show ?thesis
    by (auto simp: dkv_finish_def dkv_step_def dkv_emit_def)
qed

lemma dkv_text_clean:
  assumes "list_all dkv_ok items"
  shows "NUL \<notin> set (concat (map (\<lambda>i. CHR '' '' # dkv_item i) items))"
proof -
  have "NUL \<notin> set (dkv_item i)" if "dkv_ok i" for i
    using that by (cases i rule: dkv_item.cases) (auto simp: list_all_iff key_char_def split: if_splits)
  then show ?thesis
    using assms by (induction items) auto
qed

lemma dkv_last_clean: "dkv_ok (k, Some (quoted, v)) \<Longrightarrow> NUL \<notin> set (dkv_last k quoted v)"
  by (auto simp: dkv_last_def list_all_iff key_char_def split: if_splits)

lemma ParseDelimited_items:
  assumes "list_all dkv_ok items" "dkv_ok (k, Some (quoted, v))" "list_all (\<lambda>c. c = CHR '';'' \<or> c = CHR '' '') lead"
  shows "ParseDelimitedKeyValue (lead @ concat (map (\<lambda>i. CHR '' '' # dkv_item i) items) @ CHR '' '' # dkv_last k quoted v)
    = map (\<lambda>(k, v). (k, map_option snd v)) items @ [(k, Some v)]"
proof -
  let ?text = "concat (map (\<lambda>i. CHR '' '' # dkv_item i) items)"
  have "NUL \<notin> set lead"
    using assms(3) by (auto simp: list_all_iff)
  then have c: "cstr (lead @ ?text @ CHR '' '' # dkv_last k quoted v) = lead @ ?text @ CHR '' '' # dkv_last k quoted v"
    using dkv_text_clean [OF assms(1)] dkv_last_clean [OF assms(2)] by (intro cstr_id) auto
  have l: "fold (dkv_step (CHR ''='')) lead dkv_init = dkv_init"
    using assms(3) by (induction lead) (auto simp: dkv_step_def dkv_init_def)
  let ?p = "fold (dkv_step (CHR ''='')) ?text dkv_init"
  have p: "dkv_State ?p = PS_ZERO" "dkv_Out ?p = map (\<lambda>(k, v). (k, map_option snd v)) items"
    using dkv_items_run [OF assms(1), of dkv_init] by (simp_all add: dkv_init_def)
  have "dkv_step (CHR ''='') (CHR '' '') ?p = ?p"
    using p(1) by (simp add: dkv_step_def)
  then show ?thesis
    unfolding ParseDelimitedKeyValue_def c using dkv_last_run [OF assms(2) p(1)] p(2) l by simp
qed

section \<open>Facts on dates\<close>

definition months :: "string list" where
  "months = [''Jan'', ''Feb'', ''Mar'', ''Apr'', ''May'', ''Jun'', ''Jul'', ''Aug'', ''Sep'', ''Oct'', ''Nov'', ''Dec'']"

definition d2 :: "nat \<Rightarrow> string" where
  "d2 n = [digit (n div 10), digit (n mod 10)]"

definition d4 :: "nat \<Rightarrow> string" where
  "d4 n = d2 (n div 100) @ d2 (n mod 100)"

text \<open>An RFC 1123 date, as \<open>FormatDateTime\<close> prints it.\<close>

definition rfc1123 :: "string \<Rightarrow> nat \<Rightarrow> nat \<Rightarrow> nat \<Rightarrow> nat \<Rightarrow> nat \<Rightarrow> nat \<Rightarrow> string" where
  "rfc1123 wday day mon year h m s =
     wday @ '', '' @ d2 day @ '' '' @ months ! mon @ '' '' @ d4 year @ '' '' @ d2 h @ '':'' @ d2 m @ '':'' @ d2 s @ '' GMT''"

lemma d2_facts:
  assumes "n < 100"
  shows "list_all is_digit (d2 n)" "digits_val (d2 n) = n" "NUL \<notin> set (d2 n)" "length (d2 n) = 2"
    "\<not> isspace (hd (d2 n))" "hd (d2 n) \<noteq> CHR ''-''" "hd (d2 n) \<noteq> CHR ''+''"
proof -
  have "n div 10 < 10" "n mod 10 < 10"
    using assms by auto
  note D = digit_facts [OF this(1)] digit_facts [OF this(2)]
  show "list_all is_digit (d2 n)" "digits_val (d2 n) = n" "length (d2 n) = 2"
    "\<not> isspace (hd (d2 n))" "hd (d2 n) \<noteq> CHR ''-''" "hd (d2 n) \<noteq> CHR ''+''"
    using D by (simp_all add: d2_def digits_val_def)
  show "NUL \<notin> set (d2 n)"
    using D(3) D(9) by (auto simp: d2_def)
qed

lemma digits_val_append: "digits_val (s @ t) = digits_val s * 10 ^ length t + digits_val t"
proof (induction t rule: rev_induct)
  case (snoc c t)
  then show ?case
    unfolding append_assoc [symmetric] digits_val_snoc by (simp add: algebra_simps)
qed (simp add: digits_val_def)

lemma d4_facts:
  assumes "n < 10000"
  shows "list_all is_digit (d4 n)" "digits_val (d4 n) = n" "NUL \<notin> set (d4 n)" "length (d4 n) = 4"
    "\<not> isspace (hd (d4 n))" "hd (d4 n) \<noteq> CHR ''-''" "hd (d4 n) \<noteq> CHR ''+''"
proof -
  have n: "n div 100 < 100" "n mod 100 < 100" using assms by auto
  note A = d2_facts [OF n(1)] and B = d2_facts [OF n(2)]
  have h: "hd (d4 n) = hd (d2 (n div 100))" by (simp add: d4_def d2_def)
  show "list_all is_digit (d4 n)" "NUL \<notin> set (d4 n)" "length (d4 n) = 4"
    using A B by (simp_all add: d4_def)
  show "digits_val (d4 n) = n"
    using A(2) B(2,4) by (simp add: d4_def digits_val_append)
  show "\<not> isspace (hd (d4 n))" "hd (d4 n) \<noteq> CHR ''-''" "hd (d4 n) \<noteq> CHR ''+''"
    unfolding h by (rule A)+
qed

lemma atoi_digits:
  assumes "list_all is_digit ds" "NUL \<notin> set ds" "\<not> isspace (hd ds)" "hd ds \<noteq> CHR ''-''" "hd ds \<noteq> CHR ''+''"
    "ds \<noteq> []" "\<not> is_digit c" "digits_val ds < 10000"
  shows "atoi (ds @ c # rest) = int (digits_val ds)"
  using digit_run_scan [OF assms(1,6,2,3,4,5), of "c # rest"] assms(6-8)
  by (simp add: atoi_def strtoll_def)

lemma atoi_d2: "n < 100 \<Longrightarrow> \<not> is_digit c \<Longrightarrow> atoi (d2 n @ c # rest) = int n"
  using atoi_digits [of "d2 n" c rest] d2_facts [of n] by (auto simp: d2_def)

lemma atoi_d4: "n < 10000 \<Longrightarrow> \<not> is_digit c \<Longrightarrow> atoi (d4 n @ c # rest) = int n"
  using atoi_digits [of "d4 n" c rest] d4_facts [of n] by (auto simp: d4_def d2_def)


section \<open>Properties\<close>

text \<open>Note: the table of header names is the inverse of \<open>GetHeaderName\<close>: a name is recognised as a
  header exactly when it is the (lower-case) name of one of the enumerated headers, so no two
  headers share a name and none is lost.\<close>

theorem header_name_lookup:
  "(ParseHeader s = h \<and> h \<noteq> HN_UNKNOWN) = (h \<noteq> HN_UNKNOWN \<and> h \<noteq> HN_NOTUSED \<and> s = GetHeaderName h)"
  using ParseHeader_iff [of s h] header_range_all [of h] by auto

text \<open>Note: a header line is cut correctly in place. For \<open>name: value\<close> with any number of blanks
  and the name in any letter case, the header has the lower-case name, the exact value and the
  identity of the name, the result points behind the CR, and the line keeps its length.\<close>

theorem header_line_parsed:
  assumes "CHR '':'' \<notin> set name" "NUL \<notin> set name" "value_ok value"
    "map tolower name = GetHeaderName h" "h \<in> set header_range"
  shows "fst (Header (header_line name k value) post) =
      \<lparr>hd_Name = GetHeaderName h, hd_Value = Some value, hd_IntName = h\<rparr>
    \<and> length (snd (Header (header_line name k value) post)) = length (header_line name k value)
    \<and> snd (snd (ExtractHeader (header_line name k value))) = Some (length (header_line name k value))"
proof -
  have "ParseHeader (GetHeaderName h) = h"
    using ParseHeader_iff [of "GetHeaderName h" h] assms(5) by simp
  moreover have "length (GetHeaderName h) = length name"
    using assms(4) by (metis length_map)
  ultimately show ?thesis
    using Header_line [OF assms(1-3), of k post] ExtractHeader_line [OF assms(1,3), of k] assms(4)
    by (simp add: header_line_def)
qed

theorem header_line_parsed_witness:
  "fst (Header (header_line ''Content-LENGTH'' 1 ''12'') ''rest'') =
    \<lparr>hd_Name = ''content-length'', hd_Value = Some ''12'', hd_IntName = HN_CONTENT_LENGTH\<rparr>"
  using header_line_parsed [of "''Content-LENGTH''" "''12''" HN_CONTENT_LENGTH 1 "''rest''"]
  by (simp add: value_ok_def header_range_def tolower_def char_of_def bit_0)

text \<open>Note: the parameters of a header value are read back: a list of \<open>key\<close>, \<open>key=value\<close> and
  \<open>key="value"\<close> items separated by semicolons and blanks gives one call per item, in order,
  with the values unquoted and no value for a bare key.\<close>

theorem ParseDelimitedKeyValue_roundtrip:
  assumes "list_all dkv_ok items" "dkv_ok (k, Some (quoted, v))"
  shows "ParseDelimitedKeyValue (concat (map (\<lambda>i. CHR '' '' # dkv_item i) items) @ CHR '' '' # dkv_last k quoted v)
    = map (\<lambda>(k, v). (k, map_option snd v)) items @ [(k, Some v)]"
  using ParseDelimited_items [OF assms, of "[]"] by simp

theorem ParseDelimitedKeyValue_roundtrip_witness:
  "ParseDelimitedKeyValue (concat (map (\<lambda>i. CHR '' '' # dkv_item i) [(''form-data'', None), (''name'', Some (True, ''a b''))])
      @ CHR '' '' # dkv_last ''x'' False ''1'')
    = [(''form-data'', None), (''name'', Some ''a b''), (''x'', Some ''1'')]"
  using ParseDelimitedKeyValue_roundtrip [of "[(''form-data'', None), (''name'', Some (True, ''a b''))]" "''x''" False "''1''"]
  by (simp add: key_char_def)

lemma GetContentType_multipart:
  assumes "hd_IntName h = HN_CONTENT_TYPE" "map tolower mt = ''multipart/form-data''"
    "list_all dkv_ok items" "dkv_ok (''boundary'', Some (quoted, b))" "b \<noteq> []"
    "hd_Value h = Some (mt @ CHR '';'' # concat (map (\<lambda>i. CHR '' '' # dkv_item i) items)
       @ CHR '' '' # dkv_last ''boundary'' quoted b)"
  shows "GetContentType h out = Some (CT_FORM_MULTIPART, b)"
proof -
  have "CHR '';'' \<notin> set mt" "NUL \<notin> set mt"
  proof -
    have "tolower c \<in> set ''multipart/form-data''" if "c \<in> set mt" for c
      using that assms(2) by (metis image_eqI set_map)
    moreover have "tolower (CHR '';'') = CHR '';''" "tolower NUL = NUL"
      by (simp_all add: tolower_def)
    ultimately show "CHR '';'' \<notin> set mt" "NUL \<notin> set mt"
      by (force)+
  qed
  then have sc: "strchr (mt @ CHR '';'' # t) (CHR '';'') = Some (length mt)" for t
    by (rule strchr_first) simp
  have "CmpI_range ''multipart/form-data'' mt = lex_cmp (ci ''multipart/form-data'') (ci mt)"
    by (simp add: CmpI_range_lex cstr_id)
  moreover have "ci ''multipart/form-data'' = ci mt"
    unfolding ci_eq assms(2) by (simp add: tolower_def Let_def)
  ultimately have cmp: "CmpI_range ''multipart/form-data'' mt = 0"
    by (simp add: lex_cmp_def)
  have "ParseDelimitedKeyValue (CHR '';'' # concat (map (\<lambda>i. CHR '' '' # dkv_item i) items)
      @ CHR '' '' # dkv_last ''boundary'' quoted b) = map (\<lambda>(k, v). (k, map_option snd v)) items @ [(''boundary'', Some b)]"
    using ParseDelimited_items [OF assms(3,4), of "'';''"] by simp
  then show ?thesis
    using assms(1,5,6) cmp by (simp add: GetContentType_def sc SingleKeyExtractor_def IsEqual_def list_all2_same)
qed

text \<open>Note: the boundary of a multipart request is found. A content type \<open>multipart/form-data\<close> in
  any letter case, with any further parameters before \<open>boundary\<close> and the boundary quoted or
  not, is recognised and yields exactly that boundary.\<close>

theorem multipart_boundary_found:
  assumes "hd_IntName h = HN_CONTENT_TYPE" "map tolower mt = ''multipart/form-data''"
    "list_all dkv_ok items" "dkv_ok (''boundary'', Some (quoted, b))" "b \<noteq> []"
    "hd_Value h = Some (mt @ CHR '';'' # concat (map (\<lambda>i. CHR '' '' # dkv_item i) items)
       @ CHR '' '' # dkv_last ''boundary'' quoted b)"
  shows "GetContentType h out = Some (CT_FORM_MULTIPART, b)"
  using assms by (rule GetContentType_multipart)

theorem multipart_boundary_found_witness:
  "GetContentType \<lparr>hd_Name = ''content-type'', hd_Value = Some (''Multipart/Form-Data'' @ CHR '';''
      # concat (map (\<lambda>i. CHR '' '' # dkv_item i) []) @ CHR '' '' # dkv_last ''boundary'' False ''XyZ''),
      hd_IntName = HN_CONTENT_TYPE\<rparr> [] = Some (CT_FORM_MULTIPART, ''XyZ'')"
  by (rule multipart_boundary_found [where items = "[]" and quoted = False and mt = "''Multipart/Form-Data''"])
    (simp_all add: tolower_def char_of_def bit_0 key_char_def)

text \<open>Note: a content length of any 64-bit value is read exactly, with anything that is not a
  digit behind it; a value that does not begin with a number is an error.\<close>

theorem content_length_parsed:
  assumes "n \<le> ULL_MAX" "rest = [] \<or> \<not> is_digit (hd rest)" "hd_Value h = Some (dec n @ rest)"
  shows "GetULongLong h = Some (Inr n)"
  using strtoull_dec [OF assms(1,2)] assms(3) by (simp add: GetULongLong_def)

theorem content_length_parsed_witness:
  "GetULongLong \<lparr>hd_Name = [], hd_Value = Some (dec 18446744073709551615 @ '' ''), hd_IntName = HN_UNKNOWN\<rparr>
    = Some (Inr 18446744073709551615)"
  by (rule content_length_parsed) (simp_all add: is_digit_def)

text \<open>Note: an RFC 1123 date in the server's own format is read back field by field for every
  month except February, which is read as March (\<open>tm_mon\<close> 2); year 1900 is refused.\<close>

theorem date_fields_parsed:
  assumes "length wday = 3" "NUL \<notin> set wday" "day < 100" "mon < 12" "1900 < year" "year < 10000" "hour < 100"
    "mi < 100" "sec < 100" "hd_Value h = Some (rfc1123 wday day mon year hour mi sec)"
    "t = timegm \<lparr>tm_sec = int sec, tm_min = int mi, tm_hour = int hour, tm_mday = int day,
       tm_mon = (if mon = 1 then 2 else int mon), tm_year = int year - 1900,
       tm_wday = 0, tm_yday = 0, tm_isdst = 0\<rparr>" "t \<noteq> -1"
  shows "GetDateTime timegm h = Some (Inr t)"
proof -
  let ?v = "rfc1123 wday day mon year hour mi sec"
  obtain w1 w2 w3 where w: "wday = [w1, w2, w3]"
    using assms(1) by (auto simp: numeral_3_eq_3 length_Suc_conv)
  have "mon \<in> set [0, 1, 2, 3, 4, 5, 6, 7, 8, 9, 10, 11]"
  proof -
    have "mon \<in> set [0..<12]" using assms(4) by simp
    then show ?thesis by (simp add: upt_rec numeral_eq_Suc)
  qed
  then have mon: "mon = 0 \<or> mon = 1 \<or> mon = 2 \<or> mon = 3 \<or> mon = 4 \<or> mon = 5 \<or> mon = 6 \<or> mon = 7 \<or> mon = 8
      \<or> mon = 9 \<or> mon = 10 \<or> mon = 11"
    by simp
  obtain m1 m2 m3 where m: "months ! mon = [m1, m2, m3]" "NUL \<notin> {m1, m2, m3}"
    "month_of m1 m2 m3 = (if mon = 1 then 2 else int mon)" "month_of m1 m2 m3 \<noteq> 1"
    using mon by (elim disjE) (simp_all add: months_def month_of_def)
  obtain a1 a2 b1 b2 b3 b4 c1 c2 e1 e2 f1 f2 where d: "d2 day = [a1, a2]" "d4 year = [b1, b2, b3, b4]"
    "d2 hour = [c1, c2]" "d2 mi = [e1, e2]" "d2 sec = [f1, f2]"
    by (simp add: d4_def d2_def)
  have nd: "\<not> is_digit (CHR '' '')" "\<not> is_digit (CHR '':'')"
    by (simp_all add: is_digit_def)
  have "atoi (drop 5 ?v) = int day" "atoi (drop 12 ?v) = int year" "atoi (drop 17 ?v) = int hour"
    "atoi (drop 20 ?v) = int mi" "atoi (drop 23 ?v) = int sec"
    using atoi_d2 [OF assms(3) nd(1)] atoi_d4 [OF assms(6) nd(1)] atoi_d2 [OF assms(7) nd(2)]
      atoi_d2 [OF assms(8) nd(2)] atoi_d2 [OF assms(9) nd(1)]
    by (simp_all add: rfc1123_def w m d)
  moreover have "?v ! 8 = m1" "?v ! 9 = m2" "?v ! 10 = m3" "length ?v = 29"
    by (simp_all add: rfc1123_def w m d)
  moreover have "cstr ?v = ?v"
    using assms(2) m(2) d2_facts(3) [OF assms(3)] d4_facts(3) [OF assms(6)] d2_facts(3) [OF assms(7)]
      d2_facts(3) [OF assms(8)] d2_facts(3) [OF assms(9)]
    by (intro cstr_id) (simp add: rfc1123_def w m d)
  ultimately show ?thesis
    using assms(5,10,11,12) m(3,4) by (simp add: GetDateTime_def DateStringLength_def Let_def)
qed

theorem date_fields_parsed_witness:
  "GetDateTime tm_mon \<lparr>hd_Name = [], hd_Value = Some (rfc1123 ''Sun'' 6 10 1994 8 49 37), hd_IntName = HN_IF_MOD_SINCE\<rparr>
    = Some (Inr 10)"
  by (rule date_fields_parsed [where wday = "''Sun''" and mon = 10 and day = 6 and year = 1994 and hour = 8 and mi = 49
      and sec = 37]) simp_all

end
