(* ===== verification/QueryParams.thy ===== *)
theory QueryParams
  imports HttpHeader MultipartScan
begin

text \<open>
  Request parameters of QueryParams.cpp: URL decoding, the parameter and file maps, the parser
  of one multipart part behind the boundary scanner, and the default upload handler that writes
  temporary files. \<open>boost::filesystem\<close> is a parameter: \<open>env_path\<close> is the result of creating and
  opening the n-th temporary file (\<open>None\<close> for an exception), \<open>env_write\<close> whether writes to it
  succeed; the files themselves are a map from paths to contents. \<open>None\<close> as a result stands for
  undefined behaviour (a read past the end, a null pointer).
\<close>

section \<open>URL encoding\<close>

definition GetHexVal :: "char \<Rightarrow> nat" where
  "GetHexVal val =
     (let n = of_char val :: nat
      in if 48 \<le> n \<and> n \<le> 57 then n - 48
         else if 65 \<le> n \<and> n \<le> 70 then n - 65 + 10
         else if 97 \<le> n \<and> n \<le> 102 then n - 97 + 10
         else 0)"

text \<open>\<open>(GetHexVal(h) << 4) | GetHexVal(l)\<close> as a character.\<close>

definition hex_char :: "char \<Rightarrow> char \<Rightarrow> char" where
  "hex_char h l = char_of (push_bit 4 (GetHexVal h) OR GetHexVal l :: nat)"

fun decode_loop :: "string \<Rightarrow> string \<Rightarrow> string option" where
  "decode_loop target [] = Some target"
| "decode_loop target (c # s) =
     (if c = CHR ''+'' then decode_loop (target @ '' '') s
      else if c = CHR ''%'' \<and> s \<noteq> []
      then (case s of h # l # t \<Rightarrow> decode_loop (target @ [hex_char h l]) t | _ \<Rightarrow> None)
      else decode_loop (target @ [c]) s)"

definition DecodeURLEncoded :: "string \<Rightarrow> string \<Rightarrow> string option" where
  "DecodeURLEncoded target s = decode_loop target s"

text \<open>\<open>AddURLEncoded\<close>: the state is the parameter whose value is being read, if any, the name
  read so far (\<open>ParseTmp\<close>) and the parameters; \<open>TargetStr\<close> is the value or the name.\<close>

type_synonym url_state = "string option \<times> string \<times> (string \<rightharpoonup> string)"

fun url_append :: "char \<Rightarrow> url_state \<Rightarrow> url_state" where
  "url_append c (None, tmp, m) = (None, tmp @ [c], m)"
| "url_append c (Some k, tmp, m) = (Some k, tmp, m(k \<mapsto> (case m k of Some v \<Rightarrow> v | None \<Rightarrow> []) @ [c]))"

fun url_plain :: "char \<Rightarrow> url_state \<Rightarrow> url_state" where
  "url_plain c (None, tmp, m) =
     (if c = CHR ''='' then (Some tmp, tmp, m(tmp \<mapsto> [])) else url_append c (None, tmp, m))"
| "url_plain c (Some k, tmp, m) =
     (if c = CHR ''&'' then (None, [], m) else url_append c (Some k, tmp, m))"

fun url_loop :: "string \<Rightarrow> url_state \<Rightarrow> url_state option" where
  "url_loop [] st = Some st"
| "url_loop (c # s) st =
     (if c = CHR ''+'' then url_loop s (url_append (CHR '' '') st)
      else if c = CHR ''%'' \<and> s \<noteq> []
      then (case s of h # l # t \<Rightarrow> url_loop t (url_append (hex_char h l) st) | _ \<Rightarrow> None)
      else url_loop s (url_plain c st))"

section \<open>The upload handler\<close>

record upload_env =
  env_path :: "nat \<Rightarrow> (string \<times> bool) option"
  env_write :: "string \<Rightarrow> bool"

record upload =
  up_MaxUploadSize :: nat
  up_MaxTotalUploadSize :: nat
  up_CurrFileS :: "string option"
  up_CurrFileSize :: nat
  up_TotalFileSize :: nat
  up_Files :: "string \<rightharpoonup> string"
  up_Created :: nat

text \<open>\<open>OnNewFile\<close> returns the path and whether the file is open.\<close>

definition OnNewFile :: "upload_env \<Rightarrow> upload \<Rightarrow> (string \<times> bool) \<times> upload" where
  "OnNewFile env u =
     (let u1 = u\<lparr>up_CurrFileS := None\<rparr>
      in if up_MaxUploadSize u1 = 0 \<or> up_MaxTotalUploadSize u1 = 0 then (([], False), u1)
         else case env_path env (up_Created u1) of
             None \<Rightarrow> (([], False), u1\<lparr>up_Created := Suc (up_Created u1)\<rparr>)
           | Some (path, isOpen) \<Rightarrow>
               ((path, isOpen), u1\<lparr>up_CurrFileS := Some path, up_Created := Suc (up_Created u1),
                  up_Files := (if isOpen then (up_Files u1)(path \<mapsto> []) else up_Files u1)\<rparr>))"

definition UINTMAX :: nat where "UINTMAX = 18446744073709551616"

definition OnFileData :: "upload_env \<Rightarrow> string \<Rightarrow> upload \<Rightarrow> bool \<times> upload" where
  "OnFileData env part u =
     (case up_CurrFileS u of
        None \<Rightarrow> (False, u)
      | Some path \<Rightarrow>
          let u1 = u\<lparr>up_CurrFileSize := (up_CurrFileSize u + length part) mod UINTMAX\<rparr>
          in if up_CurrFileSize u1 > up_MaxUploadSize u1 then (False, u1)
             else let u2 = u1\<lparr>up_TotalFileSize := (up_TotalFileSize u1 + length part) mod UINTMAX\<rparr>
                  in if up_TotalFileSize u2 > up_MaxTotalUploadSize u2 then (False, u2)
                     else if env_write env path
                     then (True, u2\<lparr>up_Files := (up_Files u2)(path \<mapsto>
                             (case up_Files u2 path of Some d \<Rightarrow> d | None \<Rightarrow> []) @ part)\<rparr>)
                     else (False, u2))"

definition OnFileEnd :: "upload \<Rightarrow> upload" where
  "OnFileEnd u = u\<lparr>up_CurrFileS := None\<rparr>"

definition upload_init :: "nat \<Rightarrow> nat \<Rightarrow> upload" where
  "upload_init maxUpload maxTotal = \<lparr>up_MaxUploadSize = maxUpload, up_MaxTotalUploadSize = maxTotal,
     up_CurrFileS = None, up_CurrFileSize = 0, up_TotalFileSize = 0, up_Files = Map.empty, up_Created = 0\<rparr>"

section \<open>State\<close>

datatype FM_STATE = STATE_HEADERSTART | STATE_HEADERS_END | STATE_READ | STATE_FINISHED

datatype PART_MODE = PARTMODE_STRING | PARTMODE_FILE

text \<open>The union of the two target pointers, as the key of the entry it points at.\<close>

datatype fm_target = NoTarget | TargetParam string | TargetFile string

record uploaded_file =
  uf_MimeType :: string
  uf_OrigFileName :: string
  uf_Path :: string

record query_params =
  qp_FMParseState :: FM_STATE
  qp_BoundaryParseCounter :: nat
  qp_FMParseCounter :: nat
  qp_Upload :: upload
  qp_BoundaryStr :: string
  qp_ParseTmp :: string
  qp_HeaderParseTmp :: string
  qp_ParamMap :: "string \<rightharpoonup> string"
  qp_FileMap :: "string \<rightharpoonup> uploaded_file"
  qp_CurrFMPart :: fm_target
  qp_CurrPartMode :: PART_MODE

text \<open>The constructor leaves \<open>FMParseCounter\<close> as the memory was.\<close>

definition qp_init :: "nat \<Rightarrow> upload \<Rightarrow> query_params" where
  "qp_init junk u = \<lparr>qp_FMParseState = STATE_HEADERSTART, qp_BoundaryParseCounter = 2, qp_FMParseCounter = junk,
     qp_Upload = u, qp_BoundaryStr = [], qp_ParseTmp = [], qp_HeaderParseTmp = [], qp_ParamMap = Map.empty,
     qp_FileMap = Map.empty, qp_CurrFMPart = NoTarget, qp_CurrPartMode = PARTMODE_STRING\<rparr>"

definition AddURLEncoded :: "string \<Rightarrow> query_params \<Rightarrow> query_params option" where
  "AddURLEncoded s q = map_option (\<lambda>(_, tmp, m). q\<lparr>qp_ParseTmp := tmp, qp_ParamMap := m\<rparr>)
     (url_loop s (None, [], qp_ParamMap q))"

text \<open>The three accessors; \<open>None\<close> is \<open>ParameterNotFound\<close> and the null pointer.\<close>

definition Get :: "query_params \<Rightarrow> string \<Rightarrow> string option" where
  "Get q name = qp_ParamMap q name"

definition GetPtr :: "query_params \<Rightarrow> string \<Rightarrow> string option" where
  "GetPtr q name = qp_ParamMap q name"

definition GetDefault :: "query_params \<Rightarrow> string \<Rightarrow> string \<Rightarrow> string" where
  "GetDefault q name def = (case qp_ParamMap q name of Some v \<Rightarrow> v | None \<Rightarrow> def)"

definition remove_file :: "string \<Rightarrow> query_params \<Rightarrow> query_params" where
  "remove_file path q = q\<lparr>qp_Upload := (qp_Upload q)\<lparr>up_Files := (up_Files (qp_Upload q))(path := None)\<rparr>\<rparr>"

text \<open>\<open>DeleteUploadedFiles\<close> on the entries of \<open>FileMap\<close>.\<close>

definition DeleteUploadedFiles :: "query_params \<Rightarrow> query_params" where
  "DeleteUploadedFiles q = q\<lparr>qp_Upload := (qp_Upload q)\<lparr>up_Files := (\<lambda>path.
     if path \<noteq> [] \<and> (\<exists>f \<in> ran (qp_FileMap q). uf_Path f = path) then None else up_Files (qp_Upload q) path)\<rparr>\<rparr>"

text \<open>The constructors without limits, and from an encoded text.\<close>

definition FileUpload_init :: upload where
  "FileUpload_init = upload_init (UINTMAX - 1) (UINTMAX - 1)"

definition qp_default :: "nat \<Rightarrow> query_params" where
  "qp_default junk = qp_init junk FileUpload_init"

definition qp_of_url :: "nat \<Rightarrow> string \<Rightarrow> query_params option" where
  "qp_of_url junk s = AddURLEncoded s (qp_default junk)"

text \<open>The move constructor: \<open>FMParseState\<close> is as the memory was, and of the upload helper, which is copied,
  only the limits are taken over.\<close>

definition move_construct :: "FM_STATE \<Rightarrow> query_params \<Rightarrow> query_params" where
  "move_construct junk other = other\<lparr>qp_FMParseState := junk,
     qp_Upload := (qp_Upload other)\<lparr>up_CurrFileS := None, up_CurrFileSize := 0, up_TotalFileSize := 0\<rparr>\<rparr>"

text \<open>Move assignment: everything but \<open>FMParseState\<close>, which keeps the value of the target.\<close>

definition move_assign :: "query_params \<Rightarrow> query_params \<Rightarrow> query_params" where
  "move_assign target other = other\<lparr>qp_FMParseState := qp_FMParseState target\<rparr>"

section \<open>Parts\<close>

definition StartNewPart :: "query_params \<Rightarrow> query_params" where
  "StartNewPart q = q\<lparr>qp_FMParseState := STATE_HEADERSTART, qp_FMParseCounter := 0, qp_HeaderParseTmp := []\<rparr>"

definition IsCurrPartFile :: "query_params \<Rightarrow> bool" where
  "IsCurrPartFile q \<longleftrightarrow> qp_CurrPartMode q = PARTMODE_FILE"

definition IsCurrPartValid :: "query_params \<Rightarrow> bool" where
  "IsCurrPartValid q \<longleftrightarrow> qp_CurrFMPart q \<noteq> NoTarget"

text \<open>The line loop of \<open>ParseFMHeaders\<close>: name, file name, its presence and the content type found
  so far; the headers are cut in place in the buffer, whose result is not read again.\<close>

type_synonym fm_found = "(string \<times> string \<times> bool) \<times> string option"

definition fm_header :: "header \<Rightarrow> fm_found \<Rightarrow> fm_found option" where
  "fm_header h found =
     (if hd_IntName h = HN_CONTENT_DISPOSITION
      then map_option (\<lambda>d. (d, snd found)) (ParseContentDisposition h (fst found))
      else if hd_IntName h = HN_CONTENT_TYPE then Some (fst found, hd_Value h)
      else Some found)"

function fm_lines :: "string \<Rightarrow> fm_found \<Rightarrow> fm_found option" where
  "fm_lines buf found =
     (let line = takeWhile (\<lambda>c. c \<noteq> CHR 0x0A) buf
      in if length line < length buf
         then (case fm_header (fst (Header line (drop (length line) buf))) found of
                 None \<Rightarrow> None
               | Some found' \<Rightarrow> fm_lines (drop (Suc (length line)) buf) found')
         else Some found)"
  by auto
termination
  by (relation "measure (\<lambda>(buf, found). length buf)") auto

declare fm_lines.simps [simp del]

definition ParseFMHeaders :: "upload_env \<Rightarrow> string \<Rightarrow> query_params \<Rightarrow> (bool \<times> query_params) option" where
  "ParseFMHeaders env headers q =
     (case fm_lines headers (([], [], False), None) of
        None \<Rightarrow> None
      | Some ((name, fileName, fileNameExists), contentType) \<Rightarrow>
          if name \<noteq> []
          then let q1 = (if qp_CurrPartMode q = PARTMODE_FILE then q\<lparr>qp_Upload := OnFileEnd (qp_Upload q)\<rparr> else q);
                   mime = (case contentType of Some t \<Rightarrow> t | None \<Rightarrow> [])
               in if fileNameExists
                  then let ((path, ok), u) = OnNewFile env (qp_Upload q1);
                           q2 = q1\<lparr>qp_CurrPartMode := PARTMODE_FILE, qp_Upload := u\<rparr>
                       in if ok
                          then let old = (case qp_FileMap q2 name of Some f \<Rightarrow> uf_Path f | None \<Rightarrow> []);
                                   q3 = (if old \<noteq> [] then remove_file old q2 else q2)
                               in Some (True, q3\<lparr>qp_CurrFMPart := TargetFile name,
                                    qp_FileMap := (qp_FileMap q3)(name \<mapsto> \<lparr>uf_MimeType = mime,
                                      uf_OrigFileName = fileName, uf_Path = path\<rparr>)\<rparr>)
                          else Some (True, q2\<lparr>qp_CurrFMPart := NoTarget\<rparr>)
                  else Some (True, q1\<lparr>qp_CurrPartMode := PARTMODE_STRING, qp_CurrFMPart := TargetParam name,
                               qp_ParamMap := (qp_ParamMap q1)(name \<mapsto> [])\<rparr>)
          else Some (False, q\<lparr>qp_CurrFMPart := NoTarget\<rparr>))"

text \<open>The loop of \<open>AppendToCurrentPart\<close>: \<open>kept\<close> is the text from \<open>OrigBegin\<close> to \<open>Begin\<close>, the list
  argument the text from \<open>Begin\<close> to \<open>End\<close>. It ends with a return value or with the text left. The literal
  that ends the headers has a NUL behind its four characters.\<close>

definition CRLFCRLF :: string where
  "CRLFCRLF = [CHR 0x0D, CHR 0x0A, CHR 0x0D, CHR 0x0A]"

fun part_loop :: "upload_env \<Rightarrow> string \<Rightarrow> string \<Rightarrow> query_params
    \<Rightarrow> (bool option \<times> string \<times> string \<times> query_params) option" where
  "part_loop env kept [] q = Some (None, kept, [], q)"
| "part_loop env kept (c # s) q =
     (case qp_FMParseState q of
        STATE_READ \<Rightarrow> Some (None, kept, c # s, q)
      | STATE_HEADERSTART \<Rightarrow>
          if qp_FMParseCounter q = 0
          then if c = CHR 0x0D \<or> c = CHR ''-''
               then part_loop env (kept @ [c]) s (q\<lparr>qp_FMParseCounter := Suc (qp_FMParseCounter q)\<rparr>)
               else Some (Some False, kept, c # s, q)
          else if qp_FMParseCounter q = 1
          then if c = CHR 0x0A
               then part_loop env [] s (q\<lparr>qp_FMParseCounter := 0, qp_FMParseState := STATE_HEADERS_END\<rparr>)
               else if c = CHR ''-''
               then part_loop env (kept @ [c]) s
                      (q\<lparr>qp_FMParseState := STATE_FINISHED, qp_Upload := OnFileEnd (qp_Upload q)\<rparr>)
               else Some (Some False, kept, c # s, q)
          else part_loop env (kept @ [c]) s q
      | STATE_HEADERS_END \<Rightarrow>
          if qp_FMParseCounter q > 4 then None
          else if c = (CRLFCRLF @ [NUL]) ! qp_FMParseCounter q
          then let q1 = q\<lparr>qp_FMParseCounter := Suc (qp_FMParseCounter q)\<rparr>
               in if qp_FMParseCounter q1 = 4
                  then let q2 = (if length kept > 4
                                 then q1\<lparr>qp_HeaderParseTmp := qp_HeaderParseTmp q1 @ kept @ [c]\<rparr> else q1)
                       in (case ParseFMHeaders env (qp_HeaderParseTmp q2) q2 of
                             None \<Rightarrow> None
                           | Some (ok, q3) \<Rightarrow>
                               if ok then part_loop env (kept @ [c]) s (q3\<lparr>qp_FMParseState := STATE_READ\<rparr>)
                               else Some (Some False, kept, c # s, q3\<lparr>qp_HeaderParseTmp := []\<rparr>))
                  else part_loop env (kept @ [c]) s q1
          else part_loop env (kept @ [c]) s (q\<lparr>qp_FMParseCounter := 0\<rparr>)
      | STATE_FINISHED \<Rightarrow>
          Some (Some True, kept, c # s, q\<lparr>qp_Upload := OnFileEnd (qp_Upload q)\<rparr>))"

definition append_param :: "string \<Rightarrow> query_params \<Rightarrow> query_params" where
  "append_param s q = (case qp_CurrFMPart q of
      TargetParam k \<Rightarrow> q\<lparr>qp_ParamMap := (qp_ParamMap q)(k \<mapsto>
         (case qp_ParamMap q k of Some v \<Rightarrow> v | None \<Rightarrow> []) @ s)\<rparr>
    | _ \<Rightarrow> q)"

definition AppendToCurrentPart :: "upload_env \<Rightarrow> string \<Rightarrow> query_params \<Rightarrow> (bool \<times> query_params) option" where
  "AppendToCurrentPart env s q =
     (if s = [] \<or> qp_FMParseState q = STATE_FINISHED then Some (True, q)
      else case part_loop env [] s q of
          None \<Rightarrow> None
        | Some (Some b, _, _, q1) \<Rightarrow> Some (b, q1)
        | Some (None, kept, rest, q1) \<Rightarrow>
            if qp_FMParseState q1 = STATE_READ
            then if IsCurrPartValid q1
                 then if IsCurrPartFile q1
                      then let (b, u) = OnFileData env rest (qp_Upload q1) in Some (b, q1\<lparr>qp_Upload := u\<rparr>)
                      else Some (True, append_param rest q1)
                 else Some (False, q1)
            else if qp_FMParseState q1 = STATE_HEADERS_END
            then Some (True, q1\<lparr>qp_HeaderParseTmp := qp_HeaderParseTmp q1 @ kept\<rparr>)
            else Some (True, q1))"

text \<open>The calls of the scanner on the part parser, in order; their results are not looked at.\<close>

fun mp_apply :: "upload_env \<Rightarrow> mp_call list \<Rightarrow> query_params \<Rightarrow> query_params option" where
  "mp_apply env [] q = Some q"
| "mp_apply env (AppendPart s # cs) q =
     (case AppendToCurrentPart env s q of None \<Rightarrow> None | Some (_, q1) \<Rightarrow> mp_apply env cs q1)"
| "mp_apply env (NewPart # cs) q = mp_apply env cs (StartNewPart q)"

definition QP_AppendFormMultipart :: "upload_env \<Rightarrow> string \<Rightarrow> query_params \<Rightarrow> query_params option" where
  "QP_AppendFormMultipart env s q =
     (let ((counter, tmp), calls) = AppendFormMultipart (qp_BoundaryStr q) s (qp_BoundaryParseCounter q, qp_ParseTmp q)
      in map_option (\<lambda>q1. q1\<lparr>qp_BoundaryParseCounter := counter, qp_ParseTmp := tmp\<rparr>) (mp_apply env calls q))"

section \<open>Facts on URL encoding\<close>

definition hexdigit :: "nat \<Rightarrow> char" where
  "hexdigit n = ''0123456789ABCDEF'' ! n"

text \<open>A reference encoder; \<open>safe\<close> says which of the ordinary characters stand for themselves.\<close>

definition enc_char :: "(char \<Rightarrow> bool) \<Rightarrow> char \<Rightarrow> string" where
  "enc_char safe c =
     (if safe c \<and> c \<notin> set ''+%=&'' then [c]
      else if c = CHR '' '' then ''+''
      else [CHR ''%'', hexdigit (of_char c div 16), hexdigit (of_char c mod 16)])"

definition url_encode :: "(char \<Rightarrow> bool) \<Rightarrow> string \<Rightarrow> string" where
  "url_encode safe s = concat (map (enc_char safe) s)"

definition url_pair :: "(char \<Rightarrow> bool) \<Rightarrow> string \<times> string \<Rightarrow> string" where
  "url_pair safe kv = url_encode safe (fst kv) @ CHR ''='' # url_encode safe (snd kv)"

fun url_query :: "(char \<Rightarrow> bool) \<Rightarrow> (string \<times> string) list \<Rightarrow> string" where
  "url_query safe [] = []"
| "url_query safe [kv] = url_pair safe kv"
| "url_query safe (kv # kvs) = url_pair safe kv @ CHR ''&'' # url_query safe kvs"

lemma GetHexVal_hexdigit: "n < 16 \<Longrightarrow> GetHexVal (hexdigit n) = n"
proof -
  have "list_all (\<lambda>n. GetHexVal (hexdigit n) = n) [0..<16]"
    by code_simp
  then show "n < 16 \<Longrightarrow> GetHexVal (hexdigit n) = n"
    by (simp add: list_all_iff)
qed

lemma nibbles: "push_bit 4 a OR b = a * 16 + b" if "b < 16" for a b :: nat
proof -
  have b: "take_bit 4 b = b" using that by (simp add: take_bit_nat_eq_self)
  have "push_bit 4 a AND b = 0"
    by (subst b [symmetric]) (auto intro!: bit_eqI simp: bit_simps)
  then show ?thesis
    by (simp add: disjunctive_add_eq_or push_bit_eq_mult flip: disjunctive_add_eq_or)
qed

lemma hex_char_code: "hex_char (hexdigit (of_char c div 16)) (hexdigit (of_char c mod 16)) = c"
proof -
  have "of_char c < (256::nat)" by simp
  then have "of_char c div 16 < (16::nat)" by (simp only: less_mult_imp_div_less)
  then show ?thesis
    by (simp add: hex_char_def GetHexVal_hexdigit nibbles)
qed

lemma decode_encoded: "decode_loop target (url_encode safe s @ t) = decode_loop (target @ s) t"
proof (induction s arbitrary: target)
  case (Cons c s)
  have "decode_loop target (enc_char safe c @ u) = decode_loop (target @ [c]) u" for u
    by (auto simp: enc_char_def hex_char_code)
  then show ?case
    using Cons by (simp add: url_encode_def)
qed (simp add: url_encode_def)

lemma url_append_name: "url_loop (url_encode safe s @ t) (None, tmp, m) = url_loop t (None, tmp @ s, m)"
proof (induction s arbitrary: tmp)
  case (Cons c s)
  have "url_loop (enc_char safe c @ u) (None, tmp, m) = url_loop u (None, tmp @ [c], m)" for u
    by (auto simp: enc_char_def hex_char_code)
  then show ?case
    using Cons by (simp add: url_encode_def)
qed (simp add: url_encode_def)

lemma url_append_value: "m k = Some v \<Longrightarrow>
  url_loop (url_encode safe s @ t) (Some k, tmp, m) = url_loop t (Some k, tmp, m(k \<mapsto> v @ s))"
proof (induction s arbitrary: m v)
  case (Cons c s)
  have "url_loop (enc_char safe c @ u) (Some k, tmp, m) = url_loop u (Some k, tmp, m(k \<mapsto> v @ [c]))" for u
    using Cons.prems by (auto simp: enc_char_def hex_char_code)
  then show ?case
    using Cons.IH [of "m(k \<mapsto> v @ [c])" "v @ [c]"] by (simp add: url_encode_def fun_upd_same fun_upd_upd del: fun_upd_apply)
qed (simp add: url_encode_def fun_upd_idem)

lemma url_pair_loop:
  "url_loop (url_pair safe (k, v) @ t) (None, [], m) = url_loop t (Some k, k, m(k \<mapsto> v))"
  using url_append_name [of safe k "CHR ''='' # url_encode safe v @ t" "[]" m]
    url_append_value [of "m(k \<mapsto> [])" k "[]" safe v t k]
  by (simp add: url_pair_def)

lemma url_query_loop: "kvs \<noteq> [] \<Longrightarrow> \<exists>tmp. url_loop (url_query safe kvs) (None, [], m)
  = Some (Some (fst (last kvs)), tmp, m ++ map_of (rev kvs))"
proof (induction safe kvs arbitrary: m rule: url_query.induct)
  case (2 safe kv)
  then show ?case using url_pair_loop [of safe "fst kv" "snd kv" "[]" m] by (cases kv) (auto simp: map_add_def fun_eq_iff)
next
  case (3 safe kv kv' kvs)
  obtain k v where kv: "kv = (k, v)" by force
  have "url_loop (url_query safe (kv # kv' # kvs)) (None, [], m) =
      url_loop (url_query safe (kv' # kvs)) (None, [], m(k \<mapsto> v))"
    using url_pair_loop [of safe k v "CHR ''&'' # url_query safe (kv' # kvs)" m] by (simp add: kv)
  moreover have "m(k \<mapsto> v) ++ map_of (rev (kv' # kvs)) = m ++ map_of (rev (kv # kv' # kvs))"
    by (rule ext) (simp add: kv map_add_def split: option.splits)
  ultimately show ?case
    using "3.IH" [of "m(k \<mapsto> v)"] by (simp only: last.simps list.simps if_False) blast
qed simp


section \<open>Facts on parts\<close>

fun hend_run :: "nat \<Rightarrow> string \<Rightarrow> nat option" where
  "hend_run n [] = Some n"
| "hend_run n (c # s) = (let n' = (if c = CRLFCRLF ! n then Suc n else 0) in if n' = 4 then None else hend_run n' s)"

lemma hend_run_append: "hend_run n (s @ t) = (case hend_run n s of None \<Rightarrow> None | Some m \<Rightarrow> hend_run m t)"
  by (induction s arbitrary: n) (auto simp: Let_def)

lemma literal_char: "n < 4 \<Longrightarrow> (CRLFCRLF @ [NUL]) ! n = CRLFCRLF ! n"
  unfolding nth_append by (simp add: CRLFCRLF_def)

lemma quiet_run:
  assumes "qp_FMParseState q = STATE_HEADERS_END" "qp_FMParseCounter q < 4" "hend_run (qp_FMParseCounter q) t = Some n"
  shows "part_loop env kept (t @ s) q = part_loop env (kept @ t) s (q\<lparr>qp_FMParseCounter := n\<rparr>) \<and> n < 4"
  using assms
proof (induction t arbitrary: q kept)
  case (Cons c t)
  show ?case
    using Cons.prems Cons.IH [of "q\<lparr>qp_FMParseCounter := 0\<rparr>" "kept @ [c]"]
      Cons.IH [of "q\<lparr>qp_FMParseCounter := Suc (qp_FMParseCounter q)\<rparr>" "kept @ [c]"]
    by (auto simp: Let_def literal_char split: if_splits)
qed (cases q, auto)

lemma quiet_loop:
  assumes "qp_FMParseState q = STATE_HEADERS_END" "qp_FMParseCounter q < 4" "hend_run (qp_FMParseCounter q) t = Some n"
  shows "part_loop env kept t q = Some (None, kept @ t, [], q\<lparr>qp_FMParseCounter := n\<rparr>)"
  using quiet_run [OF assms, of env kept "[]"] by simp

lemma hend_run_less: "n < 4 \<Longrightarrow> hend_run n t = Some m \<Longrightarrow> m < 4"
proof (induction t arbitrary: n)
  case (Cons c t)
  show ?case
    using Cons.prems Cons.IH [of "Suc n"] Cons.IH [of 0] by (auto simp: Let_def split: if_splits)
qed simp

text \<open>The state of a new part after the text \<open>u\<close>, as long as the headers have not ended.\<close>

definition part_after :: "string \<Rightarrow> query_params \<Rightarrow> query_params" where
  "part_after u q = (if u = [] then StartNewPart q
     else if u = [CHR 0x0D] then (StartNewPart q)\<lparr>qp_FMParseCounter := 1\<rparr>
     else (StartNewPart q)\<lparr>qp_FMParseState := STATE_HEADERS_END, qp_HeaderParseTmp := drop 2 u,
            qp_FMParseCounter := the (hend_run 0 (drop 2 u))\<rparr>)"

lemma header_piece:
  assumes "u @ p @ v = CHR 0x0D # CHR 0x0A # h" "hend_run 0 h \<noteq> None"
  shows "AppendToCurrentPart env p (part_after u q) = Some (True, part_after (u @ p) q)"
proof -
  consider "u = []" "p = []" | "u = []" "p = [CHR 0x0D]"
    | p' where "u = []" "p = CHR 0x0D # CHR 0x0A # p'" "h = p' @ v"
    | "u = [CHR 0x0D]" "p = []" | p' where "u = [CHR 0x0D]" "p = CHR 0x0A # p'" "h = p' @ v"
    | u' where "u = CHR 0x0D # CHR 0x0A # u'" "h = u' @ p @ v"
    using assms(1) by (auto simp: append_eq_Cons_conv)
  then show ?thesis
  proof cases
    case (3 p')
    then obtain n where "hend_run 0 p' = Some n"
      using assms(2) by (auto simp: hend_run_append split: option.splits)
    then show ?thesis
      using 3 quiet_loop [of "(StartNewPart q)\<lparr>qp_FMParseCounter := 0, qp_FMParseState := STATE_HEADERS_END\<rparr>" p' n env "[]"]
      by (simp add: AppendToCurrentPart_def part_after_def StartNewPart_def)
  next
    case (5 p')
    then obtain n where "hend_run 0 p' = Some n"
      using assms(2) by (auto simp: hend_run_append split: option.splits)
    then show ?thesis
      using 5 quiet_loop [of "(StartNewPart q)\<lparr>qp_FMParseCounter := 0, qp_FMParseState := STATE_HEADERS_END\<rparr>" p' n env "[]"]
      by (simp add: AppendToCurrentPart_def part_after_def StartNewPart_def)
  next
    case (6 u')
    then obtain n m where n: "hend_run 0 u' = Some n" "hend_run n p = Some m"
      using assms(2) by (auto simp: hend_run_append split: option.splits)
    then show ?thesis
      using 6 quiet_loop [of "part_after u q" p m env "[]"] hend_run_less [of 0 u' n]
      by (cases "p = []") (auto simp: AppendToCurrentPart_def part_after_def StartNewPart_def hend_run_append)
  qed (simp_all add: AppendToCurrentPart_def part_after_def StartNewPart_def)
qed

lemma header_pieces:
  assumes "u @ concat hs @ v = CHR 0x0D # CHR 0x0A # h" "hend_run 0 h \<noteq> None"
  shows "mp_apply env (map AppendPart hs) (part_after u q) = Some (part_after (u @ concat hs) q)"
  using assms(1)
proof (induction hs arbitrary: u)
  case (Cons p hs)
  show ?case
    using header_piece [of u p "concat hs @ v" h env q] assms(2) Cons.prems Cons.IH [of "u @ p"] by simp
qed simp

lemma mp_apply_append: "mp_apply env (xs @ ys) q = (case mp_apply env xs q of None \<Rightarrow> None | Some q1 \<Rightarrow> mp_apply env ys q1)"
  by (induction env xs q rule: mp_apply.induct) (auto split: option.splits)

type_synonym fm_line = "string \<times> nat \<times> string"

definition fm_line_ok :: "fm_line \<Rightarrow> bool" where
  "fm_line_ok l = (case l of (name, k, val) \<Rightarrow>
     set name \<inter> {CHR '':'', NUL, CHR 0x0A, CHR 0x0D} = {} \<and> value_ok val \<and> CHR 0x0A \<notin> set val)"

definition fm_text :: "fm_line list \<Rightarrow> string" where
  "fm_text lines = concat (map (\<lambda>(name, k, val). header_line name k val @ [CHR 0x0A]) lines)"

definition line_name :: "fm_line \<Rightarrow> HEADERNAME" where
  "line_name l = ParseHeader (map tolower (fst l))"

definition line_header :: "fm_line \<Rightarrow> header" where
  "line_header l = \<lparr>hd_Name = map tolower (fst l), hd_Value = Some (snd (snd l)), hd_IntName = line_name l\<rparr>"

text \<open>The content type of a part: the value of its last such header.\<close>

definition fm_mime :: "fm_line list \<Rightarrow> string option \<Rightarrow> string option" where
  "fm_mime lines = fold (\<lambda>l m. if line_name l = HN_CONTENT_TYPE then Some (snd (snd l)) else m) lines"

lemma fm_lines_cons:
  assumes "fm_line_ok l"
  shows "fm_lines (fm_text (l # ls) @ e) found =
    (case fm_header (line_header l) found of None \<Rightarrow> None | Some found' \<Rightarrow> fm_lines (fm_text ls @ e) found')"
proof -
  obtain name k val where l: "l = (name, k, val)" by (cases l) auto
  let ?line = "header_line name k val" and ?rest = "fm_text ls @ e"
  have t: "takeWhile (\<lambda>c. c \<noteq> CHR 0x0A) (?line @ CHR 0x0A # ?rest) = ?line"
    using assms by (intro takeWhile_run) (auto simp: l fm_line_ok_def header_line_def list_all_iff)
  have "Header ?line (CHR 0x0A # ?rest) = (line_header l, map tolower name @ NUL # replicate k (CHR '' '') @ val @ [NUL])"
    using assms by (subst Header_line) (auto simp: l fm_line_ok_def line_header_def line_name_def)
  moreover have "fm_text (l # ls) @ e = ?line @ CHR 0x0A # ?rest"
    by (simp add: fm_text_def l)
  ultimately show ?thesis
    using fm_lines.simps [of "?line @ CHR 0x0A # ?rest" found] by (simp add: t Let_def split: option.split)
qed

lemma fm_lines_other:
  assumes "list_all fm_line_ok ls" "\<forall>l \<in> set ls. line_name l \<noteq> HN_CONTENT_DISPOSITION"
  shows "fm_lines (fm_text (ls @ ls') @ e) (d, m) = fm_lines (fm_text ls' @ e) (d, fm_mime ls m)"
  using assms
proof (induction ls arbitrary: m)
  case (Cons l ls)
  then show ?case
    by (auto simp: fm_lines_cons fm_header_def line_header_def fm_mime_def)
qed (simp add: fm_mime_def)

abbreviation line_end :: string where
  "line_end \<equiv> [CHR 0x0D, CHR 0x0A]"

text \<open>A line that is not complete is not read, and the empty line is no header.\<close>

lemma fm_lines_end:
  assumes "CHR 0x0A \<notin> set e \<or> e = line_end"
  shows "fm_lines (fm_text [] @ e) found = Some found"
proof -
  have n: "fm_lines e found = Some found" if "CHR 0x0A \<notin> set e" for e found
  proof -
    have "length (takeWhile (\<lambda>c. c \<noteq> CHR 0x0A) e) = length e"
      using that by (subst takeWhile_eq_all_conv [THEN iffD2]) auto
    then show ?thesis
      using fm_lines.simps [of e found] by (simp add: Let_def)
  qed
  have "hd_IntName (fst (Header [CHR 0x0D] [CHR 0x0A])) = HN_UNKNOWN"
    by (simp add: Header_def ExtractHeader_def Let_def)
  then have "fm_lines line_end found = Some found"
    using n [of "[]" found] fm_lines.simps [of line_end found] by (simp add: fm_header_def)
  then show ?thesis
    using assms n [of e found] by (auto simp: fm_text_def)
qed

text \<open>The value of a \<open>Content-Disposition\<close> header with a name and perhaps a file name.\<close>

definition cd_value :: "string \<Rightarrow> string option \<Rightarrow> string" where
  "cd_value name fn = ''form-data; '' @ (case fn of
      None \<Rightarrow> dkv_last ''name'' True name
    | Some f \<Rightarrow> dkv_item (''name'', Some (True, name)) @ '' '' @ dkv_last ''filename'' True f)"

definition cd_text_ok :: "string \<Rightarrow> bool" where
  "cd_text_ok s \<longleftrightarrow> list_all (\<lambda>c. c \<noteq> CHR 0x22 \<and> c \<noteq> NUL) s"

lemma ParseDelimited_blank: "ParseDelimitedKeyValue (CHR '' '' # t) = ParseDelimitedKeyValue t"
  by (simp add: ParseDelimitedKeyValue_def dkv_step_def dkv_init_def cstr_def)

lemma cd_parsed:
  assumes "cd_text_ok name" "case fn of None \<Rightarrow> True | Some f \<Rightarrow> cd_text_ok f"
  shows "ParseDelimitedKeyValue (cd_value name fn) = (''form-data'', None) # (''name'', Some name)
    # (case fn of None \<Rightarrow> [] | Some f \<Rightarrow> [(''filename'', Some f)])"
proof -
  have k: "dkv_ok (''form-data'', None)" "dkv_ok (''name'', Some (True, name))"
    using assms(1) by (simp_all add: cd_text_ok_def key_char_def)
  show ?thesis
  proof (cases fn)
    case None
    then show ?thesis
      using ParseDelimited_items [of "[(''form-data'', None)]" "''name''" True name "[]"] k
      by (simp add: cd_value_def ParseDelimited_blank)
  next
    case (Some f)
    then have "dkv_ok (''filename'', Some (True, f))"
      using assms(2) by (simp add: cd_text_ok_def key_char_def)
    then show ?thesis
      using ParseDelimited_items [of "[(''form-data'', None), (''name'', Some (True, name))]" "''filename''" True f "[]"] k Some
      by (simp add: cd_value_def ParseDelimited_blank)
  qed
qed

lemma fm_lines_found:
  assumes "list_all fm_line_ok (pre @ cd # post)" "CHR 0x0A \<notin> set e \<or> e = line_end" "line_name cd = HN_CONTENT_DISPOSITION"
    "snd (snd cd) = cd_value name fn" "\<forall>l \<in> set (pre @ post). line_name l \<noteq> HN_CONTENT_DISPOSITION"
    "cd_text_ok name" "case fn of None \<Rightarrow> True | Some f \<Rightarrow> cd_text_ok f"
  shows "fm_lines (fm_text (pre @ cd # post) @ e) (([], [], False), None) =
    Some ((name, (case fn of None \<Rightarrow> [] | Some f \<Rightarrow> f), fn \<noteq> None), fm_mime (pre @ post) None)"
proof -
  have "fm_header (line_header cd) (([], [], False), m) = Some ((name, (case fn of None \<Rightarrow> [] | Some f \<Rightarrow> f), fn \<noteq> None), m)" for m
    using assms(3,4) cd_parsed [OF assms(6,7)]
    by (cases fn) (simp_all add: fm_header_def line_header_def ParseContentDisposition_def ContentDisposExtractor_def IsEqual_def)
  then show ?thesis
    using assms fm_lines_other [of pre "cd # post" e "([], [], False)" None] fm_lines_cons [of cd post e]
      fm_lines_other [of post "[]" e] fm_lines_end [of e]
    by (simp add: fm_mime_def)
qed

lemma hend_clean:
  "CHR 0x0D \<notin> set t \<Longrightarrow> t \<noteq> [] \<Longrightarrow> n \<in> {0, 2} \<Longrightarrow> hend_run n t = Some 0"
proof (induction t arbitrary: n)
  case (Cons c t)
  then show ?case by (cases "t = []") (auto simp: CRLFCRLF_def Let_def)
qed simp

lemma hend_line:
  assumes "fm_line_ok (name, k, val)" "n \<in> {0, 2}"
  shows "hend_run n (header_line name k val @ [CHR 0x0A]) = Some 2"
proof -
  have "hend_run n (name @ CHR '':'' # replicate k (CHR '' '') @ val) = Some 0"
    using assms by (intro hend_clean) (auto simp: fm_line_ok_def value_ok_def)
  then show ?thesis
    using hend_run_append [of n "name @ CHR '':'' # replicate k (CHR '' '') @ val" "[CHR 0x0D, CHR 0x0A]"]
    by (simp add: header_line_def CRLFCRLF_def Let_def)
qed

lemma hend_lines:
  assumes "list_all fm_line_ok ls" "n \<in> {0, 2}"
  shows "hend_run n (fm_text ls) = Some (if ls = [] then n else 2)"
  using assms
proof (induction ls arbitrary: n)
  case (Cons l ls)
  obtain name k val where l: "l = (name, k, val)" by (cases l) auto
  have "hend_run n (fm_text (l # ls)) = hend_run 2 (fm_text ls)"
    using Cons.prems hend_run_append [of n "header_line name k val @ [CHR 0x0A]" "fm_text ls"]
      hend_line [of name k val n] by (simp add: fm_text_def l)
  then show ?case using Cons by simp
qed (simp add: fm_text_def)

text \<open>The state in which the headers are parsed, and the whole text of the headers with the empty line.\<close>

definition at_end :: "string \<Rightarrow> query_params \<Rightarrow> query_params" where
  "at_end tmp q = (StartNewPart q)\<lparr>qp_FMParseState := STATE_HEADERS_END, qp_HeaderParseTmp := tmp, qp_FMParseCounter := 4\<rparr>"

text \<open>The piece that ends the headers, from a state inside them.\<close>

lemma end_piece:
  assumes "qp_FMParseState q = STATE_HEADERS_END" "qp_FMParseCounter q < 4" "hend_run (qp_FMParseCounter q) t = Some 3"
    "ParseFMHeaders env tmp (q\<lparr>qp_FMParseCounter := 4, qp_HeaderParseTmp := tmp\<rparr>) = Some (True, q1)"
    "tmp = qp_HeaderParseTmp q @ (if length t > 4 then t @ [CHR 0x0A] else [])"
  shows "\<exists>kept. part_loop env [] (t @ CHR 0x0A # b) q = Some (None, kept, b, q1\<lparr>qp_FMParseState := STATE_READ\<rparr>)"
proof -
  have read: "part_loop env kept b (q1\<lparr>qp_FMParseState := STATE_READ\<rparr>) = Some (None, kept, b, q1\<lparr>qp_FMParseState := STATE_READ\<rparr>)" for kept
    by (cases b) simp_all
  have "qp_HeaderParseTmp q = tmp \<Longrightarrow> q\<lparr>qp_FMParseCounter := 4, qp_HeaderParseTmp := tmp\<rparr> = q\<lparr>qp_FMParseCounter := 4\<rparr>"
    by (cases q) simp
  then show ?thesis
    using quiet_run [OF assms(1-3), of env "[]" "CHR 0x0A # b"] assms(1,4,5) read
    by (auto simp: CRLFCRLF_def Let_def split: if_splits)
qed

text \<open>The text of the headers as it is parsed: of the empty line at the end, a part may be missing.\<close>

definition tail_ok :: "string \<Rightarrow> bool" where
  "tail_ok e \<longleftrightarrow> e = [] \<or> e = [CHR 0x0D] \<or> e = line_end"

text \<open>A last piece that brings at least six characters of the headers, or only from the empty line, is
  harmless; with three to five the code would lose them, and the last header line with them. The scanner
  never cuts like that: its last piece has at most two characters of the headers (MultipartForm).\<close>

definition good_cut :: "string \<Rightarrow> bool" where
  "good_cut h \<longleftrightarrow> h \<noteq> [] \<and> (length h \<le> 2 \<or> 6 \<le> length h)"

lemma hend_text:
  assumes "list_all fm_line_ok ls" "ls \<noteq> []"
  shows "hend_run 0 (fm_text ls @ [CHR 0x0D]) = Some 3"
  using hend_lines [OF assms(1), of 0] assms(2) hend_run_append [of 0 "fm_text ls" "[CHR 0x0D]"] by (simp add: CRLFCRLF_def)

lemma fm_text_length:
  assumes "list_all fm_line_ok ls" "ls \<noteq> []"
  shows "4 \<le> length (fm_text ls)"
  using assms by (cases ls; cases "hd ls") (auto simp: fm_text_def header_line_def fm_line_ok_def value_ok_def Suc_le_eq)

lemma last_header_piece:
  assumes "list_all fm_line_ok ls" "ls \<noteq> []" "u @ h = CHR 0x0D # CHR 0x0A # fm_text ls @ line_end" "good_cut h"
    "\<And>e. tail_ok e \<Longrightarrow> ParseFMHeaders env (fm_text ls @ e) (at_end (fm_text ls @ e) q) = Some (True, q1 e)"
  shows "\<exists>e kept. tail_ok e \<and> part_loop env [] (h @ b) (part_after u q) = Some (None, kept, b, (q1 e)\<lparr>qp_FMParseState := STATE_READ\<rparr>)"
proof -
  have hne: "h \<noteq> []" using assms(4) by (simp add: good_cut_def)
  define t where "t = butlast h"
  have "last h = CHR 0x0A"
    using assms(3) hne by (metis last.simps last_appendR list.distinct(1))
  then have h: "h = t @ [CHR 0x0A]"
    using hne by (metis append_butlast_last_id t_def)
  have ut: "u @ t = CHR 0x0D # CHR 0x0A # fm_text ls @ [CHR 0x0D]"
    using assms(3) by (simp add: h)
  note H = hend_text [OF assms(1,2)] and L = fm_text_length [OF assms(1,2)]
  let ?s = "(StartNewPart q)\<lparr>qp_FMParseCounter := 0, qp_FMParseState := STATE_HEADERS_END\<rparr>"
  have s: "at_end (fm_text ls @ line_end) q = ?s\<lparr>qp_FMParseCounter := 4, qp_HeaderParseTmp := fm_text ls @ line_end\<rparr>"
    by (cases q) (simp add: at_end_def StartNewPart_def)
  have start: "\<exists>kept. part_loop env [] ((fm_text ls @ [CHR 0x0D]) @ CHR 0x0A # b) ?s = Some (None, kept, b, (q1 line_end)\<lparr>qp_FMParseState := STATE_READ\<rparr>)"
    using H L assms(5) [of line_end] unfolding s
    by (intro end_piece [where tmp = "fm_text ls @ line_end"]) (simp_all add: StartNewPart_def tail_ok_def)
  have tail: "tail_ok line_end" by (simp add: tail_ok_def)
  consider "u = []" | "u = [CHR 0x0D]" | u' where "u = CHR 0x0D # CHR 0x0A # u'"
    using ut by (auto simp: append_eq_Cons_conv)
  then show ?thesis
  proof cases
    case 1
    then have eq: "part_loop env [] (h @ b) (part_after u q) = part_loop env [] ((fm_text ls @ [CHR 0x0D]) @ CHR 0x0A # b) ?s"
      using ut by (simp add: h part_after_def StartNewPart_def)
    show ?thesis
      unfolding eq using start tail by blast
  next
    case 2
    then have eq: "part_loop env [] (h @ b) (part_after u q) = part_loop env [] ((fm_text ls @ [CHR 0x0D]) @ CHR 0x0A # b) ?s"
      using ut by (simp add: h part_after_def StartNewPart_def)
    show ?thesis
      unfolding eq using start tail by blast
  next
    case (3 u')
    then have u': "u' @ t = fm_text ls @ [CHR 0x0D]"
      using ut by simp
    then obtain n where n: "hend_run 0 u' = Some n" "hend_run n t = Some 3"
      using H hend_run_append [of 0 u' t] by (auto split: option.splits)
    define e where "e = (if length t > 4 then line_end else if t = [] then [CHR 0x0D] else [])"
    have "length t \<le> 1 \<or> 5 \<le> length t"
      using assms(4) by (auto simp: good_cut_def h)
    then have e: "fm_text ls @ e = u' @ (if length t > 4 then t @ [CHR 0x0A] else [])" "tail_ok e"
      using u' by (cases t rule: rev_cases; auto simp: e_def tail_ok_def)+
    have p: "part_after u q = (StartNewPart q)\<lparr>qp_FMParseState := STATE_HEADERS_END, qp_HeaderParseTmp := u', qp_FMParseCounter := n\<rparr>"
      using 3 n(1) by (simp add: part_after_def)
    have "at_end (fm_text ls @ e) q = (part_after u q)\<lparr>qp_FMParseCounter := 4, qp_HeaderParseTmp := fm_text ls @ e\<rparr>"
      unfolding p by (cases q) (simp add: at_end_def StartNewPart_def)
    then have "ParseFMHeaders env (fm_text ls @ e) ((part_after u q)\<lparr>qp_FMParseCounter := 4, qp_HeaderParseTmp := fm_text ls @ e\<rparr>) = Some (True, q1 e)"
      using assms(5) [OF e(2)] by simp
    then have "\<exists>kept. part_loop env [] (t @ CHR 0x0A # b) (part_after u q) = Some (None, kept, b, (q1 e)\<lparr>qp_FMParseState := STATE_READ\<rparr>)"
    proof (rule end_piece [rotated 3])
      show "fm_text ls @ e = qp_HeaderParseTmp (part_after u q) @ (if 4 < length t then t @ [CHR 0x0A] else [])"
        unfolding e(1) by (simp add: p)
    qed (use n hend_run_less [OF _ n(1)] in \<open>simp_all add: p\<close>)
    then show ?thesis
      using e(2) h by auto
  qed
qed

text \<open>Header lines with one \<open>Content-Disposition\<close> among them.\<close>

definition one_disposition :: "fm_line list \<Rightarrow> string \<Rightarrow> string option \<Rightarrow> string option \<Rightarrow> bool" where
  "one_disposition ls name fn mime \<longleftrightarrow> list_all fm_line_ok ls \<and> name \<noteq> [] \<and> cd_text_ok name
     \<and> (case fn of None \<Rightarrow> True | Some f \<Rightarrow> cd_text_ok f)
     \<and> (\<exists>pre cd post. ls = pre @ cd # post \<and> line_name cd = HN_CONTENT_DISPOSITION
          \<and> snd (snd cd) = cd_value name fn \<and> fm_mime (pre @ post) None = mime
          \<and> (\<forall>l \<in> set (pre @ post). line_name l \<noteq> HN_CONTENT_DISPOSITION))"

lemma one_dispositionD:
  assumes "one_disposition ls name fn mime"
  shows "tail_ok e \<Longrightarrow> fm_lines (fm_text ls @ e) (([], [], False), None) = Some ((name, (case fn of None \<Rightarrow> [] | Some f \<Rightarrow> f), fn \<noteq> None), mime)"
    "list_all fm_line_ok ls" "ls \<noteq> []" "name \<noteq> []"
  using assms fm_lines_found [where e = e and name = name and fn = fn] unfolding one_disposition_def tail_ok_def by fastforce+

lemma headers_run:
  assumes "list_all fm_line_ok ls" "ls \<noteq> []" "concat hs @ h = CHR 0x0D # CHR 0x0A # fm_text ls @ line_end" "h \<noteq> []"
  shows "mp_apply env (NewPart # map AppendPart hs) q = Some (part_after (concat hs) q)"
proof -
  let ?t = "CHR 0x0D # CHR 0x0A # fm_text ls @ [CHR 0x0D]"
  have "(concat hs @ butlast h) @ [last h] = ?t @ [CHR 0x0A]"
    using assms(3,4) by simp
  then have "concat hs @ butlast h = ?t"
    by (simp only: append1_eq_conv)
  then show ?thesis
    using header_pieces [of "[]" hs "butlast h" "fm_text ls @ [CHR 0x0D]" env q] hend_text [OF assms(1,2)] by (simp add: part_after_def)
qed

text \<open>What a piece of content does to a part whose headers have been read.\<close>

definition deliver :: "upload_env \<Rightarrow> string \<Rightarrow> query_params \<Rightarrow> query_params" where
  "deliver env b q = (if IsCurrPartValid q
     then if IsCurrPartFile q then q\<lparr>qp_Upload := snd (OnFileData env b (qp_Upload q))\<rparr> else append_param b q
     else q)"

lemma deliver_state: "qp_FMParseState (deliver env b q) = qp_FMParseState q"
  by (auto simp: deliver_def append_param_def split: fm_target.splits)

lemma read_piece:
  assumes "qp_FMParseState q = STATE_READ" "b \<noteq> []"
  shows "\<exists>r. AppendToCurrentPart env b q = Some (r, deliver env b q)"
proof -
  have "part_loop env [] b q = Some (None, [], b, q)"
    using assms by (cases b) simp_all
  then show ?thesis
    using assms by (auto simp: AppendToCurrentPart_def deliver_def split: prod.splits)
qed

lemma read_pieces:
  "qp_FMParseState q = STATE_READ \<Longrightarrow>
   mp_apply env (map AppendPart bs) q = Some (fold (deliver env) (filter (\<lambda>b. b \<noteq> []) bs) q)"
proof (induction bs arbitrary: q)
  case (Cons b bs)
  show ?case
  proof (cases "b = []")
    case True
    then show ?thesis
      using Cons by (simp add: AppendToCurrentPart_def)
  next
    case False
    obtain r where "AppendToCurrentPart env b q = Some (r, deliver env b q)"
      using read_piece [OF Cons.prems False, of env] by blast
    then show ?thesis
      using Cons False deliver_state [of env b q] by simp
  qed
qed simp

lemma concat_filter_nonempty: "concat (filter (\<lambda>b. b \<noteq> []) bs) = concat bs"
  by (induction bs) simp_all

lemma part_run:
  assumes "list_all fm_line_ok ls" "ls \<noteq> []" "concat hs @ h = CHR 0x0D # CHR 0x0A # fm_text ls @ line_end" "good_cut h"
    "\<And>e. tail_ok e \<Longrightarrow> ParseFMHeaders env (fm_text ls @ e) (at_end (fm_text ls @ e) q) = Some (True, q1 e)"
  shows "\<exists>e. tail_ok e \<and> mp_apply env (NewPart # map AppendPart (hs @ (h @ b) # bs)) q
    = Some (fold (deliver env) (b # filter (\<lambda>b. b \<noteq> []) bs) ((q1 e)\<lparr>qp_FMParseState := STATE_READ\<rparr>))"
proof -
  let ?p = "part_after (concat hs) q"
  have h: "h \<noteq> []"
    using assms(4) by (simp add: good_cut_def)
  obtain e kept where k: "tail_ok e" "part_loop env [] (h @ b) ?p = Some (None, kept, b, (q1 e)\<lparr>qp_FMParseState := STATE_READ\<rparr>)"
    using last_header_piece [OF assms(1-4), of env q q1 b] assms(5) by blast
  let ?q = "(q1 e)\<lparr>qp_FMParseState := STATE_READ\<rparr>"
  have "qp_FMParseState ?p \<noteq> STATE_FINISHED"
    by (simp add: part_after_def StartNewPart_def)
  then obtain r where "AppendToCurrentPart env (h @ b) ?p = Some (r, deliver env b ?q)"
    using k h by (cases "IsCurrPartValid ?q"; cases "IsCurrPartFile ?q"; cases "OnFileData env b (qp_Upload ?q)")
      (auto simp: AppendToCurrentPart_def deliver_def)
  then have "mp_apply env (map AppendPart ((h @ b) # bs)) ?p = Some (fold (deliver env) (b # filter (\<lambda>b. b \<noteq> []) bs) ?q)"
    using read_pieces [of "deliver env b ?q" env bs] deliver_state [of env b ?q] by simp
  then show ?thesis
    using headers_run [OF assms(1-3) h, of env q] k(1) mp_apply_append [of env "NewPart # map AppendPart hs" "map AppendPart ((h @ b) # bs)" q]
    by (intro exI [of _ e]) simp
qed

lemma part_run_with:
  assumes "list_all fm_line_ok ls" "ls \<noteq> []" "concat hs @ h = CHR 0x0D # CHR 0x0A # fm_text ls @ line_end" "good_cut h"
    "\<And>e. tail_ok e \<Longrightarrow> \<exists>q1. ParseFMHeaders env (fm_text ls @ e) (at_end (fm_text ls @ e) q) = Some (True, q1) \<and> P q1"
  shows "\<exists>q1. P q1 \<and> mp_apply env (NewPart # map AppendPart (hs @ (h @ b) # bs)) q
    = Some (fold (deliver env) (b # filter (\<lambda>b. b \<noteq> []) bs) (q1\<lparr>qp_FMParseState := STATE_READ\<rparr>))"
proof -
  have "\<forall>e. \<exists>q1. tail_ok e \<longrightarrow> ParseFMHeaders env (fm_text ls @ e) (at_end (fm_text ls @ e) q) = Some (True, q1) \<and> P q1"
    using assms(5) by blast
  from choice [OF this] obtain q1 where "\<And>e. tail_ok e \<Longrightarrow> ParseFMHeaders env (fm_text ls @ e) (at_end (fm_text ls @ e) q) = Some (True, q1 e) \<and> P (q1 e)"
    by blast
  then show ?thesis
    using part_run [OF assms(1-4), of env q q1 b bs] by blast
qed

lemma deliver_string:
  assumes "qp_CurrFMPart q = TargetParam k" "qp_CurrPartMode q = PARTMODE_STRING" "qp_ParamMap q k = Some v"
  shows "fold (deliver env) bs q = q\<lparr>qp_ParamMap := (qp_ParamMap q)(k \<mapsto> v @ concat bs)\<rparr>"
  using assms
proof (induction bs arbitrary: q v)
  case (Cons b bs)
  have d: "deliver env b q = q\<lparr>qp_ParamMap := (qp_ParamMap q)(k \<mapsto> v @ b)\<rparr>"
    using Cons.prems by (simp add: deliver_def IsCurrPartValid_def IsCurrPartFile_def append_param_def)
  show ?case
    using Cons.IH [of "q\<lparr>qp_ParamMap := (qp_ParamMap q)(k \<mapsto> v @ b)\<rparr>" "v @ b"] Cons.prems d
    by (simp del: fun_upd_apply add: fun_upd_same fun_upd_upd)
qed (simp add: fun_upd_idem)

definition upload_room :: "upload \<Rightarrow> nat \<Rightarrow> bool" where
  "upload_room u n \<longleftrightarrow> up_CurrFileSize u + n \<le> up_MaxUploadSize u \<and> up_TotalFileSize u + n \<le> up_MaxTotalUploadSize u
     \<and> up_CurrFileSize u + n < UINTMAX \<and> up_TotalFileSize u + n < UINTMAX"

lemma OnNewFile_opens:
  assumes "env_path env (up_Created u) = Some (path, True)" "up_MaxUploadSize u \<noteq> 0" "up_MaxTotalUploadSize u \<noteq> 0"
  shows "OnNewFile env u = ((path, True), u\<lparr>up_CurrFileS := Some path, up_Created := Suc (up_Created u),
    up_Files := (up_Files u)(path \<mapsto> [])\<rparr>)"
  using assms by (simp add: OnNewFile_def Let_def)

lemma deliver_file:
  assumes "IsCurrPartValid q" "qp_CurrPartMode q = PARTMODE_FILE" "up_CurrFileS (qp_Upload q) = Some path"
    "up_Files (qp_Upload q) path = Some d" "env_write env path" "upload_room (qp_Upload q) (length (concat bs))"
  shows "fold (deliver env) bs q = q\<lparr>qp_Upload := (qp_Upload q)\<lparr>
      up_CurrFileSize := up_CurrFileSize (qp_Upload q) + length (concat bs),
      up_TotalFileSize := up_TotalFileSize (qp_Upload q) + length (concat bs),
      up_Files := (up_Files (qp_Upload q))(path \<mapsto> d @ concat bs)\<rparr>\<rparr>"
  using assms
proof (induction bs arbitrary: q d)
  case Nil
  then show ?case by (cases q; cases "qp_Upload q") (simp add: fun_upd_idem)
next
  case (Cons b bs)
  let ?u = "qp_Upload q"
  let ?u' = "?u\<lparr>up_CurrFileSize := up_CurrFileSize ?u + length b, up_TotalFileSize := up_TotalFileSize ?u + length b,
    up_Files := (up_Files ?u)(path \<mapsto> d @ b)\<rparr>"
  have "OnFileData env b ?u = (True, ?u')"
    using Cons.prems by (simp add: OnFileData_def upload_room_def)
  then have d: "deliver env b q = q\<lparr>qp_Upload := ?u'\<rparr>"
    using Cons.prems by (simp add: deliver_def IsCurrPartFile_def)
  have "upload_room ?u' (length (concat bs))"
    using Cons.prems(6) by (simp add: upload_room_def)
  then show ?case
    using Cons.IH [of "q\<lparr>qp_Upload := ?u'\<rparr>" "d @ b"] Cons.prems d
    by (simp add: IsCurrPartValid_def add.assoc fun_upd_same fun_upd_upd del: fun_upd_apply)
qed

text \<open>The upload helper after a file with the content \<open>d\<close> at a new path, in place of the file at \<open>old\<close> if there
  was one.\<close>

definition stored_upload :: "string \<Rightarrow> string \<Rightarrow> string \<Rightarrow> upload \<Rightarrow> upload" where
  "stored_upload old path d u = u\<lparr>up_CurrFileS := Some path, up_CurrFileSize := up_CurrFileSize u + length d,
     up_TotalFileSize := up_TotalFileSize u + length d,
     up_Files := (if old = [] then up_Files u else (up_Files u)(old := None))(path \<mapsto> d), up_Created := Suc (up_Created u)\<rparr>"

definition old_path :: "string \<Rightarrow> query_params \<Rightarrow> string" where
  "old_path name q = (case qp_FileMap q name of Some f \<Rightarrow> uf_Path f | None \<Rightarrow> [])"

lemma ParseFMHeaders_opens:
  assumes "fm_lines headers (([], [], False), None) = Some ((name, fn, True), mime)" "name \<noteq> []"
    "env_path env (up_Created (qp_Upload q)) = Some (path, True)"
    "up_MaxUploadSize (qp_Upload q) \<noteq> 0" "up_MaxTotalUploadSize (qp_Upload q) \<noteq> 0" "old_path name q = [] \<or> old_path name q \<noteq> path"
  shows "ParseFMHeaders env headers q = Some (True, q\<lparr>qp_CurrPartMode := PARTMODE_FILE,
    qp_Upload := stored_upload (old_path name q) path [] (qp_Upload q), qp_CurrFMPart := TargetFile name, qp_FileMap := (qp_FileMap q)(name \<mapsto> \<lparr>uf_MimeType = (case mime of Some t \<Rightarrow> t | None \<Rightarrow> []), uf_OrigFileName = fn, uf_Path = path\<rparr>)\<rparr>)"
proof -
  define q0 where "q0 = (if qp_CurrPartMode q = PARTMODE_FILE then q\<lparr>qp_Upload := OnFileEnd (qp_Upload q)\<rparr> else q)"
  let ?u = "(qp_Upload q)\<lparr>up_CurrFileS := Some path, up_Created := Suc (up_Created (qp_Upload q)),
    up_Files := (up_Files (qp_Upload q))(path \<mapsto> [])\<rparr>"
  have new: "OnNewFile env (qp_Upload q0) = ((path, True), ?u)"
    using OnNewFile_opens [of env "qp_Upload q0" path] assms(3-5)
    by (cases "qp_Upload q") (simp add: q0_def OnFileEnd_def)
  have q1: "q0\<lparr>qp_CurrPartMode := PARTMODE_FILE, qp_Upload := ?u\<rparr> = q\<lparr>qp_CurrPartMode := PARTMODE_FILE, qp_Upload := ?u\<rparr>"
    by (simp add: q0_def)
  have su: "stored_upload (old_path name q) path [] (qp_Upload q) =
      (if old_path name q = [] then ?u else ?u\<lparr>up_Files := (up_Files ?u)(old_path name q := None)\<rparr>)"
    using assms(6) by (cases "qp_Upload q") (auto simp: stored_upload_def fun_upd_twist)
  have old: "(case qp_FileMap q0 name of Some f \<Rightarrow> uf_Path f | None \<Rightarrow> []) = old_path name q"
    by (simp add: q0_def old_path_def)
  have "qp_FileMap q0 = qp_FileMap q"
    by (simp add: q0_def)
  then show ?thesis
    using assms(1,2) q1 old unfolding ParseFMHeaders_def su
    by (simp add: q0_def [symmetric] new Let_def remove_file_def)
qed

text \<open>A whole part, in any pieces with a good cut: a field, and a file.\<close>

lemma field_run:
  assumes "one_disposition ls name None mime" "concat hs @ h = CHR 0x0D # CHR 0x0A # fm_text ls @ line_end" "good_cut h"
  shows "\<exists>q'. mp_apply env (NewPart # map AppendPart (hs @ (h @ b) # bs)) q = Some q'
    \<and> qp_ParamMap q' = (qp_ParamMap q)(name \<mapsto> b @ concat bs) \<and> qp_FileMap q' = qp_FileMap q
    \<and> qp_Upload q' \<in> {qp_Upload q, OnFileEnd (qp_Upload q)}"
proof -
  note d = one_dispositionD [OF assms(1)]
  have "\<exists>q1. ParseFMHeaders env (fm_text ls @ e) (at_end (fm_text ls @ e) q) = Some (True, q1) \<and> qp_CurrFMPart q1 = TargetParam name
      \<and> qp_CurrPartMode q1 = PARTMODE_STRING \<and> qp_ParamMap q1 = (qp_ParamMap q)(name \<mapsto> []) \<and> qp_FileMap q1 = qp_FileMap q
      \<and> qp_Upload q1 \<in> {qp_Upload q, OnFileEnd (qp_Upload q)}"
    if "tail_ok e" for e
    using d(1) [OF that] d(4) by (auto simp: ParseFMHeaders_def at_end_def StartNewPart_def Let_def)
  from part_run_with [OF d(2,3) assms(2,3) this, of b bs] obtain q1 where q1: "qp_CurrFMPart q1 = TargetParam name"
      "qp_CurrPartMode q1 = PARTMODE_STRING" "qp_ParamMap q1 = (qp_ParamMap q)(name \<mapsto> [])" "qp_FileMap q1 = qp_FileMap q"
      "qp_Upload q1 \<in> {qp_Upload q, OnFileEnd (qp_Upload q)}" "mp_apply env (NewPart # map AppendPart (hs @ (h @ b) # bs)) q
        = Some (fold (deliver env) (b # filter (\<lambda>b. b \<noteq> []) bs) (q1\<lparr>qp_FMParseState := STATE_READ\<rparr>))"
    by blast
  let ?q = "q1\<lparr>qp_FMParseState := STATE_READ\<rparr>"
  have "fold (deliver env) (b # filter (\<lambda>b. b \<noteq> []) bs) ?q = ?q\<lparr>qp_ParamMap := (qp_ParamMap ?q)(name \<mapsto> [] @ b @ concat bs)\<rparr>"
    using deliver_string [of ?q name "[]" env "b # filter (\<lambda>b. b \<noteq> []) bs"] q1 by (simp add: concat_filter_nonempty del: fold_simps)
  then show ?thesis
    using q1 by simp
qed

lemma file_run:
  assumes "one_disposition ls name (Some fn) mime" "concat hs @ h = CHR 0x0D # CHR 0x0A # fm_text ls @ line_end" "good_cut h"
    "env_path env (up_Created (qp_Upload q)) = Some (path, True)" "env_write env path"
    "up_MaxUploadSize (qp_Upload q) \<noteq> 0" "up_MaxTotalUploadSize (qp_Upload q) \<noteq> 0"
    "upload_room (qp_Upload q) (length (b @ concat bs))" "old_path name q = [] \<or> old_path name q \<noteq> path"
  shows "\<exists>q'. mp_apply env (NewPart # map AppendPart (hs @ (h @ b) # bs)) q = Some q'
    \<and> qp_FileMap q' = (qp_FileMap q)(name \<mapsto> \<lparr>uf_MimeType = (case mime of Some t \<Rightarrow> t | None \<Rightarrow> []),
         uf_OrigFileName = fn, uf_Path = path\<rparr>)
    \<and> qp_ParamMap q' = qp_ParamMap q \<and> qp_Upload q' = stored_upload (old_path name q) path (b @ concat bs) (qp_Upload q)"
proof -
  let ?bs = "b # filter (\<lambda>b. b \<noteq> []) bs" and ?f = "\<lparr>uf_MimeType = (case mime of Some t \<Rightarrow> t | None \<Rightarrow> []), uf_OrigFileName = fn, uf_Path = path\<rparr>"
  let ?u = "stored_upload (old_path name q) path [] (qp_Upload q)"
  note d = one_dispositionD [OF assms(1)]
  have "\<exists>q1. ParseFMHeaders env (fm_text ls @ e) (at_end (fm_text ls @ e) q) = Some (True, q1) \<and> qp_CurrFMPart q1 = TargetFile name
      \<and> qp_CurrPartMode q1 = PARTMODE_FILE \<and> qp_ParamMap q1 = qp_ParamMap q \<and> qp_FileMap q1 = (qp_FileMap q)(name \<mapsto> ?f)
      \<and> qp_Upload q1 = ?u"
    if "tail_ok e" for e
  proof -
    let ?p = "at_end (fm_text ls @ e) q"
    have p: "qp_Upload ?p = qp_Upload q" "qp_FileMap ?p = qp_FileMap q" "qp_ParamMap ?p = qp_ParamMap q" "old_path name ?p = old_path name q"
      by (simp_all add: at_end_def StartNewPart_def old_path_def)
    show ?thesis
      using ParseFMHeaders_opens [of "fm_text ls @ e" name fn mime env ?p path] d(1) [OF that] d(4) assms(4,6,7,9)
      unfolding p by (simp add: p)
  qed
  from part_run_with [OF d(2,3) assms(2,3) this, of b bs] obtain q1 where q1: "qp_CurrFMPart q1 = TargetFile name"
      "qp_CurrPartMode q1 = PARTMODE_FILE" "qp_ParamMap q1 = qp_ParamMap q" "qp_FileMap q1 = (qp_FileMap q)(name \<mapsto> ?f)" "qp_Upload q1 = ?u"
      "mp_apply env (NewPart # map AppendPart (hs @ (h @ b) # bs)) q = Some (fold (deliver env) ?bs (q1\<lparr>qp_FMParseState := STATE_READ\<rparr>))"
    by blast
  let ?q = "q1\<lparr>qp_FMParseState := STATE_READ\<rparr>"
  have "length (concat ?bs) = length (b @ concat bs)"
    by (simp add: concat_filter_nonempty)
  then have "upload_room (qp_Upload ?q) (length (concat ?bs))"
    using assms(8) by (simp add: q1(5) stored_upload_def upload_room_def)
  then have "fold (deliver env) ?bs ?q = ?q\<lparr>qp_Upload := ?u\<lparr>up_CurrFileSize := up_CurrFileSize ?u + length (concat ?bs),
      up_TotalFileSize := up_TotalFileSize ?u + length (concat ?bs), up_Files := (up_Files ?u)(path \<mapsto> [] @ concat ?bs)\<rparr>\<rparr>"
    using deliver_file [of ?q path "[]" env ?bs] assms(5) q1(1,2)
    by (simp add: q1(5) IsCurrPartValid_def stored_upload_def del: fold_simps)
  moreover have "?u\<lparr>up_CurrFileSize := up_CurrFileSize ?u + length (concat ?bs),
      up_TotalFileSize := up_TotalFileSize ?u + length (concat ?bs), up_Files := (up_Files ?u)(path \<mapsto> [] @ concat ?bs)\<rparr>
    = stored_upload (old_path name q) path (b @ concat bs) (qp_Upload q)"
    by (cases "qp_Upload q") (simp add: stored_upload_def concat_filter_nonempty)
  ultimately show ?thesis
    using q1(3,4,6) by simp
qed

section \<open>Properties\<close>

text \<open>C14: a query string is read back: for pairs of any bytes, encoded with any choice of the
  characters that stand for themselves, every name gets the value of its last pair and all other
  parameters stay as they were.\<close>

theorem query_string_roundtrip:
  "map_option qp_ParamMap (AddURLEncoded (url_query safe kvs) q) = Some (qp_ParamMap q ++ map_of (rev kvs))"
proof (cases "kvs = []")
  case True
  then show ?thesis by (simp add: AddURLEncoded_def)
next
  case False
  then obtain tmp where "url_loop (url_query safe kvs) (None, [], qp_ParamMap q)
      = Some (Some (fst (last kvs)), tmp, qp_ParamMap q ++ map_of (rev kvs))"
    using url_query_loop by blast
  then show ?thesis by (simp add: AddURLEncoded_def)
qed

text \<open>Note: decoding an encoded text appends the text to the target.\<close>

theorem url_decode_roundtrip: "DecodeURLEncoded target (url_encode safe s) = Some (target @ s)"
  using decode_encoded [of target safe s "[]"] by (simp add: DecodeURLEncoded_def)

text \<open>Note: a percent sign before the last character makes both decoders read behind the end of their
  input, whatever stands before it (as long as that contains no other percent sign).\<close>

theorem percent_overrun:
  assumes "CHR ''%'' \<notin> set s"
  shows "DecodeURLEncoded target (s @ [CHR ''%'', c]) = None \<and> AddURLEncoded (s @ [CHR ''%'', c]) q = None"
proof -
  have "decode_loop target (s @ [CHR ''%'', c]) = None"
    using assms by (induction s arbitrary: target) auto
  moreover have "url_loop (s @ [CHR ''%'', c]) st = None" for st
    using assms by (induction s arbitrary: st) auto
  ultimately show ?thesis
    by (simp add: DecodeURLEncoded_def AddURLEncoded_def)
qed

theorem percent_overrun_witness: "DecodeURLEncoded [] (''100'' @ [CHR ''%'', CHR ''2'']) = None"
  using percent_overrun [of "''100''" "[]" "CHR ''2''"] by simp

text \<open>Note: a form field is stored. A part whose headers hold one \<open>Content-Disposition\<close> with a name and
  no file name, in any pieces of which the last one with header text brings no less than six characters of
  it, or only what belongs to the empty line, and whose content comes in any pieces, gives the parameter of that name
  exactly the content, and touches no other.\<close>

theorem form_field_stored:
  assumes "one_disposition ls name None mime" "concat hs @ h = CHR 0x0D # CHR 0x0A # fm_text ls @ line_end" "good_cut h"
  shows "\<exists>q'. mp_apply env (NewPart # map AppendPart (hs @ (h @ b) # bs)) q = Some q'
    \<and> qp_ParamMap q' = (qp_ParamMap q)(name \<mapsto> b @ concat bs) \<and> qp_FileMap q' = qp_FileMap q"
  using field_run [OF assms] by blast

definition cd_line :: "string \<Rightarrow> string option \<Rightarrow> fm_line" where
  "cd_line name fn = (''content-disposition'', 1, cd_value name fn)"

lemma cd_line_single:
  assumes "name \<noteq> []" "cd_text_ok name" "case fn of None \<Rightarrow> True | Some f \<Rightarrow> cd_text_ok f"
    "CHR 0x0A \<notin> set (cd_value name fn)" "CHR 0x0D \<notin> set (cd_value name fn)"
  shows "one_disposition [cd_line name fn] name fn None"
proof -
  have t: "map tolower ''content-disposition'' = GetHeaderName HN_CONTENT_DISPOSITION"
    by (simp add: tolower_def char_of_def bit_0)
  have n: "line_name (cd_line name fn) = HN_CONTENT_DISPOSITION"
    using ParseHeader_iff [of "GetHeaderName HN_CONTENT_DISPOSITION" HN_CONTENT_DISPOSITION]
    unfolding line_name_def cd_line_def fst_conv t by (simp add: header_range_def)
  have "NUL \<notin> set (cd_value name fn)"
    using assms(2,3) by (auto simp: cd_value_def cd_text_ok_def dkv_last_def list_all_iff split: option.splits)
  moreover have "hd (cd_value name fn) \<noteq> CHR '' ''" "cd_value name fn \<noteq> []"
    by (simp_all add: cd_value_def)
  ultimately have "fm_line_ok (cd_line name fn)"
    using assms(4,5) by (simp add: fm_line_ok_def cd_line_def value_ok_def)
  then show ?thesis
    using n assms(1-3) unfolding one_disposition_def
    by (intro conjI exI [of _ "[]"] exI [of _ "cd_line name fn"]) (auto simp: fm_mime_def cd_line_def)
qed

theorem form_field_stored_witness:
  "\<exists>q'. mp_apply \<lparr>env_path = \<lambda>_. None, env_write = \<lambda>_. False\<rparr>
       (NewPart # map AppendPart ([[CHR 0x0D]] @ ((CHR 0x0A # fm_text [cd_line ''user'' None] @ line_end) @ ''Jo'') # [''hn''])) (qp_init 7 (upload_init 0 0)) = Some q'
    \<and> qp_ParamMap q' = [''user'' \<mapsto> ''John''] \<and> qp_FileMap q' = Map.empty"
  using form_field_stored [of "[cd_line ''user'' None]" "''user''" None "[[CHR 0x0D]]" "CHR 0x0A # fm_text [cd_line ''user'' None] @ line_end"
      "\<lparr>env_path = \<lambda>_. None, env_write = \<lambda>_. False\<rparr>" "''Jo''" "[''hn'']" "qp_init 7 (upload_init 0 0)"]
    cd_line_single [of "''user''" None] fm_text_length [of "[cd_line ''user'' None]"]
  by (simp add: cd_text_ok_def cd_value_def dkv_last_def good_cut_def qp_init_def one_disposition_def)

text \<open>Note: an uploaded file is stored. A part with a name and a file name, cut in any way as above, whose
  content fits into the limits and whose temporary file can be created and written, gives the file
  entry of that name the content type, the original name and the path of the new file, whose content
  is exactly the content of the part; no parameter is touched.\<close>

theorem uploaded_file_stored:
  assumes "one_disposition ls name (Some fn) mime" "concat hs @ h = CHR 0x0D # CHR 0x0A # fm_text ls @ line_end" "good_cut h"
    "env_path env (up_Created (qp_Upload q)) = Some (path, True)" "env_write env path"
    "up_MaxUploadSize (qp_Upload q) \<noteq> 0" "up_MaxTotalUploadSize (qp_Upload q) \<noteq> 0"
    "upload_room (qp_Upload q) (length (b @ concat bs))" "map_option uf_Path (qp_FileMap q name) \<noteq> Some path"
  shows "\<exists>q'. mp_apply env (NewPart # map AppendPart (hs @ (h @ b) # bs)) q = Some q'
    \<and> qp_FileMap q' = (qp_FileMap q)(name \<mapsto> \<lparr>uf_MimeType = (case mime of Some t \<Rightarrow> t | None \<Rightarrow> []),
         uf_OrigFileName = fn, uf_Path = path\<rparr>)
    \<and> up_Files (qp_Upload q') path = Some (b @ concat bs) \<and> qp_ParamMap q' = qp_ParamMap q"
proof -
  have "old_path name q = [] \<or> old_path name q \<noteq> path"
    using assms(9) by (auto simp: old_path_def split: option.splits)
  from file_run [OF assms(1-8) this] show ?thesis
    by (auto simp: stored_upload_def)
qed

theorem uploaded_file_stored_witness:
  "\<exists>q'. mp_apply \<lparr>env_path = \<lambda>_. Some (''/tmp/1'', True), env_write = \<lambda>_. True\<rparr>
       (NewPart # map AppendPart ([CHR 0x0D # CHR 0x0A # fm_text [cd_line ''f'' (Some ''a.txt'')] @ [CHR 0x0D]] @
          ([CHR 0x0A] @ ''Jo'') # [''hn''])) (qp_init 7 (upload_init 4 10)) = Some q'
    \<and> qp_FileMap q' = [''f'' \<mapsto> \<lparr>uf_MimeType = [], uf_OrigFileName = ''a.txt'', uf_Path = ''/tmp/1''\<rparr>]
    \<and> up_Files (qp_Upload q') ''/tmp/1'' = Some ''John'' \<and> qp_ParamMap q' = Map.empty"
  using uploaded_file_stored [of "[cd_line ''f'' (Some ''a.txt'')]" "''f''" "''a.txt''" None
      "[CHR 0x0D # CHR 0x0A # fm_text [cd_line ''f'' (Some ''a.txt'')] @ [CHR 0x0D]]" "[CHR 0x0A]"
      "\<lparr>env_path = \<lambda>_. Some (''/tmp/1'', True), env_write = \<lambda>_. True\<rparr>" "qp_init 7 (upload_init 4 10)" "''/tmp/1''" "''Jo''" "[''hn'']"]
    cd_line_single [of "''f''" "Some ''a.txt''"]
  by (simp add: cd_text_ok_def cd_value_def dkv_last_def good_cut_def qp_init_def upload_room_def upload_init_def UINTMAX_def)

section \<open>Upload limits\<close>

text \<open>Any sequence of calls on the upload handler.\<close>

datatype upload_op = UNew | UData string | UEnd

fun upload_step :: "upload_env \<Rightarrow> upload_op \<Rightarrow> upload \<Rightarrow> upload" where
  "upload_step env UNew u = snd (OnNewFile env u)"
| "upload_step env (UData s) u = snd (OnFileData env s u)"
| "upload_step env UEnd u = OnFileEnd u"

fun upload_bytes :: "upload_op \<Rightarrow> nat" where
  "upload_bytes (UData s) = length s"
| "upload_bytes _ = 0"

definition files_size :: "(string \<rightharpoonup> string) \<Rightarrow> nat" where
  "files_size f = (\<Sum>p \<in> dom f. length (the (f p)))"

lemma files_size_upd:
  assumes "finite (dom f)"
  shows "files_size (f(p \<mapsto> x)) + (case f p of None \<Rightarrow> 0 | Some d \<Rightarrow> length d) = files_size f + length x"
proof -
  have s: "(\<Sum>r \<in> dom f - {p}. length (the ((f(p \<mapsto> x)) r))) = (\<Sum>r \<in> dom f - {p}. length (the (f r)))"
    by (rule sum.cong) auto
  have "files_size (f(p \<mapsto> x)) = length x + (\<Sum>r \<in> dom f - {p}. length (the (f r)))"
    using assms s by (simp add: files_size_def sum.insert_remove)
  moreover have "files_size f = (case f p of None \<Rightarrow> 0 | Some d \<Rightarrow> length d) + (\<Sum>r \<in> dom f - {p}. length (the (f r)))"
  proof (cases "f p")
    case None
    then have "dom f - {p} = dom f" by auto
    then show ?thesis using None by (simp add: files_size_def)
  next
    case (Some d)
    then have "p \<in> dom f" by auto
    then show ?thesis
      using Some sum.remove [OF assms, of p "\<lambda>r. length (the (f r))"] by (simp add: files_size_def)
  qed
  ultimately show ?thesis by simp
qed

text \<open>The invariant, with \<open>n\<close> the number of bytes received so far.\<close>

definition upload_inv :: "nat \<Rightarrow> nat \<Rightarrow> nat \<Rightarrow> upload \<Rightarrow> bool" where
  "upload_inv m t n u \<longleftrightarrow> up_MaxUploadSize u = m \<and> up_MaxTotalUploadSize u = t \<and> finite (dom (up_Files u))
     \<and> up_CurrFileSize u \<le> n \<and> up_TotalFileSize u \<le> n
     \<and> (\<forall>p d. up_Files u p = Some d \<longrightarrow> length d \<le> m \<and> length d \<le> up_CurrFileSize u)
     \<and> files_size (up_Files u) \<le> t \<and> files_size (up_Files u) \<le> up_TotalFileSize u"

lemma files_size_truncate: "finite (dom f) \<Longrightarrow> files_size (f(p \<mapsto> [])) \<le> files_size f"
  using files_size_upd [of f p "[]"] by simp

lemma upload_inv_new:
  assumes "upload_inv m t n u"
  shows "upload_inv m t n (snd (OnNewFile env u))"
proof -
  have "files_size ((up_Files u)(p \<mapsto> [])) \<le> files_size (up_Files u)" for p
    using assms by (intro files_size_truncate) (simp add: upload_inv_def)
  then show ?thesis
    using assms by (auto simp: upload_inv_def OnNewFile_def Let_def intro: order_trans split: option.split)
qed

lemma upload_inv_data:
  assumes inv: "upload_inv m t n u" and n: "n + length s < UINTMAX"
  shows "upload_inv m t (n + length s) (snd (OnFileData env s u))"
proof (cases "up_CurrFileS u")
  case None
  then show ?thesis
    using inv by (auto simp: OnFileData_def upload_inv_def)
next
  case (Some path)
  have m: "(up_CurrFileSize u + length s) mod UINTMAX = up_CurrFileSize u + length s"
    "(up_TotalFileSize u + length s) mod UINTMAX = up_TotalFileSize u + length s"
    using inv n by (simp_all add: upload_inv_def)
  let ?d = "case up_Files u path of Some d \<Rightarrow> d | None \<Rightarrow> []"
  let ?f = "(up_Files u)(path \<mapsto> ?d @ s)"
  have f: "files_size ?f = files_size (up_Files u) + length s"
    using files_size_upd [of "up_Files u" path "?d @ s"] inv by (simp add: upload_inv_def split: option.splits)
  have d: "length ?d \<le> up_CurrFileSize u"
    using inv by (auto simp: upload_inv_def split: option.splits)
  have old: "length d \<le> up_CurrFileSize u + length s \<and> length d \<le> m" if "up_Files u p = Some d" for p d
    using inv that by (fastforce simp: upload_inv_def)
  show ?thesis
    using inv f d old unfolding OnFileData_def Let_def by (auto simp: Some m upload_inv_def)
qed

lemma upload_inv_end: "upload_inv m t n u \<Longrightarrow> upload_inv m t n (OnFileEnd u)"
  by (simp add: upload_inv_def OnFileEnd_def)

lemma upload_inv_run:
  assumes "upload_inv m t n u" "n + sum_list (map upload_bytes ops) < UINTMAX"
  shows "upload_inv m t (n + sum_list (map upload_bytes ops)) (fold (upload_step env) ops u)"
  using assms
proof (induction ops arbitrary: n u)
  case (Cons x ops)
  have "upload_inv m t (n + upload_bytes x) (upload_step env x u)"
    using Cons.prems by (cases x) (auto intro: upload_inv_new upload_inv_data upload_inv_end)
  from Cons.IH [OF this] show ?case
    using Cons.prems(2) by (simp add: add.assoc)
qed simp

text \<open>C37: the upload limits hold. Whatever the sequence of new files, data and ends, and whichever file
  operations fail, no temporary file ever holds more than \<open>MaxUploadSize\<close> bytes and all together
  never more than \<open>MaxTotalUploadSize\<close>, as long as fewer than 2^64 bytes come in.\<close>

theorem upload_limits:
  assumes "sum_list (map upload_bytes ops) < UINTMAX"
  shows "let u = fold (upload_step env) ops (upload_init maxFile maxTotal)
    in (\<forall>p d. up_Files u p = Some d \<longrightarrow> length d \<le> maxFile) \<and> files_size (up_Files u) \<le> maxTotal"
proof -
  have "upload_inv maxFile maxTotal 0 (upload_init maxFile maxTotal)"
    by (simp add: upload_inv_def upload_init_def files_size_def)
  from upload_inv_run [OF this, of ops env] show ?thesis
    using assms by (auto simp: upload_inv_def Let_def)
qed

theorem upload_limits_witness:
  "files_size (up_Files (fold (upload_step \<lparr>env_path = \<lambda>_. Some (''t'', True), env_write = \<lambda>_. True\<rparr>)
     [UNew, UData ''ab'', UData ''cd'', UEnd] (upload_init 3 100))) \<le> 100"
  using upload_limits [of "[UNew, UData ''ab'', UData ''cd'', UEnd]"
    "\<lparr>env_path = \<lambda>_. Some (''t'', True), env_write = \<lambda>_. True\<rparr>" 3 100]
  by (simp add: UINTMAX_def Let_def)

text \<open>Note: the size of a file is not counted from its beginning. The counter the single-file limit is
  checked with is never set back, so a second file that is within the limit by itself is refused
  when both files together are not.\<close>

theorem file_limit_is_cumulative:
  assumes "env_path env 0 = Some (p, True)" "env_path env 1 = Some (p', True)" "env_write env p"
    "length a \<le> m" "length b \<le> m" "m < length a + length b" "length a + length b < UINTMAX" "length a \<le> t" "t \<noteq> 0"
  shows "\<not> fst (OnFileData env b (fold (upload_step env) [UNew, UData a, UEnd, UNew] (upload_init m t)))"
  using assms by (auto simp: OnNewFile_def OnFileData_def OnFileEnd_def upload_init_def Let_def)

theorem file_limit_is_cumulative_witness:
  "\<not> fst (OnFileData \<lparr>env_path = \<lambda>_. Some (''t'', True), env_write = \<lambda>_. True\<rparr> ''cd''
     (fold (upload_step \<lparr>env_path = \<lambda>_. Some (''t'', True), env_write = \<lambda>_. True\<rparr>) [UNew, UData ''ab'', UEnd, UNew] (upload_init 3 100)))"
  by (rule file_limit_is_cumulative) (simp_all add: UINTMAX_def)

end
