(* ===== verification/Responses.thy ===== *)
theory Responses
  imports HttpHeader QueryParams
begin

text \<open>
  Responses: the interface \<open>IResponse\<close> (IResponse.h) as a record whose body is read through a
  \<open>reader\<close>, and the two response sources every connection owns itself, CommonErrorRespSource.cpp
  and CORSPreflightRespSource.cpp. A reader is the sequence of calls of \<open>Read\<close>: each takes
  \<open>MaxLength\<close> and gives the bytes it claims to have stored (their number is \<open>OutLength\<close>), whether
  the response is finished, and the reader for the next call; \<open>None\<close> is an exception.
\<close>

section \<open>IResponse\<close>

codatatype reader = Reader (read_step: "nat \<Rightarrow> (string \<times> bool \<times> reader) option")

text \<open>The reader of an object with a state of its own.\<close>

primcorec reader_of :: "('s \<Rightarrow> nat \<Rightarrow> (string \<times> bool \<times> 's) option) \<Rightarrow> 's \<Rightarrow> reader" where
  "reader_of f s = Reader (\<lambda>m. map_option (map_prod id (map_prod id (reader_of f))) (f s m))"

definition NO_LENGTH :: nat where "NO_LENGTH = 18446744073709551615"

record response =
  rp_ResponseCode :: nat
  rp_ContentType :: string
  rp_Charset :: "string option"
  rp_Length :: nat
  rp_ExtraHeaders :: "(string \<times> string) option list"
  rp_Read :: reader
  rp_Upgrade :: "nat option"

definition RC_SWITCH_PROT :: nat where "RC_SWITCH_PROT = 101"
definition RC_OK :: nat where "RC_OK = 200"
definition RC_MOVEPERMANENT :: nat where "RC_MOVEPERMANENT = 301"
definition RC_FOUND :: nat where "RC_FOUND = 302"
definition RC_SEEOTHER :: nat where "RC_SEEOTHER = 303"
definition RC_NOTMODIFIED :: nat where "RC_NOTMODIFIED = 304"
definition RC_TEMP_REDIRECT :: nat where "RC_TEMP_REDIRECT = 307"
definition RC_BADREQUEST :: nat where "RC_BADREQUEST = 400"
definition RC_UNAUTHORIZED :: nat where "RC_UNAUTHORIZED = 401"
definition RC_FORBIDDEN :: nat where "RC_FORBIDDEN = 403"
definition RC_NOTFOUND :: nat where "RC_NOTFOUND = 404"
definition RC_SERVERERROR :: nat where "RC_SERVERERROR = 500"

lemmas RC_defs = RC_SWITCH_PROT_def RC_OK_def RC_MOVEPERMANENT_def RC_FOUND_def RC_SEEOTHER_def
  RC_NOTMODIFIED_def RC_TEMP_REDIRECT_def RC_BADREQUEST_def RC_UNAUTHORIZED_def RC_FORBIDDEN_def
  RC_NOTFOUND_def RC_SERVERERROR_def

definition GetResponseName :: "nat \<Rightarrow> string" where
  "GetResponseName code =
     (if code = RC_OK then ''OK'' else if code = RC_MOVEPERMANENT then ''MovedPermanently''
      else if code = RC_FOUND then ''Found'' else if code = RC_SEEOTHER then ''SeeOther''
      else if code = RC_NOTMODIFIED then ''NotModified'' else if code = RC_UNAUTHORIZED then ''Unauthorized''
      else if code = RC_FORBIDDEN then ''YouShallNotPass'' else if code = RC_NOTFOUND then ''NotFound''
      else if code = RC_SERVERERROR then ''ServerError'' else ''Whatever'')"

datatype METHOD = METHOD_GET | METHOD_HEAD | METHOD_POST | METHOD_OPTIONS | METHOD_UNKNOWN

datatype VERSION = VERSION_10 | VERSION_11

text \<open>What \<open>Create\<close> of a response source sees of a request; the content is \<open>None\<close> for null
  pointers. \<open>Create\<close> gives a response, a null pointer or an exception.\<close>

record request =
  rq_Method :: METHOD
  rq_Resource :: string
  rq_Query :: query_params
  rq_HeaderA :: "header list"
  rq_Content :: "string option"

datatype created = Created response | CreatedNull | StdException string string | OtherException

section \<open>Error pages\<close>

record common_error =
  er_RespCode :: nat
  er_Res :: string
  er_ExType :: string
  er_ExMsg :: string

definition CommonError_Response :: "string \<Rightarrow> (string \<times> string) option \<Rightarrow> nat \<Rightarrow> common_error" where
  "CommonError_Response resource ex code =
     \<lparr>er_RespCode = code, er_Res = resource,
      er_ExType = (case ex of Some (t, m) \<Rightarrow> t | None \<Rightarrow> ''[Unknown]''),
      er_ExMsg = (case ex of Some (t, m) \<Rightarrow> m | None \<Rightarrow> [])\<rparr>"

abbreviation NL :: string where "NL \<equiv> [CHR 0x0A]"

definition error_title :: "common_error \<Rightarrow> string" where
  "error_title e = ''<head><title>Err: '' @ dec (er_RespCode e) @ '' - '' @ cstr (er_Res e) @ ''</title></head>'' @ NL @ ''<body>'' @ NL"

definition error_exception :: "common_error \<Rightarrow> string" where
  "error_exception e = ''Caught an exception while creating a response for <b>'' @ cstr (er_Res e) @ ''</b>:'' @ NL @ ''<ul>'' @ NL
     @ ''<li>Type: <pre>'' @ cstr (er_ExType e) @ ''</pre></li>'' @ NL @ ''<li>Message: '' @ cstr (er_ExMsg e) @ ''</li>'' @ NL
     @ ''</ul>'' @ NL @ ''</body>''"

text \<open>The text of the format strings of \<open>Read\<close>, in full: \<open>sprint_safe\<close> returns its length also when
  the target is shorter.\<close>

definition error_page :: "common_error \<Rightarrow> string" where
  "error_page e = error_title e @
     (if er_RespCode e = RC_BADREQUEST
      then ''<h1>401 Bad request</h1>'' @ NL
        @ ''Your browser sent a request that this server didn'' @ [CHR 0x27] @ ''t understand. Resource: <b>'' @ cstr (er_Res e) @ ''</b><br />'' @ NL @ ''</body>''
      else if er_RespCode e = RC_UNAUTHORIZED
      then ''<h1>401 Unauthorized</h1>'' @ NL @ ''Access denied for resource: <b>'' @ cstr (er_Res e) @ ''</b><br />'' @ NL @ ''</body>''
      else if er_RespCode e = RC_FORBIDDEN
      then ''<h1>403 Forbidden</h1>'' @ NL @ ''Access denied for resource: <b>'' @ cstr (er_Res e) @ ''</b><br />'' @ NL @ ''</body>''
      else if er_RespCode e = RC_NOTFOUND
      then ''<h1>404 Not found</h1>'' @ NL @ ''The requested resource was not found: <b>'' @ cstr (er_Res e) @ ''</b><br />'' @ NL @ ''</body>''
      else if er_RespCode e = RC_SERVERERROR
      then ''<h1>500 Internal error</h1>'' @ NL @ error_exception e
      else ''<h1>['' @ dec (er_RespCode e) @ '']</h1>'' @ NL @ error_exception e)"

definition CommonError_Read :: "common_error \<Rightarrow> nat \<Rightarrow> (string \<times> bool \<times> common_error) option" where
  "CommonError_Read e maxLength = Some (error_page e, True, e)"

definition error_response :: "common_error \<Rightarrow> response" where
  "error_response e = \<lparr>rp_ResponseCode = er_RespCode e, rp_ContentType = ''text/html'', rp_Charset = Some ''utf-8'',
     rp_Length = NO_LENGTH, rp_ExtraHeaders = [], rp_Read = reader_of CommonError_Read e, rp_Upgrade = None\<rparr>"

definition CreateFromException :: "request \<Rightarrow> (string \<times> string) option \<Rightarrow> response" where
  "CreateFromException rq ex = error_response (CommonError_Response (rq_Resource rq) ex RC_SERVERERROR)"

definition CommonError_Create :: "request \<Rightarrow> response" where
  "CommonError_Create rq = CreateFromException rq None"

section \<open>CORS preflight\<close>

definition CORS_GetExtraHeader :: "string \<Rightarrow> nat \<Rightarrow> (string \<times> string) option" where
  "CORS_GetExtraHeader allowed i =
     (if i = 0 then Some (''Access-Control-Allow-Origin'', ''*'')
      else if i = 1 then Some (''Access-Control-Request-Methods'', ''GET, POST'')
      else if i = 2 \<and> allowed \<noteq> [] then Some (''Access-Control-Allow-Headers'', allowed)
      else None)"

definition CORS_GetExtraHeaderCount :: "string \<Rightarrow> nat" where
  "CORS_GetExtraHeaderCount allowed = (if allowed = [] then 2 else 3)"

definition CORS_Read :: "unit \<Rightarrow> nat \<Rightarrow> (string \<times> bool \<times> unit) option" where
  "CORS_Read u maxLength = Some ([], True, u)"

definition CORS_Response :: "string \<Rightarrow> response" where
  "CORS_Response allowed = \<lparr>rp_ResponseCode = RC_OK, rp_ContentType = ''text/plain'', rp_Charset = None, rp_Length = 0,
     rp_ExtraHeaders = map (CORS_GetExtraHeader allowed) [0..<CORS_GetExtraHeaderCount allowed],
     rp_Read = reader_of CORS_Read (), rp_Upgrade = None\<rparr>"

text \<open>The header loop of \<open>Create\<close>: whether a method was asked for, and the requested headers.\<close>

definition CORS_scan :: "header \<Rightarrow> bool \<times> string option \<Rightarrow> bool \<times> string option" where
  "CORS_scan h st = (case hd_IntName h of
      HN_ACCESS_CONTROL_REQUEST_METHOD \<Rightarrow> (True, snd st)
    | HN_ACCESS_CONTROL_REQUEST_HEADERS \<Rightarrow> (fst st, map_option cstr (hd_Value h))
    | _ \<Rightarrow> st)"

definition CORSPreflight_Create :: "request \<Rightarrow> response option" where
  "CORSPreflight_Create rq =
     (if rq_Method rq = METHOD_OPTIONS
      then let (method, headers) = fold CORS_scan (rq_HeaderA rq) (False, None)
           in if method then Some (CORS_Response (case headers of Some h \<Rightarrow> h | None \<Rightarrow> [])) else None
      else None)"

end
