(* ===== verification/HttpConnection.thy ===== *)
theory HttpConnection
  imports StreamReadBuff WriteBuffQueue Responses
begin

text \<open>
  The HTTP connection of Connection.cpp: its state, the request parser over the read buffer, the
  content handler, the response writer over the write queue, and the coroutine \<open>ProtocolHandler\<close>
  that runs them. The socket is the list of segments still to arrive (\<open>cn_In\<close>) and the list of
  completed writes (\<open>cn_Out\<close>): a read takes at most the free length of the first segment, a read
  after the last one and a write that \<open>ce_WriteOk\<close> refuses throw. The application's response
  source is the parameter \<open>ce_Create\<close>. A step returns a value, throws, or is \<open>Undef\<close>: undefined
  behaviour of the code, or a loop beyond the bound \<open>ce_Fuel\<close>. Header values are the C strings the
  pointers of the \<open>Header\<close> objects give at the time of parsing; where the code moves the buffer
  under them the step is \<open>Undef\<close>.
\<close>

section \<open>State\<close>

text \<open>\<open>ce_Junk\<close> and \<open>ce_Counter\<close> are what uninitialised storage holds.\<close>

definition HTTP_ReadBuffSize :: nat where "HTTP_ReadBuffSize = 16 * 1024"
definition HTTP_WriteBuffSize :: nat where "HTTP_WriteBuffSize = 24 * 1024"

record conn_config =
  cc_MaxHeadersLength :: nat
  cc_MaxPostBodyLength :: nat
  cc_MaxSilentTime :: nat

definition default_config :: conn_config where
  "default_config = \<lparr>cc_MaxHeadersLength = 4 * 1024, cc_MaxPostBodyLength = 16 * 1024 * 1024, cc_MaxSilentTime = 30\<rparr>"

record conn_env =
  ce_Create :: "nat \<Rightarrow> request \<Rightarrow> created"
  ce_CORS :: bool
  ce_ServerName :: string
  ce_Date :: "nat \<Rightarrow> string option"
  ce_WriteOk :: "nat \<Rightarrow> bool"
  ce_Conf :: conn_config
  ce_Upload :: upload_env
  ce_Fuel :: nat
  ce_Junk :: "nat \<Rightarrow> char"
  ce_Counter :: nat

text \<open>One call of \<open>IServerLog::OnRequest\<close>, without the two durations.\<close>

record request_log =
  lg_Method :: METHOD
  lg_Resource :: string
  lg_ContentLength :: nat
  lg_RespCode :: nat
  lg_WriteLength :: nat
  lg_NextConn :: "nat option"

record conn =
  cn_SilentTime :: nat
  cn_IsDeletable :: bool
  cn_Open :: bool
  cn_CurrVersion :: VERSION
  cn_CurrMethod :: METHOD
  cn_CurrResource :: string
  cn_CurrQuery :: query_params
  cn_ContentLength :: nat
  cn_Content :: "(nat \<times> nat) option"
  cn_HeaderA :: "header list"
  cn_PostHeaderBuff :: string
  cn_ReadBuff :: "char srb"
  cn_WriteBuff :: "char wbq"
  cn_NextConn :: "nat option"
  cn_ResponseCount :: nat
  cn_In :: "string list"
  cn_Out :: "string list"
  cn_Log :: "request_log list"

datatype 'a cres = Ret 'a conn | Throw conn | Undef

fun seq :: "'a cres \<Rightarrow> ('a \<Rightarrow> conn \<Rightarrow> 'b cres) \<Rightarrow> 'b cres" where
  "seq (Ret x c) f = f x c"
| "seq (Throw c) f = Throw c"
| "seq Undef f = Undef"

definition conn_init :: "conn_env \<Rightarrow> upload \<Rightarrow> nat \<Rightarrow> string list \<Rightarrow> conn" where
  "conn_init env fuConf junk input = \<lparr>cn_SilentTime = 0, cn_IsDeletable = True, cn_Open = True, cn_CurrVersion = VERSION_11,
     cn_CurrMethod = METHOD_UNKNOWN, cn_CurrResource = [], cn_CurrQuery = qp_init junk fuConf, cn_ContentLength = 0,
     cn_Content = None, cn_HeaderA = [], cn_PostHeaderBuff = [],
     cn_ReadBuff = srb_init (ce_Junk env) HTTP_ReadBuffSize, cn_WriteBuff = wq_init (ce_Junk env) HTTP_WriteBuffSize,
     cn_NextConn = None, cn_ResponseCount = 0, cn_In = input, cn_Out = [], cn_Log = []\<rparr>"

section \<open>Socket operations\<close>

definition ContinueRead :: "conn \<Rightarrow> unit cres" where
  "ContinueRead c =
     (let (readPos, freeLength) = GetReadInfo (cn_ReadBuff c)
      in if freeLength \<noteq> 0
         then (case cn_In c of
                 [] \<Rightarrow> Throw c
               | x # xs \<Rightarrow> Ret () (c\<lparr>cn_ReadBuff := srb_feed (take freeLength x) (cn_ReadBuff c),
                   cn_In := (if length x \<le> freeLength then xs else drop freeLength x # xs), cn_SilentTime := 0\<rparr>))
         else Ret () c)"

text \<open>The bytes behind a pointer and a length of the write queue.\<close>

definition wq_at :: "bptr \<Rightarrow> nat \<Rightarrow> 'b wbq \<Rightarrow> 'b list" where
  "wq_at p n q = (case p of StaticPtr a \<Rightarrow> seg (wq_mem q) a n | DynPtr i \<Rightarrow> seg (wq_heap q i) 0 n)"

text \<open>\<open>async_write\<close> of one popped buffer, and \<open>Release\<close>.\<close>

definition write_popped :: "conn_env \<Rightarrow> bptr \<Rightarrow> nat \<Rightarrow> conn \<Rightarrow> unit cres" where
  "write_popped env p n c =
     (if ce_WriteOk env (length (cn_Out c))
      then Ret () (c\<lparr>cn_Out := cn_Out c @ [wq_at p n (cn_WriteBuff c)], cn_WriteBuff := Release (cn_WriteBuff c), cn_SilentTime := 0\<rparr>)
      else Throw c)"

definition WriteNext :: "conn_env \<Rightarrow> conn \<Rightarrow> unit cres" where
  "WriteNext env c =
     (case Pop (cn_WriteBuff c) of
        (None, q) \<Rightarrow> Ret () (c\<lparr>cn_WriteBuff := q\<rparr>)
      | (Some (p, n), q) \<Rightarrow> write_popped env p n (c\<lparr>cn_WriteBuff := q\<rparr>))"

lemma Release_length:
  "length (wq_OutBuffA (Release q)) < length (wq_OutBuffA q) \<or> Release q = q"
  by (auto simp: Release_def Let_def split: list.splits bptr.splits)

function WriteAll :: "conn_env \<Rightarrow> conn \<Rightarrow> unit cres" where
  "WriteAll env c =
     (case Pop (cn_WriteBuff c) of
        (None, q) \<Rightarrow> Ret () (c\<lparr>cn_WriteBuff := q\<rparr>)
      | (Some (p, n), q) \<Rightarrow>
          if ce_WriteOk env (length (cn_Out c))
          then WriteAll env (c\<lparr>cn_Out := cn_Out c @ [wq_at p n q], cn_WriteBuff := Release q, cn_SilentTime := 0\<rparr>)
          else Throw (c\<lparr>cn_WriteBuff := q\<rparr>))"
  by auto
termination
proof (relation "measures [\<lambda>(env, c). length (wq_OutBuffA (cn_WriteBuff c)),
    \<lambda>(env, c). length (wq_OutBuffA (cn_WriteBuff c)) - wq_FirstPendingI (cn_WriteBuff c)]", goal_cases)
  case (2 env c r q pn p n)
  then have "length (wq_OutBuffA q) = length (wq_OutBuffA (cn_WriteBuff c))"
    "wq_FirstPendingI q = Suc (wq_FirstPendingI (cn_WriteBuff c))"
    "wq_FirstPendingI (cn_WriteBuff c) < length (wq_OutBuffA (cn_WriteBuff c))"
    by (auto simp: Pop_def Let_def split: if_splits)
  then show ?case
    using Release_length [of q] by auto
qed simp

declare WriteAll.simps [simp del]

section \<open>Request line and headers\<close>

definition ParseMethod :: "string \<Rightarrow> METHOD" where
  "ParseMethod s =
     (if length s = 3 \<and> s = ''GET'' then METHOD_GET
      else if length s = 4 \<and> s = ''POST'' then METHOD_POST
      else if length s = 7 \<and> s = ''OPTIONS'' then METHOD_OPTIONS
      else METHOD_UNKNOWN)"

text \<open>The last step of \<open>ParseRequestLine\<close>: the version behind the first slash.\<close>

definition parse_version :: "string \<Rightarrow> conn \<Rightarrow> bool cres" where
  "parse_version s c =
     (let skipped = takeWhile (\<lambda>x. x \<noteq> CHR ''/'') s; rest = drop (Suc (length skipped)) s
      in if length skipped = length s then Ret False c
         else Ret True (c\<lparr>cn_CurrVersion := (if length rest \<ge> 3 \<and> take 3 rest = ''1.0'' then VERSION_10 else VERSION_11)\<rparr>))"

definition ParseRequestLine :: "string \<Rightarrow> conn \<Rightarrow> bool cres" where
  "ParseRequestLine s c =
     (let meth = takeWhile (\<lambda>x. x \<noteq> CHR '' '') s; s1 = drop (Suc (length meth)) s
      in if length meth = length s then Ret False c
         else
           let c1 = c\<lparr>cn_CurrMethod := ParseMethod meth\<rparr>;
               res = takeWhile (\<lambda>x. x \<noteq> CHR '' '' \<and> x \<noteq> CHR ''?'') s1; s2 = drop (Suc (length res)) s1
           in if length res = length s1 then Ret False c1
              else
                let c2 = c1\<lparr>cn_CurrResource := res\<rparr>
                in if s1 ! length res = CHR ''?''
                   then
                     let query = takeWhile (\<lambda>x. x \<noteq> CHR '' '') s2; s3 = drop (Suc (length query)) s2
                     in if length query = length s2 then Ret False c2
                        else (case AddURLEncoded query (cn_CurrQuery c2) of
                                None \<Rightarrow> Undef
                              | Some q \<Rightarrow> parse_version s3 (c2\<lparr>cn_CurrQuery := q\<rparr>))
                   else parse_version s2 c2)"

text \<open>The block loop of \<open>HeaderHandler\<close>: \<open>n\<close> characters are left, \<open>pos\<close> is the index of \<open>InBuff\<close>
  in the buffer, \<open>base\<close> that of \<open>RelevantBuff\<close>. It ends with a return value of the handler or with
  the end of the block (\<open>None\<close>) and the two local variables.\<close>

fun header_scan :: "nat \<Rightarrow> nat \<Rightarrow> nat \<Rightarrow> bool \<Rightarrow> nat \<Rightarrow> conn \<Rightarrow> (bool option \<times> bool \<times> nat) cres" where
  "header_scan 0 pos base found start c = Ret (None, found, start) c"
| "header_scan (Suc n) pos base found start c =
     (if rb_buf (cn_ReadBuff c) ! pos = CHR 0x0A
      then if pos > base + start + 1
           then if found
                then let line = seg (rb_buf (cn_ReadBuff c)) (base + start) (pos - base - start);
                         (h, line') = Header line (drop pos (rb_buf (cn_ReadBuff c)))
                     in header_scan n (Suc pos) base found (pos - base + 1)
                          (c\<lparr>cn_HeaderA := cn_HeaderA c @ [h],
                             cn_ReadBuff := (cn_ReadBuff c)\<lparr>rb_buf := mem_write (rb_buf (cn_ReadBuff c)) (base + start) line'\<rparr>\<rparr>)
                else (case ParseRequestLine (seg (rb_buf (cn_ReadBuff c)) base (pos - base)) c of
                        Ret True c1 \<Rightarrow> header_scan n (Suc pos) base True (pos - base + 1) c1
                      | Ret False c1 \<Rightarrow> Ret (Some False, found, start) c1
                      | Throw c1 \<Rightarrow> Throw c1
                      | Undef \<Rightarrow> Undef)
           else Ret (Some True, found, start)
                  (c\<lparr>cn_ReadBuff := snd (Consume (pos - rb_ReadPos (cn_ReadBuff c) + 1) True (cn_ReadBuff c))\<rparr>)
      else header_scan n (Suc pos) base found start c)"

text \<open>What is still to come from the socket, in a size every read makes smaller.\<close>

definition input_size :: "conn \<Rightarrow> nat" where
  "input_size c = sum_list (map (\<lambda>x. Suc (length x)) (cn_In c))"

lemma seq_cong [fundef_cong]:
  "x = y \<Longrightarrow> (\<And>v c. y = Ret v c \<Longrightarrow> f v c = g v c) \<Longrightarrow> seq x f = seq y g"
  by (cases y) simp_all

lemma parse_version_keeps:
  "parse_version s c = Ret b c' \<Longrightarrow> cn_In c' = cn_In c \<and> cn_ReadBuff c' = cn_ReadBuff c"
  unfolding parse_version_def Let_def by (auto split: if_split_asm)

lemma parse_request_keeps:
  assumes "ParseRequestLine s c = Ret b c'"
  shows "cn_In c' = cn_In c \<and> cn_ReadBuff c' = cn_ReadBuff c"
  using assms unfolding ParseRequestLine_def Let_def
  by (simp only: split: if_split_asm option.split_asm) (use parse_version_keeps in \<open>fastforce+\<close>)

lemma header_scan_keeps:
  assumes "header_scan n pos base found start c = Ret (None, found', start') c'"
  shows "cn_In c' = cn_In c \<and> rb_ReadPos (cn_ReadBuff c') = rb_ReadPos (cn_ReadBuff c)
    \<and> rb_DataEndPos (cn_ReadBuff c') = rb_DataEndPos (cn_ReadBuff c)"
  using assms
  by (induction n pos base found start c arbitrary: found' start' c' rule: header_scan.induct)
    (auto simp: parse_request_keeps split: if_splits prod.splits cres.splits bool.splits)

lemma ContinueRead_size:
  "ContinueRead c = Ret u c' \<Longrightarrow> (c' = c \<and> snd (GetReadInfo (cn_ReadBuff c)) = 0) \<or> input_size c' < input_size c"
  by (auto simp: ContinueRead_def input_size_def Let_def split: prod.splits if_splits list.splits)

lemma Consume_all: "GetAvailableDataLength (snd (Consume (GetAvailableDataLength b) r b)) = 0"
  by (simp add: Consume_def GetAvailableDataLength_def Let_def u32_sub_def)

definition header_measure :: "conn \<Rightarrow> nat" where
  "header_measure c = 2 * input_size c + (if GetAvailableDataLength (cn_ReadBuff c) = 0 then 0 else 1)"

lemma ContinueRead_measure:
  "ContinueRead c = Ret u c' \<Longrightarrow> GetAvailableDataLength (cn_ReadBuff c) = 0 \<Longrightarrow>
    c' = c \<or> header_measure c' < header_measure c \<and> input_size c' < input_size c"
  using ContinueRead_size [of c u c'] by (auto simp: header_measure_def)

lemma header_round:
  assumes "header_scan n pos base found start c = Ret (None, found', start') c'"
    "ContinueRead (c'\<lparr>cn_ReadBuff := snd (Consume (GetAvailableDataLength (cn_ReadBuff c)) True (cn_ReadBuff c'))\<rparr>) = Ret u c''"
  shows "header_measure c'' \<le> 2 * input_size c"
proof -
  let ?d = "c'\<lparr>cn_ReadBuff := snd (Consume (GetAvailableDataLength (cn_ReadBuff c)) True (cn_ReadBuff c'))\<rparr>"
  have k: "cn_In c' = cn_In c" "GetAvailableDataLength (cn_ReadBuff c') = GetAvailableDataLength (cn_ReadBuff c)"
    using header_scan_keeps [OF assms(1)] by (simp_all add: GetAvailableDataLength_def)
  have z: "GetAvailableDataLength (cn_ReadBuff ?d) = 0"
    using Consume_all [of "cn_ReadBuff c'"] k(2) by simp
  then have "header_measure ?d = 2 * input_size c"
    using k(1) by (simp add: header_measure_def input_size_def)
  then show ?thesis
    using ContinueRead_measure [OF assms(2) z] by auto
qed

text \<open>The loop of \<open>HeaderHandler\<close>: it returns with every input, since a round that reads nothing is
  the last one.\<close>

function header_loop :: "bool \<Rightarrow> nat \<Rightarrow> conn \<Rightarrow> bool cres" where
  "header_loop found start c =
     seq (if GetAvailableDataLength (cn_ReadBuff c) = 0 then ContinueRead c else Ret () c) (\<lambda>_ c1.
       if GetAvailableDataLength (cn_ReadBuff c1) = 0 then Ret False c1
       else
         let b = cn_ReadBuff c1; avail = GetAvailableDataLength b
         in seq (header_scan avail (rb_ReadPos b) (rb_ReadPos b - rb_RelevantLength b) found start c1)
              (\<lambda>y c2. case y of
                  (Some ok, _, _) \<Rightarrow> Ret ok c2
                | (None, found', start') \<Rightarrow>
                    seq (ContinueRead (c2\<lparr>cn_ReadBuff := snd (Consume avail True (cn_ReadBuff c2))\<rparr>))
                      (\<lambda>_ c3. header_loop found' start' c3)))"
  by auto
termination
proof (relation "measure (\<lambda>(found, start, c). header_measure c)", simp, clarsimp split: if_splits, goal_cases)
  case (1 found start c c1 found' start' c2 c3)
  then have "input_size c1 < input_size c"
    using ContinueRead_measure [of c "()" c1] by auto
  then show ?case
    using header_round [OF 1(2,3)] by (simp add: header_measure_def)
next
  case (2 found start c found' start' c2 c3)
  then show ?case
    using header_round [OF 2(2,3)] by (simp add: header_measure_def)
qed
declare header_loop.simps [simp del]

definition HeaderHandler :: "conn \<Rightarrow> bool cres" where
  "HeaderHandler c = header_loop False 0 c"

section \<open>Request content\<close>

text \<open>The header loop of \<open>ContentHandler\<close>: content type, whether a length was found, and the state.
  It stops when both were found.\<close>

fun content_headers :: "header list \<Rightarrow> CONTENTTYPE \<Rightarrow> bool \<Rightarrow> bool \<Rightarrow> conn \<Rightarrow> (CONTENTTYPE \<times> bool) cres" where
  "content_headers [] ct hasType hasLen c = Ret (ct, hasLen) c"
| "content_headers (h # hs) ct hasType hasLen c =
     (if hd_IntName h = HN_CONTENT_LENGTH
      then (case GetULongLong h of
              None \<Rightarrow> Undef
            | Some (Inl _) \<Rightarrow> Throw c
            | Some (Inr n) \<Rightarrow>
                if hasType then Ret (ct, True) (c\<lparr>cn_ContentLength := n\<rparr>)
                else content_headers hs ct hasType True (c\<lparr>cn_ContentLength := n\<rparr>))
      else if hd_IntName h = HN_CONTENT_TYPE
      then (case GetContentType h (qp_BoundaryStr (cn_CurrQuery c)) of
              None \<Rightarrow> Undef
            | Some (ct', boundary) \<Rightarrow>
                let c1 = c\<lparr>cn_CurrQuery := (cn_CurrQuery c)\<lparr>qp_BoundaryStr := OnBoundaryParsed boundary\<rparr>\<rparr>
                in if hasLen then Ret (ct', True) c1 else content_headers hs ct' True hasLen c1)
      else content_headers hs ct hasType hasLen c)"

text \<open>Whether pointers into the used part of the buffer are still good after \<open>RequestData\<close>: the data
  was not moved, or only copied out of the static buffer, which stays as it is.\<close>

definition pointers_kept :: "char srb \<Rightarrow> char srb \<Rightarrow> bool" where
  "pointers_kept b b' \<longleftrightarrow> (rb_buf b' = rb_buf b \<and> rb_ReadPos b' = rb_ReadPos b) \<or> (rb_static b \<and> \<not> rb_static b')"

text \<open>\<open>while (!RequestData(ContentLength)) ContinueRead\<close>.\<close>

fun request_loop :: "conn_env \<Rightarrow> nat \<Rightarrow> nat \<Rightarrow> conn \<Rightarrow> unit cres" where
  "request_loop env 0 len c = Undef"
| "request_loop env (Suc fuel) len c =
     (case RequestData (ce_Junk env) len (cn_ReadBuff c) of
        (ok, b) \<Rightarrow>
          if \<not> pointers_kept (cn_ReadBuff c) b then Undef
          else if ok then Ret () (c\<lparr>cn_ReadBuff := b\<rparr>)
          else seq (ContinueRead (c\<lparr>cn_ReadBuff := b\<rparr>)) (\<lambda>_ c1. request_loop env fuel len c1))"

text \<open>The block loop for multipart content.\<close>

fun multipart_loop :: "conn_env \<Rightarrow> nat \<Rightarrow> nat \<Rightarrow> conn \<Rightarrow> unit cres" where
  "multipart_loop env 0 remLength c = Undef"
| "multipart_loop env (Suc fuel) remLength c =
     (if remLength = 0 then Ret () c
      else
        let avail = GetAvailableData (cn_ReadBuff c)
        in if length avail < remLength
           then (case QP_AppendFormMultipart (ce_Upload env) avail (cn_CurrQuery c) of
                   None \<Rightarrow> Undef
                 | Some q \<Rightarrow>
                     let b = snd (Consume (length avail) False (cn_ReadBuff c)); rest = remLength - length avail;
                         b1 = snd (RequestData (ce_Junk env) (if rest < HTTP_ReadBuffSize then u32_of rest else HTTP_ReadBuffSize) b)
                     in seq (ContinueRead (c\<lparr>cn_CurrQuery := q, cn_ReadBuff := b1\<rparr>)) (\<lambda>_ c1. multipart_loop env fuel rest c1))
           else (case QP_AppendFormMultipart (ce_Upload env) (take remLength avail) (cn_CurrQuery c) of
                   None \<Rightarrow> Undef
                 | Some q \<Rightarrow> multipart_loop env fuel 0
                     (c\<lparr>cn_CurrQuery := q, cn_ReadBuff := snd (Consume (u32_of remLength) False (cn_ReadBuff c))\<rparr>)))"

text \<open>The copy of the header data into \<open>PostHeaderBuff\<close>, which only grows. The pointers of the headers are
  moved to it, also those that are null, which is why \<open>ContentHandler\<close> has no result for a header without value.\<close>

definition save_headers :: "conn \<Rightarrow> conn" where
  "save_headers c =
     (let relevant = GetRelevantData (cn_ReadBuff c)
      in c\<lparr>cn_PostHeaderBuff := (if length (cn_PostHeaderBuff c) < length relevant then relevant
             else mem_write (cn_PostHeaderBuff c) 0 relevant),
           cn_ReadBuff := ResetRelevant (cn_ReadBuff c)\<rparr>)"

definition ContentHandler :: "conn_env \<Rightarrow> conn \<Rightarrow> bool cres" where
  "ContentHandler env c =
     seq (content_headers (cn_HeaderA c) CT_UNKNOWN False False c) (\<lambda>y c1. case y of (ct, hasLen) \<Rightarrow>
       if \<not> hasLen then Ret False c1
       else
         let c2 = c1\<lparr>cn_Content := None\<rparr>
         in if cn_ContentLength c2 = 0 then Ret True c2
            else if cn_ContentLength c2 > cc_MaxPostBodyLength (ce_Conf env) then Ret False c2
            else if ct = CT_URL_ENCODED \<or> ct = CT_UNKNOWN
            then seq (request_loop env (ce_Fuel env) (u32_of (cn_ContentLength c2)) c2) (\<lambda>_ c3.
              let b = cn_ReadBuff c3; content = GetAvailableData b;
                  c4 = c3\<lparr>cn_Content := Some (rb_ReadPos b, rb_ReadPos b + length content)\<rparr>;
                  c5 = (\<lambda>c. Ret True (c\<lparr>cn_ReadBuff := snd (Consume (length content) True (cn_ReadBuff c))\<rparr>))
              in if ct = CT_URL_ENCODED
                 then (case AddURLEncoded content (cn_CurrQuery c4) of
                         None \<Rightarrow> Undef
                       | Some q \<Rightarrow> c5 (c4\<lparr>cn_CurrQuery := q\<rparr>))
                 else c5 c4)
            else if ct = CT_FORM_MULTIPART
            then if \<exists>h \<in> set (cn_HeaderA c2). hd_Value h = None then Undef
                 else seq (multipart_loop env (ce_Fuel env) (cn_ContentLength c2) (save_headers c2)) (\<lambda>_ c3. Ret True c3)
            else Ret False c2)"

section \<open>Response headers\<close>

text \<open>\<open>CurrPos+=snprintf(CurrPos,CurrPosEnd-CurrPos,...)\<close> with the text printed so far and the text to
  print: what does not fit is cut, the position moves by the full length all the same, and the
  skipped characters are whatever was in the buffer. Behind the end the size is a huge number.\<close>

definition hdr_print :: "(nat \<Rightarrow> char) \<Rightarrow> nat \<Rightarrow> string \<Rightarrow> string \<Rightarrow> string option" where
  "hdr_print junk limit s t =
     (if length t > limit then None
      else let size = limit - length t
           in if length s < size then Some (t @ s)
              else Some (t @ take (size - 1) s @ (if size = 0 then [] else [NUL])
                     @ map junk [length t + size..<length t + length s]))"

text \<open>The date is written by \<open>strftime\<close> with a room of 40 characters.\<close>

definition hdr_date :: "nat \<Rightarrow> string \<Rightarrow> string \<Rightarrow> string option" where
  "hdr_date maxLength s t =
     (if length t + length s \<ge> maxLength then None
      else Some (if length s < 40 then t @ s else t))"

definition CRLF :: string where "CRLF = [CHR 0x0D, CHR 0x0A]"

definition hdr_extra :: "nat \<Rightarrow> (string \<times> string) option \<Rightarrow> string \<Rightarrow> string" where
  "hdr_extra limit hdr t = (case hdr of
      None \<Rightarrow> t
    | Some (name, val) \<Rightarrow>
        if u32_add (u32_add (u32_of (length name)) (u32_of (length val))) (2 + 2) < u32_of (limit - length t)
        then t @ name @ '': '' @ val @ CRLF else t)"

definition status_line :: "conn_env \<Rightarrow> response \<Rightarrow> string" where
  "status_line env r = ''HTTP/1.1 '' @ dec (rp_ResponseCode r) @ '' '' @ GetResponseName (rp_ResponseCode r) @ CRLF
     @ ''Server: '' @ cstr (ce_ServerName env) @ CRLF"

definition content_type_line :: "response \<Rightarrow> string" where
  "content_type_line r = (case rp_Charset r of
      Some enc \<Rightarrow> ''Content-Type: '' @ cstr (rp_ContentType r) @ ''; charset='' @ [CHR 0x22] @ cstr enc @ [CHR 0x22] @ CRLF
    | None \<Rightarrow> ''Content-Type: '' @ cstr (rp_ContentType r) @ CRLF)"

definition length_line :: "response \<Rightarrow> string" where
  "length_line r = (if rp_Length r \<noteq> NO_LENGTH then ''Content-Length: '' @ dec (rp_Length r) @ CRLF
     else ''Transfer-Encoding: chunked'' @ CRLF)"

definition cors_line :: string where
  "cors_line = ''Access-Control-Allow-Origin: *'' @ CRLF"

text \<open>The header part of \<open>ResponseHandler\<close>: the text between \<open>CurrPosBegin\<close> and \<open>CurrPos\<close>.\<close>

definition response_head :: "conn_env \<Rightarrow> nat \<Rightarrow> bool \<Rightarrow> response \<Rightarrow> string option" where
  "response_head env count writeCORS r =
     (let maxLength = cc_MaxHeadersLength (ce_Conf env); limit = maxLength - 2; prn = hdr_print (ce_Junk env) limit
      in Option.bind (prn (status_line env r) []) (\<lambda>t1.
         Option.bind (prn (content_type_line r) t1) (\<lambda>t2.
         Option.bind (if ce_CORS env \<and> writeCORS then prn cors_line t2 else Some t2) (\<lambda>t3.
         Option.bind (case ce_Date env count of None \<Rightarrow> Some t3
                      | Some d \<Rightarrow> hdr_date maxLength (''Date: '' @ d @ CRLF) t3) (\<lambda>t4.
         Option.bind (prn (length_line r) t4) (\<lambda>t5.
         let t6 = fold (hdr_extra limit) (rp_ExtraHeaders r) t5
         in if length t5 > limit then None else prn CRLF t6))))))"

section \<open>Response bodies\<close>

text \<open>\<open>%08x\<close> of a 32-bit number.\<close>

definition hex_digit :: "nat \<Rightarrow> char" where
  "hex_digit n = ''0123456789abcdef'' ! n"

definition hex8 :: "nat \<Rightarrow> string" where
  "hex8 n = map (\<lambda>i. hex_digit (n div 16 ^ (7 - i) mod 16)) [0..<8]"

definition ChunkHeaderLen :: nat where "ChunkHeaderLen = 8 + 2"
definition ChunkFooterLength :: nat where "ChunkFooterLength = 2"
definition FinalChunkLength :: nat where "FinalChunkLength = 1 + 2 + 2"

definition put :: "conn_env \<Rightarrow> nat \<Rightarrow> string \<Rightarrow> conn \<Rightarrow> conn" where
  "put env n s c = c\<lparr>cn_WriteBuff := wq_put (ce_Junk env) n s (cn_WriteBuff c)\<rparr>"

text \<open>A body of known length: \<open>left\<close> bytes are still to send, \<open>sent\<close> were written.\<close>

fun length_body :: "conn_env \<Rightarrow> nat \<Rightarrow> reader \<Rightarrow> nat \<Rightarrow> nat \<Rightarrow> conn \<Rightarrow> (bool \<times> nat) cres" where
  "length_body env 0 rd left sent c = Undef"
| "length_body env (Suc fuel) rd left sent c =
     (if left = 0 then Ret (False, sent) c
      else
        case read_step rd HTTP_WriteBuffSize of
          None \<Rightarrow> Throw (c\<lparr>cn_SilentTime := 0, cn_WriteBuff := snd (Allocate (ce_Junk env) HTTP_WriteBuffSize (cn_WriteBuff c))\<rparr>)
        | Some (part, isFinished, rd') \<Rightarrow>
            if length part > HTTP_WriteBuffSize then Undef
            else
              let left' = (if length part \<le> left then left - length part else 0)
              in seq (WriteNext env (put env HTTP_WriteBuffSize part (c\<lparr>cn_SilentTime := 0\<rparr>))) (\<lambda>_ c1.
                   if isFinished \<and> left' = 0 then Ret (True, sent + length part) c1
                   else if isFinished \<or> left' = 0 then Ret (False, sent + length part) c1
                   else length_body env fuel rd' left' (sent + length part) c1))"

text \<open>A chunked body; with a read that claims more than the chunk has room for, the footer is written
  outside the buffer.\<close>

fun chunked_body :: "conn_env \<Rightarrow> nat \<Rightarrow> reader \<Rightarrow> nat \<Rightarrow> conn \<Rightarrow> nat cres" where
  "chunked_body env 0 rd sent c = Undef"
| "chunked_body env (Suc fuel) rd sent c =
     (case read_step rd (HTTP_WriteBuffSize - ChunkHeaderLen - ChunkFooterLength) of
        None \<Rightarrow> Throw (c\<lparr>cn_SilentTime := 0, cn_WriteBuff := snd (Allocate (ce_Junk env) HTTP_WriteBuffSize (cn_WriteBuff c))\<rparr>)
      | Some (part, isFinished, rd') \<Rightarrow>
          if length part > HTTP_WriteBuffSize - ChunkHeaderLen - ChunkFooterLength then Undef
          else if part \<noteq> []
          then let c1 = put env HTTP_WriteBuffSize (hex8 (length part) @ CRLF @ part @ CRLF) (c\<lparr>cn_SilentTime := 0\<rparr>)
               in if \<not> isFinished
                  then seq (WriteNext env c1) (\<lambda>_ c2. chunked_body env fuel rd' (sent + length part) c2)
                  else Ret (sent + length part) c1
          else Ret sent (put env HTTP_WriteBuffSize [] (c\<lparr>cn_SilentTime := 0\<rparr>)))"

definition final_chunk :: string where
  "final_chunk = ''0'' @ CRLF @ CRLF"


section \<open>The response handler\<close>

datatype responder = Responder response bool

text \<open>The choice of the response, and \<open>WriteCORSHeaders\<close>; a null pointer from the application's
  source is used without a test.\<close>

definition choose_response :: "conn_env \<Rightarrow> nat \<Rightarrow> request \<Rightarrow> responder option" where
  "choose_response env count rq =
     (let app = (case ce_Create env count rq of
                   Created r \<Rightarrow> Some (Responder r True)
                 | CreatedNull \<Rightarrow> None
                 | StdException t m \<Rightarrow> Some (Responder (CreateFromException rq (Some (t, m))) True)
                 | OtherException \<Rightarrow> Some (Responder (CommonError_Create rq) True))
      in if ce_CORS env
         then (case CORSPreflight_Create rq of Some r \<Rightarrow> Some (Responder r False) | None \<Rightarrow> app)
         else app)"

definition conn_request :: "conn \<Rightarrow> request" where
  "conn_request c = \<lparr>rq_Method = cn_CurrMethod c, rq_Resource = cn_CurrResource c, rq_Query = cn_CurrQuery c,
     rq_HeaderA = cn_HeaderA c,
     rq_Content = map_option (\<lambda>(a, e). seg (rb_buf (cn_ReadBuff c)) a (e - a)) (cn_Content c)\<rparr>"

text \<open>After the body: \<open>WriteAll\<close>, the upgrade, the log entry.\<close>

definition finish_response :: "conn_env \<Rightarrow> response \<Rightarrow> bool \<Rightarrow> nat \<Rightarrow> conn \<Rightarrow> bool cres" where
  "finish_response env r keep sent c =
     seq (WriteAll env c) (\<lambda>_ c1.
       Ret (keep \<and> rp_Upgrade r = None)
         (c1\<lparr>cn_NextConn := rp_Upgrade r,
             cn_Log := cn_Log c1 @ [\<lparr>lg_Method = cn_CurrMethod c1, lg_Resource = cn_CurrResource c1,
               lg_ContentLength = cn_ContentLength c1, lg_RespCode = rp_ResponseCode r, lg_WriteLength = sent,
               lg_NextConn = rp_Upgrade r\<rparr>]\<rparr>))"

definition ResponseHandler :: "conn_env \<Rightarrow> conn \<Rightarrow> bool cres" where
  "ResponseHandler env c =
     (let c0 = c\<lparr>cn_ResponseCount := u32_add (cn_ResponseCount c) 1\<rparr>; count = cn_ResponseCount c0
      in case choose_response env count (conn_request c0) of
           None \<Rightarrow> Undef
         | Some (Responder r writeCORS) \<Rightarrow>
             (case response_head env count writeCORS r of
                None \<Rightarrow> Undef
              | Some hdr \<Rightarrow>
                  seq (WriteNext env (put env (cc_MaxHeadersLength (ce_Conf env)) hdr c0)) (\<lambda>_ c1.
                    if rp_Length r \<noteq> NO_LENGTH
                    then seq (length_body env (ce_Fuel env) (rp_Read r) (rp_Length r) 0 c1)
                           (\<lambda>y c2. case y of (keep, sent) \<Rightarrow> finish_response env r keep sent c2)
                    else seq (chunked_body env (ce_Fuel env) (rp_Read r) 0 c1)
                           (\<lambda>sent c2. finish_response env r True sent (put env FinalChunkLength final_chunk c2)))))"

section \<open>The protocol\<close>

definition default_upload :: "upload \<Rightarrow> upload" where
  "default_upload u = (upload_init (UINTMAX - 1) (UINTMAX - 1))\<lparr>up_Files := up_Files u, up_Created := up_Created u\<rparr>"

text \<open>\<open>CurrQuery=QueryParams()\<close>; the files on disk stay as they are.\<close>

definition ResetRequestData :: "conn_env \<Rightarrow> conn \<Rightarrow> conn" where
  "ResetRequestData env c = c\<lparr>cn_CurrVersion := VERSION_11, cn_CurrMethod := METHOD_UNKNOWN,
     cn_CurrQuery := move_assign (cn_CurrQuery c)
       (qp_init (ce_Counter env) (default_upload (qp_Upload (cn_CurrQuery c)))),
     cn_ContentLength := 0, cn_HeaderA := []\<rparr>"

fun CompareLowercaseSimple :: "string \<Rightarrow> string \<Rightarrow> bool" where
  "CompareLowercaseSimple [] lower = (lower = [])"
| "CompareLowercaseSimple (v # test) [] = False"
| "CompareLowercaseSimple (v # test) (l # lower) = (tolower v = l \<and> CompareLowercaseSimple test lower)"

text \<open>The keep-alive loop over the headers of an HTTP/1.1 request; \<open>None\<close> for a null value.\<close>

fun keep_alive :: "header list \<Rightarrow> bool \<Rightarrow> bool option" where
  "keep_alive [] keep = Some keep"
| "keep_alive (h # hs) keep =
     (if hd_IntName h = HN_CONNECTION
      then (case hd_Value h of
              None \<Rightarrow> None
            | Some v \<Rightarrow> keep_alive hs (keep \<and> \<not> CompareLowercaseSimple (cstr v) ''close''))
      else keep_alive hs keep)"

fun protocol_loop :: "conn_env \<Rightarrow> nat \<Rightarrow> conn \<Rightarrow> unit cres" where
  "protocol_loop env 0 c = Undef"
| "protocol_loop env (Suc fuel) c =
     seq (HeaderHandler (ResetRequestData env c)) (\<lambda>ok c1.
       if \<not> ok then Ret () c1
       else seq (if cn_CurrMethod c1 = METHOD_POST then ContentHandler env c1 else Ret True c1) (\<lambda>ok c2.
         if \<not> ok then Ret () c2
         else seq (ResponseHandler env c2) (\<lambda>ok c3.
           if \<not> ok then Ret () c3
           else
             let c4 = c3\<lparr>cn_ReadBuff := ResetRelevant (cn_ReadBuff c3)\<rparr>
             in if cn_CurrVersion c4 = VERSION_10 then Ret () c4
                else (case keep_alive (cn_HeaderA c4) True of
                        None \<Rightarrow> Undef
                      | Some keep \<Rightarrow> if keep then protocol_loop env fuel c4 else Ret () c4))))"

text \<open>An exception ends the loop as well; the result is the state the coroutine leaves.\<close>

definition ProtocolHandler :: "conn_env \<Rightarrow> nat \<Rightarrow> conn \<Rightarrow> conn option" where
  "ProtocolHandler env fuel c =
     (case protocol_loop env fuel c of
        Ret u c1 \<Rightarrow> Some (c1\<lparr>cn_Open := False, cn_IsDeletable := True\<rparr>)
      | Throw c1 \<Rightarrow> Some (c1\<lparr>cn_Open := False, cn_IsDeletable := True\<rparr>)
      | Undef \<Rightarrow> None)"

section \<open>The owner's calls\<close>

definition StartConnection :: "conn \<Rightarrow> conn" where
  "StartConnection c = c\<lparr>cn_IsDeletable := False\<rparr>"

definition StopConnection :: "conn \<Rightarrow> conn" where
  "StopConnection c = c\<lparr>cn_Open := False\<rparr>"

text \<open>The destructor: the temporary files of the last request and a successor nobody took are removed.\<close>

definition DestroyConnection :: "conn \<Rightarrow> conn" where
  "DestroyConnection c = c\<lparr>cn_PostHeaderBuff := [], cn_CurrQuery := DeleteUploadedFiles (cn_CurrQuery c), cn_NextConn := None\<rparr>"

text \<open>\<open>OnStep\<close>: the result, and the connection released to the server, if any.\<close>

definition HttpOnStep :: "conn_config \<Rightarrow> nat \<Rightarrow> conn \<Rightarrow> (bool \<times> nat option) \<times> conn" where
  "HttpOnStep conf stepInterval c =
     (let (out, c1) = (case cn_NextConn c of
            Some n \<Rightarrow> (Some n, c\<lparr>cn_NextConn := None, cn_SilentTime := cc_MaxSilentTime conf\<rparr>)
          | None \<Rightarrow> (None, c));
          c2 = c1\<lparr>cn_SilentTime := u32_add (cn_SilentTime c1) stepInterval\<rparr>
      in if cn_SilentTime c2 > cc_MaxSilentTime conf
         then ((\<not> cn_IsDeletable c2, out), c2\<lparr>cn_Open := False\<rparr>)
         else ((True, out), c2))"

end
