(* ===== verification/HttpRequest.thy ===== *)
theory HttpRequest
  imports HttpConnection
begin

text \<open>
  The request parser: \<open>HeaderHandler\<close> works block by block on a buffer it writes into; it is shown
  equal to a reference that takes the characters of the stream one by one, and from that to read
  back every well-formed request, however the network cuts it.
\<close>

section \<open>The header block on the stream of characters\<close>

text \<open>A reference for \<open>HeaderHandler\<close>: the characters of the stream one by one, with the line read so
  far. \<open>Bad\<close> is a line whose header would depend on what follows it in memory.\<close>

datatype hdr_state = More bool string conn | Stop bool string conn | Bad

definition good_line :: "string \<Rightarrow> bool" where
  "good_line line \<longleftrightarrow> (\<forall>post. fst (Header line post) = fst (Header line []) \<and> length (snd (Header line post)) = length line)"

fun hdr_ref :: "string \<Rightarrow> bool \<Rightarrow> string \<Rightarrow> conn \<Rightarrow> hdr_state" where
  "hdr_ref [] found line c = More found line c"
| "hdr_ref (x # s) found line c =
     (if x = CHR 0x0A
      then if length line > 1
           then if found
                then if good_line line then hdr_ref s found [] (c\<lparr>cn_HeaderA := cn_HeaderA c @ [fst (Header line [])]\<rparr>) else Bad
                else (case ParseRequestLine line c of
                        Ret True c1 \<Rightarrow> hdr_ref s True [] c1 | Ret False c1 \<Rightarrow> Stop False s c1 | _ \<Rightarrow> Bad)
           else Stop True s c
      else hdr_ref s found (line @ [x]) c)"

text \<open>The fields the reference leaves alone.\<close>

definition io :: "char srb \<Rightarrow> string list \<Rightarrow> nat \<Rightarrow> conn \<Rightarrow> conn" where
  "io b i t c = c\<lparr>cn_ReadBuff := b, cn_In := i, cn_SilentTime := t\<rparr>"

fun map_res :: "(conn \<Rightarrow> conn) \<Rightarrow> 'a cres \<Rightarrow> 'a cres" where
  "map_res f (Ret x c) = Ret x (f c)"
| "map_res f (Throw c) = Throw (f c)"
| "map_res f Undef = Undef"

lemma io_simps [simp]: "cn_ReadBuff (io b i t c) = b" "cn_In (io b i t c) = i" "cn_HeaderA (io b i t c) = cn_HeaderA c"
  "(io b i t c)\<lparr>cn_ReadBuff := b'\<rparr> = io b' i t c" "io b i t (io b' i' t' c) = io b i t c"
  by (simp_all add: io_def)

lemma parse_version_io: "parse_version s (io b i t c) = map_res (io b i t) (parse_version s c)"
  by (auto simp: parse_version_def io_def Let_def)

lemma io_updates:
  "(io b i t c)\<lparr>cn_CurrMethod := m\<rparr> = io b i t (c\<lparr>cn_CurrMethod := m\<rparr>)"
  "(io b i t c)\<lparr>cn_CurrResource := r\<rparr> = io b i t (c\<lparr>cn_CurrResource := r\<rparr>)"
  "(io b i t c)\<lparr>cn_CurrQuery := q\<rparr> = io b i t (c\<lparr>cn_CurrQuery := q\<rparr>)"
  "(io b i t c)\<lparr>cn_HeaderA := hs\<rparr> = io b i t (c\<lparr>cn_HeaderA := hs\<rparr>)"
  "cn_CurrQuery (io b i t c) = cn_CurrQuery c"
  by (simp_all add: io_def)

lemma ParseRequestLine_io: "ParseRequestLine s (io b i t c) = map_res (io b i t) (ParseRequestLine s c)"
  unfolding ParseRequestLine_def Let_def by (simp add: io_updates parse_version_io split: option.split)

text \<open>The block from \<open>pos\<close> on is intact, and so is the line in front of it.\<close>

definition scan_view :: "nat \<Rightarrow> nat \<Rightarrow> nat \<Rightarrow> nat \<Rightarrow> char srb \<Rightarrow> string \<Rightarrow> string \<Rightarrow> bool" where
  "scan_view n pos base start b line w \<longleftrightarrow> base + start \<le> pos \<and> pos + n \<le> length (rb_buf b)
     \<and> seg (rb_buf b) (base + start) (pos - (base + start)) = line \<and> seg (rb_buf b) pos n = w"

definition same_shape :: "char srb \<Rightarrow> char srb \<Rightarrow> bool" where
  "same_shape b b' \<longleftrightarrow> (\<exists>buf. b' = b\<lparr>rb_buf := buf\<rparr> \<and> length buf = length (rb_buf b))"

lemma same_shape_simps: "same_shape b b" "same_shape b b' \<Longrightarrow> same_shape b' b'' \<Longrightarrow> same_shape b b''"
  "length buf = length (rb_buf b) \<Longrightarrow> same_shape b (b\<lparr>rb_buf := buf\<rparr>)"
proof -
  show "same_shape b b" unfolding same_shape_def by (rule exI [of _ "rb_buf b"]) simp
qed (auto simp: same_shape_def)

lemma seg_head: "pos + Suc n \<le> length buf \<Longrightarrow> seg buf pos (Suc n) = buf ! pos # seg buf (Suc pos) n"
  by (simp add: seg_def Cons_nth_drop_Suc [symmetric])

lemma seg_snoc: "p \<le> pos \<Longrightarrow> pos < length buf \<Longrightarrow> seg buf p (Suc pos - p) = seg buf p (pos - p) @ [buf ! pos]"
  by (simp add: seg_def Suc_diff_le take_Suc_conv_app_nth)

lemma seg_mem_write_behind: "p + length xs \<le> pos \<Longrightarrow> pos \<le> length buf \<Longrightarrow> seg (mem_write buf p xs) pos n = seg buf pos n"
  by (simp add: seg_def mem_write_def)


lemma scan_step:
  assumes "scan_view (Suc n) pos base start b line (x # w)"
  shows "rb_buf b ! pos = x" "scan_view n (Suc pos) base start b (line @ [x]) w"
    "seg (rb_buf b) (base + start) (pos - base - start) = line" "length line = pos - (base + start)"
    "pos > base + start + 1 \<longleftrightarrow> length line > 1" "scan_view n (Suc pos) base (pos - base + 1) b [] w"
  using assms by (auto simp: scan_view_def seg_head seg_snoc)

text \<open>A header line is cut in place, in front of the rest of the block.\<close>

lemma scan_header:
  assumes V: "scan_view (Suc n) pos base start b line (x # w)" and g: "good_line line"
  defines "b' \<equiv> b\<lparr>rb_buf := mem_write (rb_buf b) (base + start) (snd (Header line (drop pos (rb_buf b))))\<rparr>"
  shows "same_shape b b'" "drop (Suc (pos + n)) (rb_buf b') = drop (Suc (pos + n)) (rb_buf b)"
    "scan_view n (Suc pos) base (pos - base + 1) b' [] w" "fst (Header line (drop pos (rb_buf b))) = fst (Header line [])"
proof -
  have l: "length (snd (Header line (drop pos (rb_buf b)))) = length line"
    using g by (simp add: good_line_def)
  have e: "base + start + length line = pos" "pos + Suc n \<le> length (rb_buf b)"
    using scan_step(4) [OF V] V by (auto simp: scan_view_def)
  then have len: "length (rb_buf b') = length (rb_buf b)"
    using l by (simp add: b'_def length_mem_write)
  then show "same_shape b b'"
    using same_shape_simps(3) [of "rb_buf b'" b] by (simp add: b'_def)
  show "drop (Suc (pos + n)) (rb_buf b') = drop (Suc (pos + n)) (rb_buf b)"
    using l e by (simp add: b'_def mem_write_def add.commute)
  have "seg (rb_buf b') (Suc pos) n = seg (rb_buf b) (Suc pos) n"
    using l e by (simp add: b'_def seg_mem_write_behind)
  then show "scan_view n (Suc pos) base (pos - base + 1) b' [] w"
    using scan_step(6) [OF V] len by (simp add: scan_view_def)
  show "fst (Header line (drop pos (rb_buf b))) = fst (Header line [])"
    using g by (simp add: good_line_def)
qed

text \<open>What a block scan must give, by the result of the reference on the same characters.\<close>

definition scan_result :: "nat \<Rightarrow> nat \<Rightarrow> nat \<Rightarrow> char srb \<Rightarrow> string list \<Rightarrow> nat \<Rightarrow> hdr_state
    \<Rightarrow> (bool option \<times> bool \<times> nat) cres \<Rightarrow> bool" where
  "scan_result n pos base b i t r out \<longleftrightarrow> (case r of
      More found line c \<Rightarrow> \<exists>b' start. out = Ret (None, found, start) (io b' i t c) \<and> same_shape b b'
        \<and> drop (pos + n) (rb_buf b') = drop (pos + n) (rb_buf b)
        \<and> scan_view 0 (pos + n) base start b' line [] \<and> (\<not> found \<longrightarrow> start = 0)
    | Stop ok rest c \<Rightarrow> ok \<longrightarrow> (\<exists>b' k y. out = Ret (Some True, y) (io (snd (Consume (k - rb_ReadPos b + 1) True b')) i t c)
        \<and> same_shape b b' \<and> pos \<le> k \<and> k < pos + n \<and> rest = seg (rb_buf b') (Suc k) (pos + n - Suc k)
        \<and> drop (pos + n) (rb_buf b') = drop (pos + n) (rb_buf b))
    | Bad \<Rightarrow> True)"

lemma scan_result_step:
  assumes "scan_result m (Suc pos) base b1 i t r out" "same_shape b b1"
    "drop (Suc (pos + m)) (rb_buf b1) = drop (Suc (pos + m)) (rb_buf b)"
  shows "scan_result (Suc m) pos base b i t r out"
proof -
  have r: "rb_ReadPos b1 = rb_ReadPos b"
    using assms(2) by (auto simp: same_shape_def)
  have p: "Suc pos + m = pos + Suc m" "Suc (pos + m) = pos + Suc m"
    by simp_all
  show ?thesis
  proof (cases r)
    case (More found line c)
    then obtain b' start where "out = Ret (None, found, start) (io b' i t c)" "same_shape b1 b'"
        "drop (pos + Suc m) (rb_buf b') = drop (pos + Suc m) (rb_buf b1)"
        "scan_view 0 (pos + Suc m) base start b' line []" "\<not> found \<longrightarrow> start = 0"
      using assms(1) unfolding scan_result_def p by auto
    then show ?thesis
      using assms(2,3) same_shape_simps(2) [of b b1 b'] More unfolding scan_result_def p
      by (simp, intro exI [of _ b'] exI [of _ start]) simp
  next
    case (Stop ok rest c)
    show ?thesis
      unfolding scan_result_def Stop hdr_state.case
    proof
      assume ok
      then obtain b' k y where "out = Ret (Some True, y) (io (snd (Consume (k - rb_ReadPos b + 1) True b')) i t c)"
        "same_shape b1 b'" "Suc pos \<le> k" "k < pos + Suc m" "rest = seg (rb_buf b') (Suc k) (pos + Suc m - Suc k)"
        "drop (pos + Suc m) (rb_buf b') = drop (pos + Suc m) (rb_buf b1)"
        using assms(1) Stop unfolding scan_result_def p r by auto
      then show "\<exists>b' k y. out = Ret (Some True, y) (io (snd (Consume (k - rb_ReadPos b + 1) True b')) i t c)
        \<and> same_shape b b' \<and> pos \<le> k \<and> k < pos + Suc m \<and> rest = seg (rb_buf b') (Suc k) (pos + Suc m - Suc k)
        \<and> drop (pos + Suc m) (rb_buf b') = drop (pos + Suc m) (rb_buf b)"
        using assms(2,3) same_shape_simps(2) [of b b1 b'] unfolding p
        by (intro exI [of _ b'] exI [of _ k] exI [of _ y]) simp
    qed
  qed (simp add: scan_result_def)
qed

lemma scan_ref:
  assumes "scan_view n pos base start b line w" "\<not> found \<longrightarrow> start = 0"
  shows "scan_result n pos base b i t (hdr_ref w found line c) (header_scan n pos base found start (io b i t c))"
  using assms
proof (induction w arbitrary: n pos start b line found c)
  case Nil
  then have "n = 0" by (auto simp: scan_view_def seg_def)
  then show ?case
    using Nil same_shape_simps(1) by (auto simp: scan_result_def)
next
  case (Cons x w)
  obtain m where n: "n = Suc m"
    using Cons.prems(1) by (cases n) (auto simp: scan_view_def seg_def)
  note V = scan_step [OF Cons.prems(1) [unfolded n]]
  note same = same_shape_simps(1) [of b]
  consider "x \<noteq> CHR 0x0A" | "x = CHR 0x0A" "\<not> length line > 1" | "x = CHR 0x0A" "length line > 1" "found"
    | "x = CHR 0x0A" "length line > 1" "\<not> found" by blast
  then show ?case
  proof cases
    case 1
    then show ?thesis
      using scan_result_step [OF Cons.IH [OF V(2) Cons.prems(2)] same refl] V(1) by (simp add: n)
  next
    case 2
    have "scan_view m (Suc pos) base start b (line @ [x]) w" using V(2) .
    then have w: "w = seg (rb_buf b) (Suc pos) (pos + Suc m - Suc pos)"
      by (simp add: scan_view_def)
    have "header_scan n pos base found start (io b i t c) =
        Ret (Some True, found, start) (io (snd (Consume (pos - rb_ReadPos b + 1) True b)) i t c)"
      using 2 V(1,5) by (simp add: n)
    then show ?thesis
      using 2 w same unfolding scan_result_def n
      by (simp, intro exI [of _ b] conjI exI [of _ pos]) simp_all
  next
    case 3
    show ?thesis
    proof (cases "good_line line")
      case True
      note H = scan_header [OF Cons.prems(1) [unfolded n] True]
      let ?b = "b\<lparr>rb_buf := mem_write (rb_buf b) (base + start) (snd (Header line (drop pos (rb_buf b))))\<rparr>"
      have "header_scan n pos base found start (io b i t c) = header_scan m (Suc pos) base found (pos - base + 1)
          (io ?b i t (c\<lparr>cn_HeaderA := cn_HeaderA c @ [fst (Header line [])]\<rparr>))"
        using 3 V(1,3,5) H(4) by (cases "Header line (drop pos (rb_buf b))") (simp add: n io_updates)
      then show ?thesis
        using scan_result_step [OF Cons.IH [OF H(3)] H(1,2), of found] 3 True by (simp add: n)
    qed (use 3 in \<open>simp add: scan_result_def\<close>)
  next
    case 4
    then have start: "start = 0"
      using Cons.prems(2) by simp
    have e: "header_scan n pos base found start (io b i t c) = (case ParseRequestLine line (io b i t c) of
         Ret True c1 \<Rightarrow> header_scan m (Suc pos) base True (pos - base + 1) c1
       | Ret False c1 \<Rightarrow> Ret (Some False, False, 0) c1 | Throw c1 \<Rightarrow> Throw c1 | Undef \<Rightarrow> Undef)"
      using 4 V(1,3,5) start by (simp add: n)
    show ?thesis
    proof (cases "\<exists>c1. ParseRequestLine line c = Ret True c1")
      case True
      then obtain c1 where c1: "ParseRequestLine line c = Ret True c1" by blast
      then have "header_scan n pos base found start (io b i t c) = header_scan m (Suc pos) base True (pos - base + 1) (io b i t c1)"
        by (simp add: e ParseRequestLine_io)
      then show ?thesis
        using scan_result_step [OF Cons.IH [OF V(6), of True] same refl] 4 c1 by (simp add: n)
    next
      case False
      then have "hdr_ref (x # w) found line c = Bad \<or> (\<exists>s c'. hdr_ref (x # w) found line c = Stop False s c')"
        using 4 by (cases "ParseRequestLine line c") auto
      then show ?thesis
        by (auto simp only: scan_result_def hdr_state.case)
    qed
  qed
qed

lemma hdr_ref_append:
  "hdr_ref (s @ w) found line c = (case hdr_ref s found line c of
      More f l c1 \<Rightarrow> hdr_ref w f l c1 | Stop ok r c1 \<Rightarrow> Stop ok (r @ w) c1 | Bad \<Rightarrow> Bad)"
  by (induction s found line c rule: hdr_ref.induct) (auto split: cres.split bool.split)

lemma hdr_ref_shorter: "hdr_ref s found line c = Stop ok rest c' \<Longrightarrow> length rest < length s"
  by (induction s found line c rule: hdr_ref.induct) (fastforce split: if_splits cres.splits bool.splits)+

lemma same_shape_inv: "same_shape b b' \<Longrightarrow> srb_inv b' = srb_inv b"
  by (auto simp: same_shape_def srb_inv_def)

lemma same_shape_fields:
  assumes "same_shape b b'"
  shows "rb_ReadPos b' = rb_ReadPos b" "rb_RelevantLength b' = rb_RelevantLength b" "rb_DataEndPos b' = rb_DataEndPos b"
    "rb_ReqDataEndPos b' = rb_ReqDataEndPos b" "rb_static b' = rb_static b" "length (rb_buf b') = length (rb_buf b)"
  using assms by (auto simp: same_shape_def)

text \<open>One read with room in the buffer.\<close>

lemma read_some:
  assumes "srb_inv b" "rb_DataEndPos b < length (rb_buf b)" "i \<noteq> []" "[] \<notin> set i"
  shows "\<exists>y i'. ContinueRead (io b i t c) = Ret () (io (srb_feed y b) i' 0 c) \<and> y \<noteq> [] \<and> y @ concat i' = concat i
    \<and> [] \<notin> set i' \<and> length y \<le> srb_room b \<and> (length i' < length i \<or> length y = srb_room b \<and> length i' = length i)"
proof -
  obtain x xs where i: "i = x # xs" using assms(3) by (cases i) auto
  have free: "snd (GetReadInfo b) = srb_room b" "0 < srb_room b"
    using assms(1,2) by (simp_all add: srb_room_def [symmetric] srb_room_eq)
  let ?y = "take (srb_room b) x" and ?i = "if length x \<le> srb_room b then xs else drop (srb_room b) x # xs"
  have "ContinueRead (io b i t c) = Ret () (io (srb_feed ?y b) ?i 0 c)"
    using free by (simp add: ContinueRead_def i io_def case_prod_unfold)
  moreover have "?y \<noteq> []" "?y @ concat ?i = concat i" "[] \<notin> set ?i" "length ?y \<le> srb_room b"
      "length ?i < length i \<or> length ?y = srb_room b \<and> length ?i = length i"
    using assms(4) free(2) i by auto
  ultimately show ?thesis by blast
qed

lemma feed_view:
  assumes "srb_inv b" "scan_view 0 p base start b line []" "p \<le> rb_DataEndPos b" "length y \<le> srb_room b"
  shows "scan_view 0 p base start (srb_feed y b) line []"
proof -
  have l: "rb_DataEndPos b + length y \<le> length (rb_buf b)"
    using assms(1,4) by (simp add: srb_room_eq) (use srb_invD(3) [OF assms(1)] in linarith)
  then have "length (rb_buf (srb_feed y b)) = length (rb_buf b)"
    "take (rb_DataEndPos b) (rb_buf (srb_feed y b)) = take (rb_DataEndPos b) (rb_buf b)"
    by (simp_all add: srb_feed_state [OF assms(1,4)] length_mem_write) (simp add: mem_write_def)
  moreover from this(2) have "take p (rb_buf (srb_feed y b)) = take p (rb_buf b)"
    using assms(3) by (metis min.absorb1 take_take)
  moreover have "seg buf q (p - q) = drop q (take p buf)" for buf :: string and q
    by (simp add: seg_def drop_take)
  ultimately show ?thesis
    using assms(2) by (simp add: scan_view_def)
qed

text \<open>The state at the top of the loop, with \<open>s\<close> the characters still to come.\<close>

definition loop_view :: "nat \<Rightarrow> nat \<Rightarrow> bool \<Rightarrow> string \<Rightarrow> char srb \<Rightarrow> string list \<Rightarrow> string \<Rightarrow> bool" where
  "loop_view base start found line b i s \<longleftrightarrow> srb_inv b \<and> base + rb_RelevantLength b = rb_ReadPos b
     \<and> scan_view 0 (rb_ReadPos b) base start b line [] \<and> (\<not> found \<longrightarrow> start = 0)
     \<and> [] \<notin> set i \<and> GetAvailableData b @ concat i = s"

lemma avail_nonempty: "srb_inv b \<Longrightarrow> (GetAvailableDataLength b = 0) = (GetAvailableData b = [])"
  by (metis length_0_conv length_GetAvailableData)

text \<open>What reading does to the storage: it asks for nothing, and no segment is added.\<close>

definition reads_on :: "char srb \<Rightarrow> string list \<Rightarrow> char srb \<Rightarrow> string list \<Rightarrow> bool" where
  "reads_on b i b' i' \<longleftrightarrow> length i' \<le> length i \<and> length (rb_buf b') = length (rb_buf b)
     \<and> rb_ReqDataEndPos b' \<le> max (rb_ReqDataEndPos b) (length (rb_buf b))"

lemma reads_on_trans: "reads_on b i b1 i1 \<Longrightarrow> reads_on b1 i1 b2 i2 \<Longrightarrow> reads_on b i b2 i2"
  by (auto simp: reads_on_def)

lemma reads_on_feed:
  assumes "srb_inv b" "length y \<le> srb_room b" "length i' \<le> length i"
  shows "reads_on b i (srb_feed y b) i'"
  using assms srb_feed_state [OF assms(1,2)] srb_room_eq [OF assms(1)] srb_invD(3) [OF assms(1)]
  by (simp add: reads_on_def length_mem_write)

text \<open>A block that does not end the headers, and the read behind it.\<close>

lemma loop_more:
  assumes V: "loop_view base start found line b i s" and a: "GetAvailableData b \<noteq> []"
    and r: "hdr_ref (GetAvailableData b) found line c = More found' line' c'" and i: "i \<noteq> []"
    and room: "rb_DataEndPos b < length (rb_buf b)"
  shows "\<exists>b' i' start'. header_loop found start (io b i t c) = header_loop found' start' (io b' i' 0 c')
    \<and> loop_view base start' found' line' b' i' (concat i) \<and> GetAvailableData b' \<noteq> []
    \<and> length (concat i') < length (concat i) \<and> length (rb_buf b') = length (rb_buf b) \<and> rb_static b' = rb_static b
    \<and> rb_ReadPos b' = rb_DataEndPos b \<and> reads_on b i b' i'"
proof -
  let ?n = "GetAvailableDataLength b"
  have inv: "srb_inv b" and base: "rb_ReadPos b - rb_RelevantLength b = base"
    using V by (auto simp: loop_view_def)
  have n: "?n = rb_DataEndPos b - rb_ReadPos b" "?n = length (GetAvailableData b)" "?n \<noteq> 0" "rb_ReadPos b + ?n = rb_DataEndPos b"
    using GetAvailableDataLength_eq [OF inv] length_GetAvailableData [OF inv] a srb_invD [OF inv] by auto
  have view: "scan_view ?n (rb_ReadPos b) base start b line (GetAvailableData b)"
    using V srb_invD [OF inv] n GetAvailableData_eq [OF inv] by (simp add: loop_view_def scan_view_def)
  have "scan_result ?n (rb_ReadPos b) base b i t (More found' line' c') (header_scan ?n (rb_ReadPos b) base found start (io b i t c))"
    using scan_ref [OF view, of found i t c] V r by (simp add: loop_view_def)
  then obtain b1 start' where b1: "header_scan ?n (rb_ReadPos b) base found start (io b i t c) = Ret (None, found', start') (io b1 i t c')"
      "same_shape b b1" "scan_view 0 (rb_DataEndPos b) base start' b1 line' []" "\<not> found' \<longrightarrow> start' = 0"
    using n(4) by (auto simp: scan_result_def)
  note F = same_shape_fields [OF b1(2)]
  have inv1: "srb_inv b1"
    using inv same_shape_inv [OF b1(2)] by simp
  let ?b2 = "snd (Consume ?n True b1)"
  have b2: "?b2 = b1\<lparr>rb_RelevantLength := rb_RelevantLength b + ?n, rb_ReadPos := rb_DataEndPos b\<rparr>"
    using Consume_state [OF inv1, of ?n True] F n by simp
  have inv2: "srb_inv ?b2" "GetAvailableData ?b2 = []"
    using Consume_inv [OF inv1] Consume_ready [OF inv1] n(2) length_GetAvailableData [OF inv1] F n(1) GetAvailableDataLength_eq [OF inv1]
    by auto
  have i2: "[] \<notin> set i"
    using V by (simp add: loop_view_def)
  have room2: "rb_DataEndPos ?b2 < length (rb_buf ?b2)"
    using b2 F room by simp
  obtain y i' where y: "ContinueRead (io ?b2 i t c') = Ret () (io (srb_feed y ?b2) i' 0 c')" "y \<noteq> []" "y @ concat i' = concat i"
      "[] \<notin> set i'" "length y \<le> srb_room ?b2" "length i' \<le> length i"
    using read_some [OF inv2(1) room2 i i2, of t c'] by (metis less_or_eq_imp_le)
  let ?b3 = "srb_feed y ?b2"
  have inv3: "srb_inv ?b3" "GetAvailableData ?b3 = y"
    using srb_feed_inv [OF inv2(1) y(5)] srb_feed_ready [OF inv2(1) y(5)] inv2(2) by auto
  have f3: "rb_ReadPos ?b3 = rb_DataEndPos b" "rb_RelevantLength ?b3 = rb_RelevantLength b + ?n"
      "length (rb_buf ?b3) = length (rb_buf b)" "rb_static ?b3 = rb_static b"
    using srb_feed_state [OF inv2(1) y(5)] b2 F y(5) srb_room_eq [OF inv2(1)] room by (simp_all add: length_mem_write)
  have "scan_view 0 (rb_DataEndPos b) base start' ?b2 line' []"
    using b1(3) b2 by (simp add: scan_view_def)
  then have "scan_view 0 (rb_DataEndPos b) base start' ?b3 line' []"
    using feed_view [OF inv2(1) _ _ y(5)] b2 F by simp
  then have "loop_view base start' found' line' ?b3 i' (concat i)"
    using inv3 f3 y b1(4) V n(4) by (simp add: loop_view_def)
  moreover have "header_loop found start (io b i t c) = header_loop found' start' (io ?b3 i' 0 c')"
    by (subst header_loop.simps) (simp add: n(3) base b1(1) y(1) Let_def)
  moreover have "length (concat i') < length (concat i)"
    using y(2) arg_cong [OF y(3), of length] by (cases y) simp_all
  moreover have "reads_on b i ?b3 i'"
    using reads_on_feed [OF inv2(1) y(5,6)] b2 F by (simp add: reads_on_def)
  ultimately show ?thesis
    using inv3 f3 y(2) by metis
qed

text \<open>The block that ends the headers.\<close>

lemma loop_stop:
  assumes V: "loop_view base start found line b i s" and a: "GetAvailableData b \<noteq> []"
    and r: "hdr_ref (GetAvailableData b) found line c = Stop True rest c'"
  shows "\<exists>b'. header_loop found start (io b i t c) = Ret True (io b' i t c') \<and> srb_inv b' \<and> GetAvailableData b' = rest
    \<and> rb_ReadPos b' - rb_RelevantLength b' = base \<and> length (rb_buf b') = length (rb_buf b) \<and> rb_static b' = rb_static b
    \<and> rb_RelevantLength b < rb_RelevantLength b' \<and> rb_ReadPos b' + length rest = rb_ReadPos b + length (GetAvailableData b)
    \<and> reads_on b i b' i"
proof -
  let ?n = "GetAvailableDataLength b"
  have inv: "srb_inv b" and base: "rb_ReadPos b - rb_RelevantLength b = base"
    using V by (auto simp: loop_view_def)
  have n: "?n = rb_DataEndPos b - rb_ReadPos b" "?n \<noteq> 0" "rb_ReadPos b + ?n = rb_DataEndPos b"
    using GetAvailableDataLength_eq [OF inv] length_GetAvailableData [OF inv] a srb_invD [OF inv] by auto
  have view: "scan_view ?n (rb_ReadPos b) base start b line (GetAvailableData b)"
    using V srb_invD [OF inv] n GetAvailableData_eq [OF inv] by (simp add: loop_view_def scan_view_def)
  have "scan_result ?n (rb_ReadPos b) base b i t (Stop True rest c') (header_scan ?n (rb_ReadPos b) base found start (io b i t c))"
    using scan_ref [OF view, of found i t c] V r by (simp add: loop_view_def)
  then obtain b1 k y where b1: "header_scan ?n (rb_ReadPos b) base found start (io b i t c)
        = Ret (Some True, y) (io (snd (Consume (k - rb_ReadPos b + 1) True b1)) i t c')"
      "same_shape b b1" "rb_ReadPos b \<le> k" "k < rb_DataEndPos b" "rest = seg (rb_buf b1) (Suc k) (rb_DataEndPos b - Suc k)"
    using n(3) by (auto simp: scan_result_def)
  note F = same_shape_fields [OF b1(2)]
  have inv1: "srb_inv b1"
    using inv same_shape_inv [OF b1(2)] by simp
  let ?b2 = "snd (Consume (k - rb_ReadPos b + 1) True b1)"
  have b2: "?b2 = b1\<lparr>rb_RelevantLength := rb_RelevantLength b + (k - rb_ReadPos b + 1), rb_ReadPos := Suc k\<rparr>"
    using Consume_state [OF inv1, of "k - rb_ReadPos b + 1" True] F b1(3,4) by (simp add: min_def)
  have inv2: "srb_inv ?b2"
    by (rule Consume_inv [OF inv1])
  have "GetAvailableData ?b2 = rest"
    using GetAvailableData_eq [OF inv2] b2 b1(5) F by simp
  moreover have "Suc k + length rest = rb_DataEndPos b"
    using b1(4,5) F srb_invD(3) [OF inv] by (simp add: length_seg)
  moreover have "header_loop found start (io b i t c) = Ret True (io ?b2 i t c')"
    by (subst header_loop.simps) (simp add: n(2) base b1(1) Let_def)
  moreover have "reads_on b i ?b2 i"
    using b2 F by (simp add: reads_on_def)
  ultimately show ?thesis
    using inv2 b2 F base b1(3) srb_invD(1) [OF inv] n(1,3) length_GetAvailableData [OF inv] by (intro exI [of _ ?b2]) simp
qed

lemma header_loop_ref:
  assumes "loop_view base start found line b i s" "GetAvailableData b \<noteq> []" "hdr_ref s found line c = Stop True rest c'"
    "rb_ReadPos b + (length s - length rest) \<le> length (rb_buf b)"
  shows "\<exists>b' i' t'. header_loop found start (io b i t c) = Ret True (io b' i' t' c') \<and> srb_inv b'
    \<and> GetAvailableData b' @ concat i' = rest \<and> [] \<notin> set i' \<and> rb_ReadPos b' - rb_RelevantLength b' = base
    \<and> length (rb_buf b') = length (rb_buf b) \<and> rb_static b' = rb_static b \<and> rb_RelevantLength b' > 0
    \<and> rb_ReadPos b' + length rest = rb_ReadPos b + length s \<and> reads_on b i b' i'"
  using assms
proof (induction "length (concat i)" arbitrary: b i s t c start found line rule: less_induct)
  case less
  note V = less.prems(1)
  have s: "s = GetAvailableData b @ concat i" and inv: "srb_inv b" and ne: "[] \<notin> set i"
    using V by (auto simp: loop_view_def)
  show ?case
  proof (cases "hdr_ref (GetAvailableData b) found line c")
    case (Stop ok r c1)
    then have "ok" "c1 = c'" "rest = r @ concat i"
      using less.prems(3) by (simp_all add: s hdr_ref_append)
    then show ?thesis
      using loop_stop [OF V less.prems(2), of c r c' t] Stop ne by (fastforce simp: s)
  next
    case (More f l c1)
    then have h: "hdr_ref (concat i) f l c1 = Stop True rest c'"
      using less.prems(3) by (simp add: s hdr_ref_append)
    then have i: "i \<noteq> []" "length rest < length (concat i)"
      using hdr_ref_shorter [OF h] by auto
    have e: "rb_ReadPos b + length (GetAvailableData b) = rb_DataEndPos b"
      using length_GetAvailableData [OF inv] GetAvailableDataLength_eq [OF inv] srb_invD [OF inv] by simp
    then have e2: "rb_ReadPos b + length s = rb_DataEndPos b + length (concat i)"
      by (simp add: s)
    have room: "rb_DataEndPos b + (length (concat i) - length rest) \<le> length (rb_buf b)"
      using less.prems(4) i(2) e by (simp add: s)
    then have "rb_DataEndPos b < length (rb_buf b)"
      using i(2) by linarith
    then obtain b1 i1 start1 where L: "header_loop found start (io b i t c) = header_loop f start1 (io b1 i1 0 c1)"
        "loop_view base start1 f l b1 i1 (concat i)" "GetAvailableData b1 \<noteq> []" "length (concat i1) < length (concat i)"
        "length (rb_buf b1) = length (rb_buf b)" "rb_static b1 = rb_static b" "rb_ReadPos b1 = rb_DataEndPos b"
        "reads_on b i b1 i1"
      using loop_more [OF V less.prems(2) More i(1), of t] by blast
    show ?thesis
      using less.hyps [OF L(4) L(2,3) h, of 0] L(1,5,6,7) reads_on_trans [OF L(8)] room e2 by (auto 0 3)
  qed (use less.prems(3) in \<open>simp add: s hdr_ref_append\<close>)
qed

lemma loop_first_read:
  assumes V: "loop_view base start found line b i s" and a: "GetAvailableData b = []" and i: "i \<noteq> []"
    and room: "rb_DataEndPos b < length (rb_buf b)"
  shows "\<exists>b' i'. header_loop found start (io b i t c) = header_loop found start (io b' i' 0 c)
    \<and> loop_view base start found line b' i' s \<and> GetAvailableData b' \<noteq> [] \<and> rb_ReadPos b' = rb_ReadPos b
    \<and> length (rb_buf b') = length (rb_buf b) \<and> rb_static b' = rb_static b \<and> reads_on b i b' i'"
proof -
  have inv: "srb_inv b" and ne: "[] \<notin> set i" and s: "concat i = s"
    using V a by (auto simp: loop_view_def)
  obtain y i' where y: "ContinueRead (io b i t c) = Ret () (io (srb_feed y b) i' 0 c)" "y \<noteq> []" "y @ concat i' = concat i"
      "[] \<notin> set i'" "length y \<le> srb_room b" "length i' \<le> length i"
    using read_some [OF inv room i ne, of t c] by (metis less_or_eq_imp_le)
  let ?b = "srb_feed y b"
  have b: "srb_inv ?b" "GetAvailableData ?b = y"
    using srb_feed_inv [OF inv y(5)] srb_feed_ready [OF inv y(5)] a by auto
  have f: "rb_ReadPos ?b = rb_ReadPos b" "rb_RelevantLength ?b = rb_RelevantLength b" "rb_static ?b = rb_static b"
      "length (rb_buf ?b) = length (rb_buf b)"
    using srb_feed_state [OF inv y(5)] y(5) srb_room_eq [OF inv] room by (simp_all add: length_mem_write)
  have "loop_view base start found line ?b i' s"
    using V b f y feed_view [OF inv _ _ y(5)] srb_invD(2) [OF inv] s by (simp add: loop_view_def)
  moreover have "header_loop found start (io b i t c) = header_loop found start (io ?b i' 0 c)"
    using a b y(1,2) avail_nonempty [OF inv] avail_nonempty [OF b(1)]
    by (simp add: header_loop.simps [of found start "io b i t c"] header_loop.simps [of found start "io ?b i' 0 c"])
  moreover have "reads_on b i ?b i'"
    by (rule reads_on_feed [OF inv y(5,6)])
  ultimately show ?thesis
    using b f y(2) by metis
qed

lemma io_self: "io (cn_ReadBuff c) (cn_In c) (cn_SilentTime c) c = c"
  by (simp add: io_def)

text \<open>\<open>HeaderHandler\<close> computes the reference on the stream, however the stream is cut into segments.\<close>

lemma HeaderHandler_stream:
  assumes "srb_inv (cn_ReadBuff c)" "rb_RelevantLength (cn_ReadBuff c) = 0" "[] \<notin> set (cn_In c)"
    "hdr_ref (GetAvailableData (cn_ReadBuff c) @ concat (cn_In c)) False [] c = Stop True rest c'"
    "rb_ReadPos (cn_ReadBuff c) + length (GetAvailableData (cn_ReadBuff c) @ concat (cn_In c)) - length rest
       \<le> length (rb_buf (cn_ReadBuff c))"
  shows "\<exists>b i t. HeaderHandler c = Ret True (io b i t c') \<and> srb_inv b \<and> GetAvailableData b @ concat i = rest
    \<and> [] \<notin> set i \<and> rb_ReadPos b - rb_RelevantLength b = rb_ReadPos (cn_ReadBuff c)
    \<and> length (rb_buf b) = length (rb_buf (cn_ReadBuff c)) \<and> rb_static b = rb_static (cn_ReadBuff c) \<and> rb_RelevantLength b > 0
    \<and> rb_ReadPos b + length rest = rb_ReadPos (cn_ReadBuff c) + length (GetAvailableData (cn_ReadBuff c) @ concat (cn_In c))
    \<and> reads_on (cn_ReadBuff c) (cn_In c) b i"
proof -
  let ?b = "cn_ReadBuff c" and ?s = "GetAvailableData (cn_ReadBuff c) @ concat (cn_In c)"
  have V: "loop_view (rb_ReadPos ?b) 0 False [] ?b (cn_In c) ?s"
    using assms(1-3) srb_invD [OF assms(1)] by (simp add: loop_view_def scan_view_def)
  have l: "length rest < length ?s"
    by (rule hdr_ref_shorter [OF assms(4)])
  then have cap: "rb_ReadPos ?b + (length ?s - length rest) \<le> length (rb_buf ?b)"
    using assms(5) by linarith
  have H: "HeaderHandler c = header_loop False 0 (io ?b (cn_In c) (cn_SilentTime c) c)"
    by (simp add: HeaderHandler_def io_self)
  show ?thesis
  proof (cases "GetAvailableData ?b = []")
    case False
    show ?thesis
      using header_loop_ref [OF V False assms(4) cap, of "cn_SilentTime c"] unfolding H by blast
  next
    case True
    then have i: "cn_In c \<noteq> []" using l by auto
    have "rb_DataEndPos ?b = rb_ReadPos ?b"
      using True length_GetAvailableData [OF assms(1)] GetAvailableDataLength_eq [OF assms(1)] srb_invD [OF assms(1)] by simp
    then have "rb_DataEndPos ?b < length (rb_buf ?b)"
      using cap l by linarith
    then obtain b' i' where L: "header_loop False 0 (io ?b (cn_In c) (cn_SilentTime c) c) = header_loop False 0 (io b' i' 0 c)"
        "loop_view (rb_ReadPos ?b) 0 False [] b' i' ?s" "GetAvailableData b' \<noteq> []" "rb_ReadPos b' = rb_ReadPos ?b"
        "length (rb_buf b') = length (rb_buf ?b)" "rb_static b' = rb_static ?b" "reads_on ?b (cn_In c) b' i'"
      using loop_first_read [OF V True i, of "cn_SilentTime c" c] by blast
    then show ?thesis
      using header_loop_ref [OF L(2,3) assms(4), of 0] cap reads_on_trans [OF L(7)] unfolding H L(1) by (auto 0 3)
  qed
qed

section \<open>Well-formed requests\<close>

record http_request =
  hr_Method :: string
  hr_Path :: string
  hr_Query :: "(string \<times> string) list option"
  hr_Version :: string
  hr_Headers :: "fm_line list"

definition request_line :: "(char \<Rightarrow> bool) \<Rightarrow> http_request \<Rightarrow> string" where
  "request_line safe r = hr_Method r @ '' '' @ hr_Path r
     @ (case hr_Query r of None \<Rightarrow> [] | Some kvs \<Rightarrow> ''?'' @ url_query safe kvs) @ '' HTTP/'' @ hr_Version r"

definition request_text :: "(char \<Rightarrow> bool) \<Rightarrow> http_request \<Rightarrow> string" where
  "request_text safe r = request_line safe r @ CRLF @ fm_text (hr_Headers r) @ CRLF"

definition request_ok :: "(char \<Rightarrow> bool) \<Rightarrow> http_request \<Rightarrow> bool" where
  "request_ok safe r \<longleftrightarrow> \<not> safe (CHR '' '') \<and> \<not> safe (CHR 0x0A) \<and> set (hr_Method r) \<inter> {CHR '' '', CHR 0x0A} = {}
     \<and> set (hr_Path r) \<inter> {CHR '' '', CHR ''?'', CHR 0x0A} = {} \<and> hr_Version r \<in> {''1.0'', ''1.1''}
     \<and> list_all fm_line_ok (hr_Headers r)"

definition request_params :: "http_request \<Rightarrow> string \<rightharpoonup> string" where
  "request_params r = (case hr_Query r of None \<Rightarrow> Map.empty | Some kvs \<Rightarrow> map_of (rev kvs))"

lemma hexdigit_plain:
  assumes "n < 16"
  shows "hexdigit n \<noteq> CHR '' ''" "hexdigit n \<noteq> CHR 0x0A"
proof -
  have "list_all (\<lambda>n. hexdigit n \<noteq> CHR '' '' \<and> hexdigit n \<noteq> CHR 0x0A) [0..<16]"
    by code_simp
  then show "hexdigit n \<noteq> CHR '' ''" "hexdigit n \<noteq> CHR 0x0A"
    using assms by (simp_all add: list_all_iff)
qed

lemma url_encode_plain:
  assumes "\<not> safe (CHR '' '')" "\<not> safe (CHR 0x0A)"
  shows "CHR '' '' \<notin> set (url_encode safe s)" "CHR 0x0A \<notin> set (url_encode safe s)"
proof -
  have "CHR '' '' \<notin> set (enc_char safe c) \<and> CHR 0x0A \<notin> set (enc_char safe c)" for c
  proof -
    have "of_char c < (256::nat)" by simp
    then have "of_char c div 16 < (16::nat)" "of_char c mod 16 < (16::nat)"
      by (simp_all add: less_mult_imp_div_less)
    then show ?thesis
      using assms hexdigit_plain [of "of_char c div 16"] hexdigit_plain [of "of_char c mod 16"]
      by (auto simp: enc_char_def)
  qed
  then show "CHR '' '' \<notin> set (url_encode safe s)" "CHR 0x0A \<notin> set (url_encode safe s)"
    by (auto simp: url_encode_def)
qed

lemma url_query_plain:
  assumes "\<not> safe (CHR '' '')" "\<not> safe (CHR 0x0A)"
  shows "CHR '' '' \<notin> set (url_query safe kvs) \<and> CHR 0x0A \<notin> set (url_query safe kvs)"
  using assms by (induction safe kvs rule: url_query.induct) (auto simp: url_pair_def url_encode_plain)

lemma takeWhile_stop: "c \<notin> set s \<Longrightarrow> takeWhile (\<lambda>x. x \<noteq> c) (s @ c # t) = s"
  by (rule takeWhile_run) (auto simp: list_all_iff)

lemma parse_version_text:
  assumes "v \<in> {''1.0'', ''1.1''}"
  shows "parse_version (''HTTP/'' @ v @ [CHR 0x0D]) c = Ret True (c\<lparr>cn_CurrVersion := (if v = ''1.0'' then VERSION_10 else VERSION_11)\<rparr>)"
  using assms by (auto simp: parse_version_def Let_def)

lemma AddURLEncoded_query: "\<exists>q'. AddURLEncoded (url_query safe kvs) q = Some q' \<and> qp_ParamMap q' = qp_ParamMap q ++ map_of (rev kvs)"
proof (cases "kvs = []")
  case False
  then show ?thesis
    using url_query_loop [OF False, of safe "qp_ParamMap q"] by (auto simp: AddURLEncoded_def)
qed (simp add: AddURLEncoded_def)

lemma request_line_parsed:
  assumes "request_ok safe r"
  shows "\<exists>c'. ParseRequestLine (request_line safe r @ [CHR 0x0D]) c = Ret True c'
    \<and> cn_CurrMethod c' = ParseMethod (hr_Method r) \<and> cn_CurrResource c' = hr_Path r
    \<and> cn_CurrVersion c' = (if hr_Version r = ''1.0'' then VERSION_10 else VERSION_11)
    \<and> qp_ParamMap (cn_CurrQuery c') = qp_ParamMap (cn_CurrQuery c) ++ request_params r \<and> cn_HeaderA c' = cn_HeaderA c
    \<and> (hr_Query r = None \<longrightarrow> cn_CurrQuery c' = cn_CurrQuery c)"
proof -
  let ?v = "''HTTP/'' @ hr_Version r @ [CHR 0x0D]"
  have m: "CHR '' '' \<notin> set (hr_Method r)" and p: "list_all (\<lambda>x. x \<noteq> CHR '' '' \<and> x \<noteq> CHR ''?'') (hr_Path r)"
    and v: "hr_Version r \<in> {''1.0'', ''1.1''}"
    using assms by (auto simp: request_ok_def list_all_iff)
  show ?thesis
  proof (cases "hr_Query r")
    case None
    have l: "request_line safe r @ [CHR 0x0D] = hr_Method r @ CHR '' '' # hr_Path r @ CHR '' '' # ?v"
      by (simp add: request_line_def None)
    have tp: "takeWhile (\<lambda>x. x \<noteq> CHR '' '' \<and> x \<noteq> CHR ''?'') (hr_Path r @ CHR '' '' # ?v) = hr_Path r"
      using p by (rule takeWhile_run) simp
    show ?thesis
      unfolding l ParseRequestLine_def Let_def takeWhile_stop [OF m]
      using tp parse_version_text [OF v] by (simp add: request_params_def None nth_append)
  next
    case (Some kvs)
    have q: "CHR '' '' \<notin> set (url_query safe kvs)"
      using assms url_query_plain by (simp add: request_ok_def)
    have l: "request_line safe r @ [CHR 0x0D] = hr_Method r @ CHR '' '' # hr_Path r @ CHR ''?'' # url_query safe kvs @ CHR '' '' # ?v"
      by (simp add: request_line_def Some)
    have tp: "takeWhile (\<lambda>x. x \<noteq> CHR '' '' \<and> x \<noteq> CHR ''?'') (hr_Path r @ CHR ''?'' # url_query safe kvs @ CHR '' '' # ?v) = hr_Path r"
      using p by (rule takeWhile_run) simp
    obtain q' where q': "AddURLEncoded (url_query safe kvs) (cn_CurrQuery c) = Some q'"
        "qp_ParamMap q' = qp_ParamMap (cn_CurrQuery c) ++ map_of (rev kvs)"
      using AddURLEncoded_query by blast
    show ?thesis
      unfolding l ParseRequestLine_def Let_def takeWhile_stop [OF m]
      using tp parse_version_text [OF v] takeWhile_stop [OF q, of ?v] q' by (simp add: request_params_def Some nth_append)
  qed
qed

lemma hdr_ref_line: "CHR 0x0A \<notin> set l \<Longrightarrow> hdr_ref (l @ w) found line c = hdr_ref w found (line @ l) c"
  by (induction l arbitrary: line) auto

lemma good_header_line:
  assumes "fm_line_ok l"
  shows "good_line (header_line (fst l) (fst (snd l)) (snd (snd l)))"
    "fst (Header (header_line (fst l) (fst (snd l)) (snd (snd l))) []) = line_header l"
proof -
  obtain n k v where l: "l = (n, k, v)" by (cases l) auto
  have h: "Header (header_line n k v) post = (line_header l, map tolower n @ NUL # replicate k (CHR '' '') @ v @ [NUL])" for post
    using assms by (subst Header_line) (auto simp: l fm_line_ok_def line_header_def line_name_def)
  show "good_line (header_line (fst l) (fst (snd l)) (snd (snd l)))"
    "fst (Header (header_line (fst l) (fst (snd l)) (snd (snd l))) []) = line_header l"
    by (simp_all add: good_line_def l h) (simp add: header_line_def)
qed

lemma hdr_ref_headers:
  assumes "list_all fm_line_ok ls"
  shows "hdr_ref (fm_text ls @ w) True [] c = hdr_ref w True [] (c\<lparr>cn_HeaderA := cn_HeaderA c @ map line_header ls\<rparr>)"
  using assms
proof (induction ls arbitrary: c)
  case (Cons l ls)
  obtain n k v where l: "l = (n, k, v)" by (cases l) auto
  let ?h = "header_line n k v"
  have "CHR 0x0A \<notin> set ?h" "length ?h > 1"
    using Cons.prems by (auto simp: l fm_line_ok_def header_line_def value_ok_def Suc_le_eq)
  moreover have "fm_text (l # ls) @ w = ?h @ CHR 0x0A # fm_text ls @ w"
    by (simp add: fm_text_def l)
  ultimately show ?case
    using good_header_line [of l] Cons by (simp add: hdr_ref_line l)
qed (simp add: fm_text_def)


lemma hdr_ref_request:
  assumes "request_ok safe r"
  shows "\<exists>c'. hdr_ref (request_text safe r @ rest) False [] c = Stop True rest c'
    \<and> cn_CurrMethod c' = ParseMethod (hr_Method r) \<and> cn_CurrResource c' = hr_Path r
    \<and> cn_CurrVersion c' = (if hr_Version r = ''1.0'' then VERSION_10 else VERSION_11)
    \<and> qp_ParamMap (cn_CurrQuery c') = qp_ParamMap (cn_CurrQuery c) ++ request_params r
    \<and> cn_HeaderA c' = cn_HeaderA c @ map line_header (hr_Headers r) \<and> (hr_Query r = None \<longrightarrow> cn_CurrQuery c' = cn_CurrQuery c)"
proof -
  let ?l = "request_line safe r @ [CHR 0x0D]" and ?w = "fm_text (hr_Headers r) @ CRLF @ rest"
  obtain c1 where c1: "ParseRequestLine ?l c = Ret True c1" "cn_CurrMethod c1 = ParseMethod (hr_Method r)"
      "cn_CurrResource c1 = hr_Path r" "cn_CurrVersion c1 = (if hr_Version r = ''1.0'' then VERSION_10 else VERSION_11)"
      "qp_ParamMap (cn_CurrQuery c1) = qp_ParamMap (cn_CurrQuery c) ++ request_params r" "cn_HeaderA c1 = cn_HeaderA c"
      "hr_Query r = None \<longrightarrow> cn_CurrQuery c1 = cn_CurrQuery c"
    using request_line_parsed [OF assms] by blast
  have lf: "CHR 0x0A \<notin> set ?l"
    using assms url_query_plain by (auto simp: request_line_def request_ok_def split: option.split)
  have len: "length ?l > 1"
    by (simp add: request_line_def)
  have "request_text safe r @ rest = ?l @ CHR 0x0A # ?w"
    by (simp add: request_text_def CRLF_def)
  then have "hdr_ref (request_text safe r @ rest) False [] c = hdr_ref (CHR 0x0A # ?w) False ?l c"
    using hdr_ref_line [OF lf, of "CHR 0x0A # ?w" False "[]" c] by simp
  also have "\<dots> = hdr_ref ?w True [] c1"
    using len c1(1) by simp
  also have "\<dots> = Stop True rest (c1\<lparr>cn_HeaderA := cn_HeaderA c1 @ map line_header (hr_Headers r)\<rparr>)"
    using assms by (simp add: hdr_ref_headers request_ok_def CRLF_def)
  finally show ?thesis
    using c1 by simp
qed

text \<open>What the parser does not touch.\<close>

definition others :: "conn \<Rightarrow> string list \<times> char wbq \<times> nat \<times> (nat \<times> nat) option" where
  "others c = (cn_Out c, cn_WriteBuff c, cn_ResponseCount c, cn_Content c)"

lemma parse_version_others: "parse_version s c = Ret b c' \<Longrightarrow> others c' = others c"
  unfolding parse_version_def Let_def by (auto simp: others_def split: if_split_asm)

lemma ParseRequestLine_others: "ParseRequestLine s c = Ret b c' \<Longrightarrow> others c' = others c"
  unfolding ParseRequestLine_def Let_def
  by (simp only: split: if_split_asm option.split_asm) (use parse_version_others in \<open>fastforce simp: others_def\<close>)+

lemma hdr_ref_others: "hdr_ref s found line c = Stop ok rest c' \<Longrightarrow> others c' = others c"
proof (induction s found line c rule: hdr_ref.induct)
  case (2 x w found line c)
  then show ?case
    using ParseRequestLine_others by (auto simp: others_def split: if_splits cres.splits bool.splits)
qed simp

lemma HeaderHandler_request:
  assumes "request_ok safe r" "srb_inv (cn_ReadBuff c)" "rb_RelevantLength (cn_ReadBuff c) = 0" "[] \<notin> set (cn_In c)"
    "GetAvailableData (cn_ReadBuff c) @ concat (cn_In c) = request_text safe r @ rest"
    "rb_ReadPos (cn_ReadBuff c) + length (request_text safe r) \<le> length (rb_buf (cn_ReadBuff c))"
  shows "\<exists>c'. HeaderHandler c = Ret True c' \<and> cn_CurrMethod c' = ParseMethod (hr_Method r) \<and> cn_CurrResource c' = hr_Path r
    \<and> cn_CurrVersion c' = (if hr_Version r = ''1.0'' then VERSION_10 else VERSION_11)
    \<and> qp_ParamMap (cn_CurrQuery c') = qp_ParamMap (cn_CurrQuery c) ++ request_params r
    \<and> cn_HeaderA c' = cn_HeaderA c @ map line_header (hr_Headers r)
    \<and> srb_inv (cn_ReadBuff c') \<and> GetAvailableData (cn_ReadBuff c') @ concat (cn_In c') = rest
    \<and> [] \<notin> set (cn_In c') \<and> length (rb_buf (cn_ReadBuff c')) = length (rb_buf (cn_ReadBuff c))
    \<and> rb_RelevantLength (cn_ReadBuff c') > 0 \<and> rb_ReadPos (cn_ReadBuff c') = rb_ReadPos (cn_ReadBuff c) + length (request_text safe r)
    \<and> cn_Out c' = cn_Out c \<and> cn_WriteBuff c' = cn_WriteBuff c \<and> cn_ResponseCount c' = cn_ResponseCount c \<and> cn_Content c' = cn_Content c
    \<and> (hr_Query r = None \<longrightarrow> cn_CurrQuery c' = cn_CurrQuery c) \<and> reads_on (cn_ReadBuff c) (cn_In c) (cn_ReadBuff c') (cn_In c')"
proof -
  obtain c1 where c1: "hdr_ref (request_text safe r @ rest) False [] c = Stop True rest c1"
      "cn_CurrMethod c1 = ParseMethod (hr_Method r)" "cn_CurrResource c1 = hr_Path r"
      "cn_CurrVersion c1 = (if hr_Version r = ''1.0'' then VERSION_10 else VERSION_11)"
      "qp_ParamMap (cn_CurrQuery c1) = qp_ParamMap (cn_CurrQuery c) ++ request_params r"
      "cn_HeaderA c1 = cn_HeaderA c @ map line_header (hr_Headers r)" "hr_Query r = None \<longrightarrow> cn_CurrQuery c1 = cn_CurrQuery c"
    using hdr_ref_request [OF assms(1)] by blast
  obtain b i t where "HeaderHandler c = Ret True (io b i t c1)" "srb_inv b" "GetAvailableData b @ concat i = rest"
      "[] \<notin> set i" "length (rb_buf b) = length (rb_buf (cn_ReadBuff c))" "rb_RelevantLength b > 0"
      "rb_ReadPos b + length rest = rb_ReadPos (cn_ReadBuff c) + length (request_text safe r @ rest)" "reads_on (cn_ReadBuff c) (cn_In c) b i"
    using HeaderHandler_stream [OF assms(2,3,4), of rest c1] c1(1) assms(5,6) by auto
  then show ?thesis
    using c1 hdr_ref_others [OF c1(1)] by (intro exI [of _ "io b i t c1"]) (simp add: io_def others_def)
qed


section \<open>Properties\<close>

text \<open>C2: every well-formed request is parsed, however the network cuts it: method, path, decoded query
  parameters, version and the headers in order are exactly those of the request, and what follows
  the request stays in the stream, as long as the request fits into what the buffer has left.\<close>

theorem request_parsed:
  assumes "request_ok safe r" "srb_inv (cn_ReadBuff c)" "rb_RelevantLength (cn_ReadBuff c) = 0" "[] \<notin> set (cn_In c)"
    "GetAvailableData (cn_ReadBuff c) @ concat (cn_In c) = request_text safe r @ rest"
    "rb_ReadPos (cn_ReadBuff c) + length (request_text safe r) \<le> length (rb_buf (cn_ReadBuff c))"
  shows "\<exists>c'. HeaderHandler c = Ret True c' \<and> cn_CurrMethod c' = ParseMethod (hr_Method r) \<and> cn_CurrResource c' = hr_Path r
    \<and> cn_CurrVersion c' = (if hr_Version r = ''1.0'' then VERSION_10 else VERSION_11)
    \<and> qp_ParamMap (cn_CurrQuery c') = qp_ParamMap (cn_CurrQuery c) ++ request_params r
    \<and> cn_HeaderA c' = cn_HeaderA c @ map line_header (hr_Headers r)
    \<and> srb_inv (cn_ReadBuff c') \<and> GetAvailableData (cn_ReadBuff c') @ concat (cn_In c') = rest"
  using HeaderHandler_request [OF assms] by blast

definition plain_char :: "char \<Rightarrow> bool" where
  "plain_char c \<longleftrightarrow> c \<in> set ''abcdefghijklmnopqrstuvwxyz0123456789''"

definition sample_request :: http_request where
  "sample_request = \<lparr>hr_Method = ''GET'', hr_Path = ''/a'', hr_Query = Some [(''k'', ''v w'')], hr_Version = ''1.1'',
     hr_Headers = [(''Host'', 1, ''h'')]\<rparr>"

definition sample_env :: conn_env where
  "sample_env = \<lparr>ce_Create = \<lambda>_ _. OtherException, ce_CORS = False, ce_ServerName = ''S'', ce_Date = \<lambda>_. None,
     ce_WriteOk = \<lambda>_. True, ce_Conf = default_config, ce_Upload = \<lparr>env_path = \<lambda>_. None, env_write = \<lambda>_. False\<rparr>,
     ce_Fuel = 10, ce_Junk = \<lambda>_. NUL, ce_Counter = 0\<rparr>"

lemma fresh_read_buffer: "srb_inv (srb_init junk HTTP_ReadBuffSize)" "GetAvailableData (srb_init junk HTTP_ReadBuffSize) = []"
  using srb_inv_init [of HTTP_ReadBuffSize junk] GetAvailableData_eq [of "srb_init junk HTTP_ReadBuffSize"]
  by (simp_all add: HTTP_ReadBuffSize_def srb_init_def)

theorem request_parsed_witness:
  "\<exists>c'. HeaderHandler (conn_init sample_env (upload_init 0 0) 0 [request_text plain_char sample_request, ''POST'']) = Ret True c'
    \<and> cn_CurrMethod c' = METHOD_GET \<and> cn_CurrResource c' = ''/a''"
proof -
  let ?c = "conn_init sample_env (upload_init 0 0) 0 [request_text plain_char sample_request, ''POST'']"
  have ok: "request_ok plain_char sample_request"
    by (simp add: request_ok_def sample_request_def plain_char_def fm_line_ok_def value_ok_def)
  have len: "length (request_text plain_char sample_request) \<le> HTTP_ReadBuffSize"
    by (simp add: request_text_def request_line_def sample_request_def url_pair_def url_encode_def enc_char_def plain_char_def
        CRLF_def fm_text_def header_line_def HTTP_ReadBuffSize_def)
  have "request_text plain_char sample_request \<noteq> []"
    by (simp add: request_text_def CRLF_def)
  then show ?thesis
    using request_parsed [OF ok, of ?c "''POST''"] len fresh_read_buffer
    by (auto simp: conn_init_def srb_init_def HTTP_ReadBuffSize_def sample_request_def ParseMethod_def)
qed

text \<open>Note: a request whose query ends in a percent sign and one more character makes the server read
  behind the query: the parser of the request line runs into undefined behaviour.\<close>

theorem percent_request_undefined:
  assumes "CHR '' '' \<notin> set meth" "set path \<inter> {CHR '' '', CHR ''?''} = {}" "set q \<inter> {CHR ''%'', CHR '' ''} = {}" "x \<noteq> CHR '' ''"
  shows "ParseRequestLine (meth @ CHR '' '' # path @ CHR ''?'' # q @ CHR ''%'' # x # CHR '' '' # version) c = Undef"
proof -
  let ?q = "q @ CHR ''%'' # [x]"
  have p: "takeWhile (\<lambda>x. x \<noteq> CHR '' '' \<and> x \<noteq> CHR ''?'') (path @ CHR ''?'' # ?q @ CHR '' '' # version) = path"
    using assms(2) by (intro takeWhile_run) (auto simp: list_all_iff)
  have q: "takeWhile (\<lambda>x. x \<noteq> CHR '' '') (?q @ CHR '' '' # version) = ?q"
    using assms(3,4) by (intro takeWhile_stop) auto
  have "url_loop (q @ [CHR ''%'', x]) st = None" for st
    using assms(3) by (induction q arbitrary: st) auto
  then have "AddURLEncoded ?q s = None" for s
    by (simp add: AddURLEncoded_def)
  then show ?thesis
    using p q takeWhile_stop [OF assms(1), of "path @ CHR ''?'' # ?q @ CHR '' '' # version"]
    by (simp add: ParseRequestLine_def Let_def nth_append)
qed

theorem percent_request_undefined_witness:
  "ParseRequestLine (''GET'' @ CHR '' '' # ''/'' @ CHR ''?'' # ''a='' @ CHR ''%'' # CHR ''1'' # CHR '' '' # ''HTTP/1.1'')
     (conn_init sample_env (upload_init 0 0) 0 []) = Undef"
  by (rule percent_request_undefined) simp_all

end
