(* ===== verification/HttpResponse.thy ===== *)
theory HttpResponse
  imports HttpRequest
begin

text \<open>
  The response writer: what reaches the socket is the header text, then the body exactly as the
  application's reader gave it, by length or in chunks that a chunk decoder reads back; and what
  happens at the limits of the header buffer, for an empty body and for a long error page.
\<close>

section \<open>The write queue between two responses\<close>

text \<open>No buffer is being written and none is pending.\<close>

definition idle :: "'b wbq \<Rightarrow> bool" where
  "idle q \<longleftrightarrow> wq_inv q \<and> wq_OutBuffA q = []"

lemma idle_init: "0 < cap \<Longrightarrow> cap < U32 \<Longrightarrow> idle (wq_init junk cap)"
  by (simp add: idle_def wq_base_init) (simp add: wq_init_def)

lemma idle_queues: "idle q \<Longrightarrow> wq_inflight q = [] \<and> wq_pending q = []"
  by (simp add: idle_def wq_inflight_def wq_pending_def)

lemma not_inflight: "wq_inv q \<Longrightarrow> (wq_inflight q = []) = (wq_FirstPendingI q = 0)"
  by (auto simp: wq_inflight_def wq_inv_def wq_states_def)

text \<open>Popping, writing and releasing the first pending buffer.\<close>

lemma pop_release:
  assumes "wq_inv q" "wq_inflight q = []" "wq_pending q \<noteq> []"
  shows "\<exists>p n k. Pop q = (Some (p, n), snd (Pop q)) \<and> wq_at p n (snd (Pop q)) = k \<and> wq_inv (Release (snd (Pop q)))
    \<and> wq_inflight (Release (snd (Pop q))) = [] \<and> wq_pending q = k @ wq_pending (Release (snd (Pop q)))
    \<and> length (wq_OutBuffA (Release (snd (Pop q)))) < length (wq_OutBuffA q)"
proof -
  let ?i = "wq_FirstPendingI q" and ?b = "wq_OutBuffA q ! wq_FirstPendingI q"
  have i: "?i = 0" "?i < length (wq_OutBuffA q)"
    using assms pending_Nil [OF assms(1)] not_inflight [OF assms(1)] by auto
  note P = Pop_some [OF assms(1) i(2)]
  note R = Release_sound [OF P(1)]
  have "wq_mem (snd (Pop q)) = wq_mem q" "wq_heap (snd (Pop q)) = wq_heap q"
    using i by (simp_all add: Pop_def Let_def)
  then have at: "wq_at (bf_Buff ?b) (bf_Length ?b) (snd (Pop q)) = bf_bytes q ?b"
    by (simp add: wq_at_def bf_bytes_def split: bptr.split)
  have len: "length (wq_OutBuffA (snd (Pop q))) = length (wq_OutBuffA q)"
    using i by (simp add: Pop_def Let_def)
  have "Release (snd (Pop q)) \<noteq> snd (Pop q)"
  proof
    assume "Release (snd (Pop q)) = snd (Pop q)"
    then have "wq_inflight (snd (Pop q)) = tl (wq_inflight (snd (Pop q)))"
      using R(2) by simp
    then show False
      using P(3) assms(2) by simp
  qed
  then have "length (wq_OutBuffA (Release (snd (Pop q)))) < length (wq_OutBuffA q)"
    using Release_length [of "snd (Pop q)"] len by simp
  then show ?thesis
    using P R at assms(2) by (intro exI [of _ "bf_Buff ?b"] exI [of _ "bf_Length ?b"] exI [of _ "bf_bytes q ?b"])
      (simp add: prod_eq_iff)
qed

abbreviation writes_ok :: "conn_env \<Rightarrow> bool" where
  "writes_ok env \<equiv> \<forall>n. ce_WriteOk env n"

text \<open>What the response code changes of a connection: the queue, the output and the timer.\<close>

definition wio :: "char wbq \<Rightarrow> string list \<Rightarrow> nat \<Rightarrow> conn \<Rightarrow> conn" where
  "wio q out t c = c\<lparr>cn_WriteBuff := q, cn_Out := out, cn_SilentTime := t\<rparr>"

lemma wio_simps [simp]: "cn_WriteBuff (wio q out t c) = q" "cn_Out (wio q out t c) = out" "wio q out t (wio q' out' t' c) = wio q out t c"
  "(wio q out t c)\<lparr>cn_WriteBuff := q'\<rparr> = wio q' out t c" "(wio q out t c)\<lparr>cn_SilentTime := t'\<rparr> = wio q out t' c"
  "(wio q out t c)\<lparr>cn_Out := out', cn_WriteBuff := q', cn_SilentTime := t'\<rparr> = wio q' out' t' c"
  by (simp_all add: wio_def)

lemma wio_self: "wio (cn_WriteBuff c) (cn_Out c) (cn_SilentTime c) c = c"
  by (simp add: wio_def)

lemma WriteAll_output:
  assumes "writes_ok env" "wq_inv q" "wq_inflight q = []"
  shows "\<exists>q' out' t'. WriteAll env (wio q out t c) = Ret () (wio q' out' t' c) \<and> idle q' \<and> concat out' = concat out @ wq_pending q"
  using assms(2,3)
proof (induction "length (wq_OutBuffA q)" arbitrary: q out t rule: less_induct)
  case less
  show ?case
  proof (cases "wq_pending q = []")
    case True
    then have "\<not> wq_FirstPendingI q < length (wq_OutBuffA q)" "wq_FirstPendingI q = 0"
      using pending_Nil [OF less.prems(1)] not_inflight [OF less.prems(1)] less.prems(2) by auto
    then have "Pop q = (None, q)" "idle q"
      using Pop_none [OF less.prems(1)] less.prems(1) by (auto simp: idle_def)
    then have "WriteAll env (wio q out t c) = Ret () (wio q out t c)"
      by (simp add: WriteAll.simps)
    then show ?thesis
      using \<open>idle q\<close> True by fastforce
  next
    case False
    let ?q = "Release (snd (Pop q))"
    obtain p n k where P: "Pop q = (Some (p, n), snd (Pop q))" "wq_at p n (snd (Pop q)) = k" "wq_inv ?q" "wq_inflight ?q = []"
        "wq_pending q = k @ wq_pending ?q" "length (wq_OutBuffA ?q) < length (wq_OutBuffA q)"
      using pop_release [OF less.prems False] by blast
    have "WriteAll env (wio q out t c) = WriteAll env (wio ?q (out @ [k]) 0 c)"
      using assms(1) P(1,2) by (subst WriteAll.simps) (auto split: prod.splits)
    then show ?thesis
      using less.hyps [OF P(6,3,4), of "out @ [k]" 0] P(5) by auto
  qed
qed

text \<open>One buffer put into an idle queue and written.\<close>

lemma put_idle:
  assumes "idle q" "n + 255 < U32" "length s \<le> n"
  shows "wq_inv (wq_put junk n s q)" "wq_inflight (wq_put junk n s q) = []" "wq_pending (wq_put junk n s q) = s"
    "length (wq_OutBuffA (wq_put junk n s q)) \<le> 1"
  using wq_put_sound [of q n s junk] assms idle_queues [OF assms(1)] by (simp_all add: idle_def)

lemma WriteNext_put:
  assumes "writes_ok env" "idle q" "n + 255 < U32" "length s \<le> n"
  shows "\<exists>q' out' t'. WriteNext env (put env n s (wio q out t c)) = Ret () (wio q' out' t' c) \<and> idle q' \<and> concat out' = concat out @ s"
proof -
  let ?q = "wq_put (ce_Junk env) n s q"
  note Q = put_idle [OF assms(2-4), of "ce_Junk env"]
  have c: "put env n s (wio q out t c) = wio ?q out t c"
    by (simp add: put_def)
  show ?thesis
  proof (cases "s = []")
    case True
    then have "\<not> wq_FirstPendingI ?q < length (wq_OutBuffA ?q)" "wq_FirstPendingI ?q = 0"
      using pending_Nil [OF Q(1)] not_inflight [OF Q(1)] Q by auto
    then have "Pop ?q = (None, ?q)" "idle ?q"
      using Pop_none [OF Q(1)] Q(1) by (auto simp: idle_def)
    then show ?thesis
      using True unfolding c by (auto simp: WriteNext_def)
  next
    case False
    let ?r = "Release (snd (Pop ?q))"
    obtain p m k where P: "Pop ?q = (Some (p, m), snd (Pop ?q))" "wq_at p m (snd (Pop ?q)) = k" "wq_inv ?r" "wq_inflight ?r = []"
        "wq_pending ?q = k @ wq_pending ?r" "length (wq_OutBuffA ?r) < length (wq_OutBuffA ?q)"
      using pop_release [of ?q] Q False by auto
    have "length (wq_OutBuffA ?r) = 0"
      using P(6) Q(4) by linarith
    then have "idle ?r"
      using P(3) by (simp add: idle_def)
    then have r: "idle ?r" "wq_pending ?r = []"
      using idle_queues [of ?r] by auto
    have "WriteNext env (wio ?q out t c) = Ret () (wio ?r (out @ [k]) 0 c)"
      using assms(1) P(1,2) unfolding WriteNext_def by (auto simp: write_popped_def split: prod.splits)
    then show ?thesis
      using r P(5) Q(3) unfolding c by (intro exI [of _ ?r] exI [of _ "out @ [k]"] exI [of _ 0]) simp
  qed
qed


section \<open>Bodies\<close>

text \<open>The parts a reader gives for a buffer of size \<open>m\<close>, up to the one it calls the last.\<close>

fun body_parts :: "nat \<Rightarrow> nat \<Rightarrow> reader \<Rightarrow> string list option" where
  "body_parts 0 m rd = None"
| "body_parts (Suc fuel) m rd =
     (case read_step rd m of
        None \<Rightarrow> None
      | Some (p, fin, rd') \<Rightarrow>
          if length p > m then None else if fin then Some [p] else map_option ((#) p) (body_parts fuel m rd'))"

lemma length_body_sent:
  assumes "writes_ok env" "idle q" "body_parts fuel HTTP_WriteBuffSize rd = Some ps" "left = length (concat ps)" "left \<noteq> 0"
    "last ps \<noteq> []"
  shows "\<exists>q' out' t'. length_body env fuel rd left sent (wio q out t c) = Ret (True, sent + left) (wio q' out' t' c) \<and> idle q'
    \<and> concat out' = concat out @ concat ps"
  using assms(2-)
proof (induction fuel arbitrary: rd left sent ps q out t)
  case (Suc fuel)
  obtain p fin rd' where st: "read_step rd HTTP_WriteBuffSize = Some (p, fin, rd')" "length p \<le> HTTP_WriteBuffSize"
    using Suc.prems(2) by (auto split: option.splits prod.splits if_splits)
  have n: "HTTP_WriteBuffSize + 255 < U32"
    by (simp add: HTTP_WriteBuffSize_def)
  obtain q1 out1 t1 where w: "WriteNext env (put env HTTP_WriteBuffSize p (wio q out 0 c)) = Ret () (wio q1 out1 t1 c)" "idle q1"
      "concat out1 = concat out @ p"
    using WriteNext_put [OF assms(1) Suc.prems(1) n st(2), of out 0 c] by blast
  show ?case
  proof (cases fin)
    case True
    then have "ps = [p]"
      using Suc.prems(2) st by auto
    then show ?thesis
      using st w True Suc.prems(3,4) by (auto simp: not_less)
  next
    case False
    then obtain ps' where ps: "ps = p # ps'" "body_parts fuel HTTP_WriteBuffSize rd' = Some ps'"
      using Suc.prems(2) st by auto
    then have "ps' \<noteq> []"
      by (cases fuel) (auto split: option.splits prod.splits if_splits)
    then have l: "last ps' \<noteq> []" "concat ps' \<noteq> []"
      using Suc.prems(5) ps(1) by (auto dest: last_in_set)
    have left: "length p \<le> left" "left - length p = length (concat ps')" "left - length p \<noteq> 0"
      using Suc.prems(3) ps(1) l(2) by auto
    obtain q' out' t' where r: "length_body env fuel rd' (left - length p) (sent + length p) (wio q1 out1 t1 c)
        = Ret (True, sent + length p + (left - length p)) (wio q' out' t' c)" "idle q'" "concat out' = concat out1 @ concat ps'"
      using Suc.IH [OF w(2) ps(2) left(2,3) l(1)] by blast
    have "length_body env (Suc fuel) rd left sent (wio q out t c) =
        length_body env fuel rd' (left - length p) (sent + length p) (wio q1 out1 t1 c)"
      using st w(1) False left Suc.prems(4) by (auto simp: not_less)
    also have "\<dots> = Ret (True, sent + left) (wio q' out' t' c)"
      using r(1) left(1) by simp
    finally show ?thesis
      using r(2,3) w(3) ps(1) by (intro exI [of _ q'] exI [of _ out'] exI [of _ t']) simp
  qed
qed simp

text \<open>Chunks.\<close>

definition chunk :: "string \<Rightarrow> string" where
  "chunk p = hex8 (length p) @ CRLF @ p @ CRLF"

abbreviation chunk_room :: nat where
  "chunk_room \<equiv> HTTP_WriteBuffSize - ChunkHeaderLen - ChunkFooterLength"

text \<open>The parts of a chunked body: an empty part is the end as well.\<close>

fun chunk_parts :: "nat \<Rightarrow> reader \<Rightarrow> string list option" where
  "chunk_parts 0 rd = None"
| "chunk_parts (Suc fuel) rd =
     (case read_step rd chunk_room of
        None \<Rightarrow> None
      | Some (p, fin, rd') \<Rightarrow>
          if length p > chunk_room then None else if p = [] then Some []
          else if fin then Some [p] else map_option ((#) p) (chunk_parts fuel rd'))"

lemma length_hex8: "length (hex8 n) = 8"
  by (simp add: hex8_def)

text \<open>At the end of the loop the last chunk may still be in the queue.\<close>

lemma chunked_body_sent:
  assumes "writes_ok env" "idle q" "chunk_parts fuel rd = Some ps"
  shows "\<exists>q' out' t'. chunked_body env fuel rd sent (wio q out t c) = Ret (sent + length (concat ps)) (wio q' out' t' c)
    \<and> wq_inv q' \<and> wq_inflight q' = [] \<and> length (wq_OutBuffA q') \<le> 1 \<and> concat out' @ wq_pending q' = concat out @ concat (map chunk ps)"
  using assms(2,3)
proof (induction fuel arbitrary: rd sent ps q out t)
  case (Suc fuel)
  obtain p fin rd' where st: "read_step rd chunk_room = Some (p, fin, rd')" "length p \<le> chunk_room"
    using Suc.prems(2) by (auto split: option.splits prod.splits if_splits)
  have n: "HTTP_WriteBuffSize + 255 < U32" "length (chunk p) \<le> HTTP_WriteBuffSize"
    using st(2) by (simp_all add: HTTP_WriteBuffSize_def chunk_def length_hex8 CRLF_def ChunkHeaderLen_def ChunkFooterLength_def)
  have put: "put env HTTP_WriteBuffSize s (wio q out 0 c) = wio (wq_put (ce_Junk env) HTTP_WriteBuffSize s q) out 0 c" for s
    by (simp add: put_def)
  consider "p = []" | "p \<noteq> []" "fin" | "p \<noteq> []" "\<not> fin" by blast
  then show ?case
  proof cases
    case 1
    then have "ps = []"
      using Suc.prems(2) st by auto
    then show ?thesis
      using 1 st put_idle [OF Suc.prems(1) n(1), of "[]" "ce_Junk env"] by (auto simp: put)
  next
    case 2
    then have "ps = [p]"
      using Suc.prems(2) st by auto
    then show ?thesis
      using 2 st put_idle [OF Suc.prems(1) n(1), of "chunk p" "ce_Junk env"] n(2) by (auto simp: put chunk_def not_less)
  next
    case 3
    then obtain ps' where ps: "ps = p # ps'" "chunk_parts fuel rd' = Some ps'"
      using Suc.prems(2) st by auto
    obtain q1 out1 t1 where w: "WriteNext env (put env HTTP_WriteBuffSize (chunk p) (wio q out 0 c)) = Ret () (wio q1 out1 t1 c)"
        "idle q1" "concat out1 = concat out @ chunk p"
      using WriteNext_put [OF assms(1) Suc.prems(1) n, of out 0 c] by blast
    have "chunked_body env (Suc fuel) rd sent (wio q out t c) = chunked_body env fuel rd' (sent + length p) (wio q1 out1 t1 c)"
      using 3 st w(1) by (auto simp: chunk_def not_less)
    then show ?thesis
      using Suc.IH [OF w(2) ps(2), of "sent + length p" out1 t1] w(3) ps(1) by (simp add: add.assoc)
  qed
qed simp

section \<open>Header text\<close>

definition extra_text :: "(string \<times> string) option \<Rightarrow> string" where
  "extra_text h = (case h of None \<Rightarrow> [] | Some (name, val) \<Rightarrow> name @ '': '' @ val @ CRLF)"

definition date_line :: "conn_env \<Rightarrow> nat \<Rightarrow> string" where
  "date_line env count = (case ce_Date env count of None \<Rightarrow> [] | Some d \<Rightarrow> ''Date: '' @ d @ CRLF)"

text \<open>All header lines, without the empty line behind them.\<close>

definition head_lines :: "conn_env \<Rightarrow> nat \<Rightarrow> bool \<Rightarrow> response \<Rightarrow> string" where
  "head_lines env count cors r = status_line env r @ content_type_line r @ (if ce_CORS env \<and> cors then cors_line else [])
     @ date_line env count @ length_line r @ concat (map extra_text (rp_ExtraHeaders r))"

definition head_limit :: "conn_env \<Rightarrow> nat" where
  "head_limit env = cc_MaxHeadersLength (ce_Conf env) - 2"

definition head_fits :: "conn_env \<Rightarrow> nat \<Rightarrow> bool \<Rightarrow> response \<Rightarrow> bool" where
  "head_fits env count cors r \<longleftrightarrow> length (head_lines env count cors r) < head_limit env
     \<and> cc_MaxHeadersLength (ce_Conf env) + 255 < U32 \<and> (\<forall>d. ce_Date env count = Some d \<longrightarrow> length d \<le> 31)"

lemma hdr_print_fits: "length (t @ s) < limit \<Longrightarrow> hdr_print junk limit s t = Some (t @ s)"
  by (simp add: hdr_print_def Let_def)

lemma hdr_extra_fits:
  assumes "length (t @ concat (map extra_text hs)) < limit" "limit < U32"
  shows "fold (hdr_extra limit) hs t = t @ concat (map extra_text hs)"
  using assms
proof (induction hs arbitrary: t)
  case (Cons h hs)
  have "hdr_extra limit h t = t @ extra_text h"
  proof (cases h)
    case (Some nv)
    then obtain n v where h: "h = Some (n, v)" by (cases nv) auto
    then have l: "length t + (length n + length v + 4) < limit"
      using Cons.prems(1) by (simp add: extra_text_def CRLF_def)
    then have "u32_of (length n) = length n" "u32_of (length v) = length v" "u32_add (length n) (length v) = length n + length v"
        "u32_add (length n + length v) 4 = length n + length v + 4" "u32_of (limit - length t) = limit - length t"
      using Cons.prems(2) by (simp_all add: u32_of_def u32_add_def)
    then show ?thesis
      using l by (simp add: hdr_extra_def h extra_text_def CRLF_def)
  qed (simp add: hdr_extra_def extra_text_def)
  then show ?case
    using Cons by simp
qed simp

lemma response_head_lines:
  assumes "head_fits env count cors r"
  shows "response_head env count cors r = hdr_print (ce_Junk env) (head_limit env) CRLF (head_lines env count cors r)"
proof -
  let ?p = "\<lambda>s t. hdr_print (ce_Junk env) (cc_MaxHeadersLength (ce_Conf env) - 2) s t"
  have len: "length (head_lines env count cors r) < cc_MaxHeadersLength (ce_Conf env) - 2"
      "cc_MaxHeadersLength (ce_Conf env) - 2 < U32"
    using assms by (auto simp: head_fits_def head_limit_def)
  let ?t2 = "status_line env r @ content_type_line r"
  let ?t3 = "?t2 @ (if ce_CORS env \<and> cors then cors_line else [])"
  let ?t4 = "?t3 @ date_line env count"
  have 1: "?p (status_line env r) [] = Some (status_line env r)" "?p (content_type_line r) (status_line env r) = Some ?t2"
    using len by (simp_all add: hdr_print_fits head_lines_def)
  have 3: "(if ce_CORS env \<and> cors then ?p cors_line ?t2 else Some ?t2) = Some ?t3"
    using len by (auto simp: hdr_print_fits head_lines_def)
  have 4: "(case ce_Date env count of None \<Rightarrow> Some ?t3
      | Some d \<Rightarrow> hdr_date (cc_MaxHeadersLength (ce_Conf env)) (''Date: '' @ d @ CRLF) ?t3) = Some ?t4"
  proof (cases "ce_Date env count")
    case (Some d)
    then have "length d \<le> 31"
      using assms by (simp add: head_fits_def)
    then show ?thesis
      using len Some by (simp add: hdr_date_def date_line_def head_lines_def CRLF_def)
  qed (simp add: date_line_def)
  have 5: "?p (length_line r) ?t4 = Some (?t4 @ length_line r)"
    using len by (intro hdr_print_fits) (simp add: head_lines_def)
  have 6: "fold (hdr_extra (cc_MaxHeadersLength (ce_Conf env) - 2)) (rp_ExtraHeaders r) (?t4 @ length_line r) = head_lines env count cors r"
    using hdr_extra_fits [of "?t4 @ length_line r" "rp_ExtraHeaders r"] len by (simp add: head_lines_def)
  have "length (?t4 @ length_line r) \<le> cc_MaxHeadersLength (ce_Conf env) - 2"
    using len by (simp add: head_lines_def)
  then show ?thesis
    unfolding response_head_def Let_def 1 3 bind.bind_lunit 4 5 6 head_limit_def by simp
qed

text \<open>With two more characters to spare the empty line is there.\<close>

definition head_text :: "conn_env \<Rightarrow> nat \<Rightarrow> bool \<Rightarrow> response \<Rightarrow> string" where
  "head_text env count cors r = head_lines env count cors r @ CRLF"

lemma response_head_text:
  assumes "head_fits env count cors r" "length (head_text env count cors r) < head_limit env"
  shows "response_head env count cors r = Some (head_text env count cors r)"
  using response_head_lines [OF assms(1)] assms(2) by (simp add: hdr_print_fits head_text_def)

section \<open>The whole response\<close>

definition counted :: "conn \<Rightarrow> conn" where
  "counted c = c\<lparr>cn_ResponseCount := u32_add (cn_ResponseCount c) 1\<rparr>"

definition logged :: "response \<Rightarrow> nat \<Rightarrow> conn \<Rightarrow> conn" where
  "logged r sent c = c\<lparr>cn_NextConn := rp_Upgrade r,
     cn_Log := cn_Log c @ [\<lparr>lg_Method = cn_CurrMethod c, lg_Resource = cn_CurrResource c,
       lg_ContentLength = cn_ContentLength c, lg_RespCode = rp_ResponseCode r, lg_WriteLength = sent,
       lg_NextConn = rp_Upgrade r\<rparr>]\<rparr>"

lemma wio_logged: "wio q out t (logged r sent c) = logged r sent (wio q out t c)"
  by (simp add: wio_def logged_def)

lemma finish_response_sent:
  assumes "writes_ok env" "wq_inv q" "wq_inflight q = []"
  shows "\<exists>q' out' t'. finish_response env r keep sent (wio q out t c) = Ret (keep \<and> rp_Upgrade r = None) (logged r sent (wio q' out' t' c))
    \<and> idle q' \<and> concat out' = concat out @ wq_pending q"
proof -
  obtain q' out' t' where "WriteAll env (wio q out t c) = Ret () (wio q' out' t' c)" "idle q'" "concat out' = concat out @ wq_pending q"
    using WriteAll_output [OF assms, of out t c] by blast
  then show ?thesis
    by (intro exI [of _ q'] exI [of _ out'] exI [of _ t']) (simp add: finish_response_def logged_def)
qed

text \<open>What a response puts on the wire.\<close>

definition response_wire :: "conn_env \<Rightarrow> nat \<Rightarrow> bool \<Rightarrow> response \<Rightarrow> string option" where
  "response_wire env count cors r =
     (if rp_Length r = 0 then Some (head_text env count cors r)
      else if rp_Length r \<noteq> NO_LENGTH
      then (case body_parts (ce_Fuel env) HTTP_WriteBuffSize (rp_Read r) of
              None \<Rightarrow> None
            | Some ps \<Rightarrow> if length (concat ps) = rp_Length r \<and> last ps \<noteq> [] then Some (head_text env count cors r @ concat ps) else None)
      else (case chunk_parts (ce_Fuel env) (rp_Read r) of
              None \<Rightarrow> None
            | Some ps \<Rightarrow> Some (head_text env count cors r @ concat (map chunk ps) @ final_chunk)))"

text \<open>The header part of the handler.\<close>

lemma ResponseHandler_head:
  assumes "writes_ok env" "idle (cn_WriteBuff c)"
    "choose_response env (cn_ResponseCount (counted c)) (conn_request (counted c)) = Some (Responder r cors)"
    "head_fits env (cn_ResponseCount (counted c)) cors r"
    "length (head_text env (cn_ResponseCount (counted c)) cors r) < head_limit env"
  shows "\<exists>q1 out1 t1. idle q1 \<and> concat out1 = concat (cn_Out c) @ head_text env (cn_ResponseCount (counted c)) cors r
    \<and> ResponseHandler env c =
      (if rp_Length r \<noteq> NO_LENGTH
       then seq (length_body env (ce_Fuel env) (rp_Read r) (rp_Length r) 0 (wio q1 out1 t1 (counted c)))
              (\<lambda>y c2. case y of (keep, sent) \<Rightarrow> finish_response env r keep sent c2)
       else seq (chunked_body env (ce_Fuel env) (rp_Read r) 0 (wio q1 out1 t1 (counted c)))
              (\<lambda>sent c2. finish_response env r True sent (put env FinalChunkLength final_chunk c2)))"
proof -
  let ?c = "counted c" and ?h = "head_text env (cn_ResponseCount (counted c)) cors r"
  have n: "cc_MaxHeadersLength (ce_Conf env) + 255 < U32" "length ?h \<le> cc_MaxHeadersLength (ce_Conf env)"
    using assms(4,5) by (auto simp: head_fits_def head_limit_def)
  have c: "?c = wio (cn_WriteBuff c) (cn_Out c) (cn_SilentTime c) ?c"
    by (simp add: counted_def wio_def)
  obtain q1 out1 t1 where w1: "WriteNext env (put env (cc_MaxHeadersLength (ce_Conf env)) ?h ?c) = Ret () (wio q1 out1 t1 ?c)"
      "idle q1" "concat out1 = concat (cn_Out c) @ ?h"
    using WriteNext_put [OF assms(1,2) n, of "cn_Out c" "cn_SilentTime c" ?c] unfolding c [symmetric] by blast
  have "ResponseHandler env c =
      (if rp_Length r \<noteq> NO_LENGTH
       then seq (length_body env (ce_Fuel env) (rp_Read r) (rp_Length r) 0 (wio q1 out1 t1 ?c))
              (\<lambda>y c2. case y of (keep, sent) \<Rightarrow> finish_response env r keep sent c2)
       else seq (chunked_body env (ce_Fuel env) (rp_Read r) 0 (wio q1 out1 t1 ?c))
              (\<lambda>sent c2. finish_response env r True sent (put env FinalChunkLength final_chunk c2)))"
    using assms(3) response_head_text [OF assms(4,5)] w1(1) unfolding ResponseHandler_def counted_def [symmetric] Let_def
    by simp
  then show ?thesis
    using w1(2,3) by blast
qed

lemma ResponseHandler_sent:
  assumes "writes_ok env" "idle (cn_WriteBuff c)" "ce_Fuel env \<noteq> 0"
    "choose_response env (cn_ResponseCount (counted c)) (conn_request (counted c)) = Some (Responder r cors)"
    "head_fits env (cn_ResponseCount (counted c)) cors r"
    "length (head_text env (cn_ResponseCount (counted c)) cors r) < head_limit env"
    "response_wire env (cn_ResponseCount (counted c)) cors r = Some w"
  shows "\<exists>q out t sent. ResponseHandler env c = Ret (rp_Length r \<noteq> 0 \<and> rp_Upgrade r = None) (logged r sent (wio q out t (counted c)))
    \<and> idle q \<and> concat out = concat (cn_Out c) @ w"
proof -
  let ?c = "counted c" and ?h = "head_text env (cn_ResponseCount (counted c)) cors r"
  obtain q1 out1 t1 where w1: "idle q1" "concat out1 = concat (cn_Out c) @ ?h" and R: "ResponseHandler env c =
      (if rp_Length r \<noteq> NO_LENGTH
       then seq (length_body env (ce_Fuel env) (rp_Read r) (rp_Length r) 0 (wio q1 out1 t1 ?c))
              (\<lambda>y c2. case y of (keep, sent) \<Rightarrow> finish_response env r keep sent c2)
       else seq (chunked_body env (ce_Fuel env) (rp_Read r) 0 (wio q1 out1 t1 ?c))
              (\<lambda>sent c2. finish_response env r True sent (put env FinalChunkLength final_chunk c2)))"
    using ResponseHandler_head [OF assms(1,2,4,5,6)] by blast
  have q1: "wq_inv q1" "wq_inflight q1 = []" "wq_pending q1 = []"
    using w1(1) idle_queues by (auto simp: idle_def)
  consider "rp_Length r = 0" | "rp_Length r \<noteq> 0" "rp_Length r \<noteq> NO_LENGTH" | "rp_Length r = NO_LENGTH" by blast
  then show ?thesis
  proof cases
    case 1
    obtain f where f: "ce_Fuel env = Suc f"
      using assms(3) by (cases "ce_Fuel env") auto
    obtain q out t where F: "finish_response env r False 0 (wio q1 out1 t1 ?c) = Ret (False \<and> rp_Upgrade r = None) (logged r 0 (wio q out t ?c))"
        "idle q" "concat out = concat out1 @ wq_pending q1"
      using finish_response_sent [OF assms(1) q1(1,2), of r False 0 out1 t1 ?c] by blast
    have "ResponseHandler env c = Ret False (logged r 0 (wio q out t ?c))"
      using R F(1) 1 f by (simp add: NO_LENGTH_def)
    then show ?thesis
      using F(2,3) q1(3) w1(2) 1 assms(7) by (auto simp: response_wire_def)
  next
    case 2
    then obtain ps where ps: "body_parts (ce_Fuel env) HTTP_WriteBuffSize (rp_Read r) = Some ps" "rp_Length r = length (concat ps)"
        "last ps \<noteq> []" "w = ?h @ concat ps"
      using assms(7) by (auto simp: response_wire_def split: option.splits if_splits)
    obtain q2 out2 t2 where b: "length_body env (ce_Fuel env) (rp_Read r) (rp_Length r) 0 (wio q1 out1 t1 ?c)
        = Ret (True, 0 + rp_Length r) (wio q2 out2 t2 ?c)" "idle q2" "concat out2 = concat out1 @ concat ps"
      using length_body_sent [OF assms(1) w1(1) ps(1,2) 2(1) ps(3), of 0 out1 t1 ?c] by blast
    have q2: "wq_inv q2" "wq_inflight q2 = []" "wq_pending q2 = []"
      using b(2) idle_queues by (auto simp: idle_def)
    obtain q out t where F: "finish_response env r True (rp_Length r) (wio q2 out2 t2 ?c)
        = Ret (True \<and> rp_Upgrade r = None) (logged r (rp_Length r) (wio q out t ?c))" "idle q" "concat out = concat out2 @ wq_pending q2"
      using finish_response_sent [OF assms(1) q2(1,2), of r True "rp_Length r" out2 t2 ?c] by blast
    have "ResponseHandler env c = Ret (rp_Upgrade r = None) (logged r (rp_Length r) (wio q out t ?c))"
      using R F(1) 2 b(1) by simp
    then show ?thesis
      using F(2,3) q2(3) b(3) w1(2) 2 ps(4) by auto
  next
    case 3
    then obtain ps where ps: "chunk_parts (ce_Fuel env) (rp_Read r) = Some ps" "w = ?h @ concat (map chunk ps) @ final_chunk"
      using assms(7) by (auto simp: response_wire_def NO_LENGTH_def split: option.splits if_splits)
    obtain q2 out2 t2 where b: "chunked_body env (ce_Fuel env) (rp_Read r) 0 (wio q1 out1 t1 ?c)
        = Ret (0 + length (concat ps)) (wio q2 out2 t2 ?c)" "wq_inv q2" "wq_inflight q2 = []" "length (wq_OutBuffA q2) \<le> 1"
        "concat out2 @ wq_pending q2 = concat out1 @ concat (map chunk ps)"
      using chunked_body_sent [OF assms(1) w1(1) ps(1), of 0 out1 t1 ?c] by blast
    let ?q3 = "wq_put (ce_Junk env) FinalChunkLength final_chunk q2"
    have q3: "wq_inv ?q3" "wq_inflight ?q3 = []" "wq_pending ?q3 = wq_pending q2 @ final_chunk"
      using wq_put_sound [OF b(2), of FinalChunkLength final_chunk "ce_Junk env"] b(3,4)
      by (simp_all add: FinalChunkLength_def final_chunk_def CRLF_def)
    let ?n = "length (concat ps)"
    obtain q out t where F: "finish_response env r True ?n (wio ?q3 out2 t2 ?c)
        = Ret (True \<and> rp_Upgrade r = None) (logged r ?n (wio q out t ?c))" "idle q" "concat out = concat out2 @ wq_pending ?q3"
      using finish_response_sent [OF assms(1) q3(1,2), of r True ?n out2 t2 ?c] by blast
    have "ResponseHandler env c = Ret (rp_Upgrade r = None) (logged r ?n (wio q out t ?c))"
      using R F(1) 3 b(1) by (simp add: put_def)
    moreover have "concat out = concat (cn_Out c) @ w"
      using F(3) q3(3) b(5) w1(2) ps(2) by simp
    ultimately show ?thesis
      using F(2) 3 by (auto simp: NO_LENGTH_def)
  qed
qed


section \<open>Reading chunks back\<close>

definition hex_value :: "string \<Rightarrow> nat" where
  "hex_value s = foldl (\<lambda>n c. n * 16 + GetHexVal c) 0 s"

text \<open>A decoder of the chunked transfer coding, without extensions and trailers.\<close>

function dechunk :: "string \<Rightarrow> string option" where
  "dechunk s =
     (let hx = takeWhile (\<lambda>c. c \<noteq> CHR 0x0D) s; n = hex_value hx; t = drop (length hx + 2) s
      in if hx = [] \<or> take 2 (drop (length hx) s) \<noteq> CRLF then None
         else if n = 0 then (if t = CRLF then Some [] else None)
         else if take 2 (drop n t) \<noteq> CRLF then None
         else map_option ((@) (take n t)) (dechunk (drop (n + 2) t)))"
  by auto
termination
  by (relation "measure length") (auto simp: CRLF_def, metis diff_less length_greater_0_conv takeWhile.simps(1) zero_less_Suc)

declare dechunk.simps [simp del]

lemma hex_digit_facts:
  assumes "n < 16"
  shows "GetHexVal (hex_digit n) = n" "hex_digit n \<noteq> CHR 0x0D"
proof -
  have "list_all (\<lambda>n. GetHexVal (hex_digit n) = n \<and> hex_digit n \<noteq> CHR 0x0D) [0..<16]"
    by code_simp
  then show "GetHexVal (hex_digit n) = n" "hex_digit n \<noteq> CHR 0x0D"
    using assms by (simp_all add: list_all_iff)
qed

lemma hex_value_snoc: "hex_value (s @ [c]) = hex_value s * 16 + GetHexVal c"
  by (simp add: hex_value_def)

lemma hex_value_digits: "hex_value (map (\<lambda>i. hex_digit (n div 16 ^ (k - i) mod 16)) [0..<Suc k]) = n mod 16 ^ Suc k"
proof (induction k arbitrary: n)
  case 0
  then show ?case by (simp add: hex_value_def hex_digit_facts)
next
  case (Suc k)
  let ?f = "\<lambda>i. hex_digit (n div 16 ^ (Suc k - i) mod 16)"
  have "map ?f [0..<Suc k] = map (\<lambda>i. hex_digit (n div 16 div 16 ^ (k - i) mod 16)) [0..<Suc k]"
    by (rule map_cong) (auto simp: Suc_diff_le div_mult2_eq)
  then have "hex_value (map ?f [0..<Suc k]) = n div 16 mod 16 ^ Suc k"
    using Suc.IH [of "n div 16"] by (simp only:)
  moreover have "map ?f [0..<Suc (Suc k)] = map ?f [0..<Suc k] @ [?f (Suc k)]"
    by simp
  ultimately have "hex_value (map ?f [0..<Suc (Suc k)]) = (n div 16 mod 16 ^ Suc k) * 16 + n mod 16"
    by (simp only: hex_value_snoc) (simp add: hex_digit_facts)
  also have "\<dots> = n mod 16 ^ Suc (Suc k)"
    using mod_mult2_eq [of n 16 "16 ^ Suc k"] by simp
  finally show ?case .
qed

lemma hex8_facts:
  assumes "n < 4294967296"
  shows "hex_value (hex8 n) = n" "CHR 0x0D \<notin> set (hex8 n)"
proof -
  have "hex_value (hex8 n) = n mod 16 ^ 8"
    using hex_value_digits [of n 7] by (simp add: hex8_def)
  then show "hex_value (hex8 n) = n"
    using assms by simp
  have "hex_digit (m mod 16) \<noteq> CHR 0x0D" for m
    by (rule hex_digit_facts) simp
  then show "CHR 0x0D \<notin> set (hex8 n)"
    unfolding hex8_def by (metis (no_types, lifting) ex_map_conv)
qed

lemma dechunk_chunk:
  assumes "p \<noteq> []" "length p < 4294967296"
  shows "dechunk (chunk p @ s) = map_option ((@) p) (dechunk s)"
proof -
  have hx: "takeWhile (\<lambda>c. c \<noteq> CHR 0x0D) (hex8 (length p) @ CRLF @ p @ CRLF @ s) = hex8 (length p)"
    using hex8_facts(2) [OF assms(2)] by (intro takeWhile_run) (auto simp: list_all_iff CRLF_def)
  have "hex8 (length p) \<noteq> []"
    using length_hex8 [of "length p"] by auto
  then show ?thesis
    using dechunk.simps [of "hex8 (length p) @ CRLF @ p @ CRLF @ s"] hex8_facts(1) [OF assms(2)] assms(1)
    unfolding hx by (simp add: chunk_def Let_def CRLF_def)
qed

lemma dechunk_chunks:
  assumes "\<forall>p \<in> set ps. p \<noteq> [] \<and> length p < 4294967296"
  shows "dechunk (concat (map chunk ps) @ final_chunk) = Some (concat ps)"
  using assms
proof (induction ps)
  case Nil
  have "dechunk final_chunk = Some []"
    by (subst dechunk.simps) (simp add: final_chunk_def CRLF_def hex_value_def GetHexVal_def Let_def)
  then show ?case by simp
qed (simp add: dechunk_chunk)

lemma chunk_parts_bounds:
  "chunk_parts fuel rd = Some ps \<Longrightarrow> \<forall>p \<in> set ps. p \<noteq> [] \<and> length p \<le> chunk_room"
proof (induction fuel arbitrary: rd ps)
  case (Suc fuel)
  then show ?case
    by (fastforce split: option.splits prod.splits if_splits)
qed simp


section \<open>A sample response\<close>

definition hello_response :: "nat \<Rightarrow> response" where
  "hello_response len = \<lparr>rp_ResponseCode = RC_OK, rp_ContentType = ''text/plain'', rp_Charset = None, rp_Length = len,
     rp_ExtraHeaders = [Some (''X'', ''y'')], rp_Read = reader_of (\<lambda>u m. Some (''hello'', True, u)) (), rp_Upgrade = None\<rparr>"

definition hello_env :: "nat \<Rightarrow> conn_env" where
  "hello_env len = sample_env\<lparr>ce_Create := \<lambda>_ _. Created (hello_response len)\<rparr>"

lemma dec_samples: "dec 200 = ''200''" "dec 5 = ''5''" "dec 404 = ''404''"
  by (simp_all add: dec.simps digit_def char_of_def bit_0)

lemma hello_head: "head_lines (hello_env 5) n b (hello_response 5) =
    ''HTTP/1.1 200 OK'' @ CRLF @ ''Server: S'' @ CRLF @ ''Content-Type: text/plain'' @ CRLF @ ''Content-Length: 5'' @ CRLF @ ''X: y'' @ CRLF"
  by (simp add: head_lines_def hello_env_def hello_response_def sample_env_def status_line_def content_type_line_def length_line_def
      date_line_def extra_text_def dec_samples GetResponseName_def RC_defs cstr_def NO_LENGTH_def)

lemma hello_env_simps: "ce_CORS (hello_env n) = False" "ce_WriteOk (hello_env n) = (\<lambda>_. True)" "ce_Fuel (hello_env n) = 10"
    "ce_Date (hello_env n) = (\<lambda>_. None)" "ce_Create (hello_env n) = (\<lambda>_ _. Created (hello_response n))" "ce_Conf (hello_env n) = default_config"
  by (simp_all add: hello_env_def sample_env_def)

lemma hello_parts: "body_parts 10 HTTP_WriteBuffSize (rp_Read (hello_response n)) = Some [''hello'']"
    "chunk_parts 10 (rp_Read (hello_response n)) = Some [''hello'']"
  using body_parts.simps(2) [of 9 HTTP_WriteBuffSize "rp_Read (hello_response n)"] chunk_parts.simps(2) [of 9 "rp_Read (hello_response n)"]
  by (simp_all add: hello_response_def HTTP_WriteBuffSize_def ChunkHeaderLen_def ChunkFooterLength_def)

lemma hello_wire: "response_wire (hello_env 5) n b (hello_response 5) = Some (head_text (hello_env 5) n b (hello_response 5) @ ''hello'')"
proof -
  have "rp_Length (hello_response 5) = 5"
    by (simp add: hello_response_def)
  then show ?thesis
    by (simp add: response_wire_def hello_env_simps hello_parts NO_LENGTH_def)
qed

section \<open>Properties\<close>

text \<open>C7: a response reaches the socket whole and in order: the header text, then for a known length
  the parts the reader gave, otherwise one chunk per part and the final chunk; the connection stays
  open exactly if the length is not zero and the response does not upgrade it, and the queue is
  left empty. The response is written no matter how the parts are cut.\<close>

theorem response_sent:
  assumes "\<forall>n. ce_WriteOk env n" "idle (cn_WriteBuff c)" "ce_Fuel env \<noteq> 0"
    "choose_response env (cn_ResponseCount (counted c)) (conn_request (counted c)) = Some (Responder r cors)"
    "head_fits env (cn_ResponseCount (counted c)) cors r"
    "length (head_text env (cn_ResponseCount (counted c)) cors r) < head_limit env"
    "response_wire env (cn_ResponseCount (counted c)) cors r = Some w"
  shows "\<exists>c'. ResponseHandler env c = Ret (rp_Length r \<noteq> 0 \<and> rp_Upgrade r = None) c' \<and> idle (cn_WriteBuff c')
    \<and> concat (cn_Out c') = concat (cn_Out c) @ w \<and> cn_NextConn c' = rp_Upgrade r"
proof -
  obtain q out t sent where "ResponseHandler env c = Ret (rp_Length r \<noteq> 0 \<and> rp_Upgrade r = None) (logged r sent (wio q out t (counted c)))"
    "idle q" "concat out = concat (cn_Out c) @ w"
    using ResponseHandler_sent [OF assms] by blast
  then show ?thesis
    by (intro exI [of _ "logged r sent (wio q out t (counted c))"]) (simp add: logged_def)
qed

theorem response_sent_witness:
  "\<exists>c'. ResponseHandler (hello_env 5) (conn_init sample_env (upload_init 0 0) 0 []) = Ret True c'
     \<and> concat (cn_Out c') = ''HTTP/1.1 200 OK'' @ CRLF @ ''Server: S'' @ CRLF @ ''Content-Type: text/plain'' @ CRLF
         @ ''Content-Length: 5'' @ CRLF @ ''X: y'' @ CRLF @ CRLF @ ''hello''"
proof -
  let ?c = "conn_init sample_env (upload_init 0 0) 0 []"
  have c: "idle (cn_WriteBuff ?c)" "cn_Out ?c = []"
    using idle_init [of HTTP_WriteBuffSize] by (simp_all add: conn_init_def HTTP_WriteBuffSize_def)
  have len: "length (head_text (hello_env 5) n True (hello_response 5)) < head_limit (hello_env 5)"
      "head_fits (hello_env 5) n True (hello_response 5)" for n
    by (simp_all add: head_text_def hello_head head_limit_def head_fits_def hello_env_simps default_config_def CRLF_def)
  have r: "rp_Length (hello_response 5) \<noteq> 0" "rp_Upgrade (hello_response 5) = None"
    by (simp_all add: hello_response_def)
  show ?thesis
    using response_sent [of "hello_env 5" ?c "hello_response 5" True, OF _ c(1) _ _ len(2,1) hello_wire] c(2) r
    by (auto simp: choose_response_def hello_env_simps head_text_def hello_head)
qed

text \<open>C16: a client that decodes the chunked transfer coding of what the response handler sends for a body of
  unknown length gets exactly the bytes the reader gave, in order and nothing else, whatever the sizes of the
  parts; the connection is kept unless the response upgrades it.\<close>

theorem chunked_roundtrip:
  assumes "\<forall>n. ce_WriteOk env n" "idle (cn_WriteBuff c)"
    "choose_response env (cn_ResponseCount (counted c)) (conn_request (counted c)) = Some (Responder r cors)"
    "head_fits env (cn_ResponseCount (counted c)) cors r"
    "length (head_text env (cn_ResponseCount (counted c)) cors r) < head_limit env"
    "rp_Length r = NO_LENGTH" "chunk_parts (ce_Fuel env) (rp_Read r) = Some ps"
  shows "\<exists>c' body. ResponseHandler env c = Ret (rp_Upgrade r = None) c'
    \<and> concat (cn_Out c') = concat (cn_Out c) @ head_text env (cn_ResponseCount (counted c)) cors r @ body
    \<and> dechunk body = Some (concat ps)"
proof -
  let ?body = "concat (map chunk ps) @ final_chunk"
  have "response_wire env (cn_ResponseCount (counted c)) cors r
      = Some (head_text env (cn_ResponseCount (counted c)) cors r @ ?body)" "ce_Fuel env \<noteq> 0" "rp_Length r \<noteq> 0"
    using assms(6,7) by (auto simp: response_wire_def NO_LENGTH_def intro: ccontr)
  then obtain q out t sent where "ResponseHandler env c = Ret (rp_Upgrade r = None) (logged r sent (wio q out t (counted c)))"
      "concat out = concat (cn_Out c) @ head_text env (cn_ResponseCount (counted c)) cors r @ ?body"
    using ResponseHandler_sent [OF assms(1,2) _ assms(3-5)] by auto
  moreover have "\<forall>p \<in> set ps. p \<noteq> [] \<and> length p < 4294967296"
    using chunk_parts_bounds [OF assms(7)] by (auto simp: HTTP_WriteBuffSize_def ChunkHeaderLen_def ChunkFooterLength_def)
  ultimately show ?thesis
    using dechunk_chunks by (intro exI [of _ "logged r sent (wio q out t (counted c))"] exI [of _ ?body]) (simp add: logged_def)
qed

theorem chunked_roundtrip_witness:
  "\<exists>c' hd body. ResponseHandler (hello_env NO_LENGTH) (conn_init sample_env (upload_init 0 0) 0 []) = Ret True c'
     \<and> concat (cn_Out c') = hd @ body \<and> dechunk body = Some ''hello''"
proof -
  let ?c = "conn_init sample_env (upload_init 0 0) 0 []" and ?r = "hello_response NO_LENGTH" and ?e = "hello_env NO_LENGTH"
  have c: "idle (cn_WriteBuff ?c)" "cn_Out ?c = []"
    using idle_init [of HTTP_WriteBuffSize] by (simp_all add: conn_init_def HTTP_WriteBuffSize_def)
  have "head_lines ?e n True ?r = ''HTTP/1.1 200 OK'' @ CRLF @ ''Server: S'' @ CRLF @ ''Content-Type: text/plain'' @ CRLF
      @ ''Transfer-Encoding: chunked'' @ CRLF @ ''X: y'' @ CRLF" for n
    by (simp add: head_lines_def hello_env_def hello_response_def sample_env_def status_line_def content_type_line_def length_line_def
      date_line_def extra_text_def dec_samples GetResponseName_def RC_defs cstr_def)
  then have len: "length (head_text ?e n True ?r) < head_limit ?e" "head_fits ?e n True ?r" for n
    by (simp_all add: head_text_def head_limit_def head_fits_def hello_env_simps default_config_def CRLF_def)
  have ch: "choose_response ?e n rq = Some (Responder ?r True)" for n rq
    by (simp add: choose_response_def hello_env_simps)
  have r: "rp_Length ?r = NO_LENGTH" "rp_Upgrade ?r = None" "chunk_parts (ce_Fuel ?e) (rp_Read ?r) = Some [''hello'']"
      "\<forall>n. ce_WriteOk ?e n"
    by (simp add: hello_response_def, simp add: hello_response_def, simp_all add: hello_env_simps hello_parts)
  show ?thesis
    using chunked_roundtrip [of ?e ?c ?r True, OF r(4) c(1) ch len(2,1) r(1,3)] c(2) r(2) by auto
qed

text \<open>Note: the end of the headers can be lost: a response whose header lines leave one or two characters
  of the header buffer is sent without the empty line behind its headers, although two characters
  were set aside for it.\<close>

theorem header_end_lost:
  assumes "head_fits env count cors r" "length (head_lines env count cors r) + 2 \<ge> head_limit env"
  shows "\<exists>h. response_head env count cors r = Some h \<and> length h = length (head_lines env count cors r) + 2
    \<and> take (length h - 2) h = head_lines env count cors r \<and> drop (length h - 2) h \<noteq> CRLF"
proof -
  let ?t = "head_lines env count cors r"
  have "length ?t < head_limit env"
    using assms(1) by (simp add: head_fits_def)
  then consider "head_limit env - length ?t = 1" | "head_limit env - length ?t = 2"
    using assms(2) by linarith
  then show ?thesis
  proof cases
    case 1
    then have "response_head env count cors r = Some (?t @ [NUL] @ map (ce_Junk env) [length ?t + 1..<length ?t + 2])"
      using response_head_lines [OF assms(1)] by (simp add: hdr_print_def Let_def CRLF_def)
    then show ?thesis by (simp add: CRLF_def)
  next
    case 2
    then have "response_head env count cors r = Some (?t @ [CHR 0x0D] @ [NUL])"
      using response_head_lines [OF assms(1)] by (simp add: hdr_print_def Let_def CRLF_def)
    then show ?thesis by (simp add: CRLF_def)
  qed
qed

theorem header_end_lost_witness:
  "\<exists>h. response_head ((hello_env 5)\<lparr>ce_Conf := default_config\<lparr>cc_MaxHeadersLength := 82\<rparr>\<rparr>) 0 True (hello_response 5) = Some h
     \<and> drop (length h - 2) h \<noteq> CRLF"
proof -
  let ?e = "(hello_env 5)\<lparr>ce_Conf := default_config\<lparr>cc_MaxHeadersLength := 82\<rparr>\<rparr>"
  have "head_lines ?e 0 True (hello_response 5) = head_lines (hello_env 5) 0 True (hello_response 5)"
    by (simp add: head_lines_def status_line_def date_line_def)
  then have "head_fits ?e 0 True (hello_response 5)" "length (head_lines ?e 0 True (hello_response 5)) + 2 \<ge> head_limit ?e"
    unfolding head_fits_def hello_head head_limit_def by (simp_all add: CRLF_def) (simp add: hello_env_def sample_env_def)
  then show ?thesis
    using header_end_lost [of ?e 0 True "hello_response 5"] by blast
qed

text \<open>Note: the error page for a resource name of at least 12282 characters runs into undefined
  behaviour: it is one chunk whose claimed length, the full length of the text, is more than the
  buffer holds, and the footer is written behind the buffer.\<close>

theorem long_error_page_undefined:
  assumes "\<forall>n. ce_WriteOk env n" "idle (cn_WriteBuff c)" "\<not> ce_CORS env"
    "ce_Create env (cn_ResponseCount (counted c)) (conn_request (counted c)) = OtherException"
    "head_fits env (cn_ResponseCount (counted c)) True (CommonError_Create (conn_request (counted c)))"
    "length (head_text env (cn_ResponseCount (counted c)) True (CommonError_Create (conn_request (counted c)))) < head_limit env"
    "length (cstr (cn_CurrResource c)) \<ge> 12282"
  shows "ResponseHandler env c = Undef"
proof -
  let ?r = "CommonError_Create (conn_request (counted c))"
  let ?e = "CommonError_Response (cn_CurrResource c) None RC_SERVERERROR"
  have r: "rp_Length ?r = NO_LENGTH" "rp_Read ?r = reader_of CommonError_Read ?e"
    by (simp_all add: CommonError_Create_def CreateFromException_def error_response_def conn_request_def counted_def)
  have "chunk_room < length (error_page ?e)"
    using assms(7) by (simp add: error_page_def error_title_def CommonError_Response_def HTTP_WriteBuffSize_def ChunkHeaderLen_def
        ChunkFooterLength_def error_exception_def RC_defs)
  then have "chunked_body env n (rp_Read ?r) sent c' = Undef" for n sent c'
    using r(2) by (cases n) (simp_all add: CommonError_Read_def)
  moreover have "choose_response env (cn_ResponseCount (counted c)) (conn_request (counted c)) = Some (Responder ?r True)"
    using assms(3,4) by (simp add: choose_response_def)
  ultimately show ?thesis
    using ResponseHandler_head [OF assms(1,2) _ assms(5,6)] r(1) by fastforce
qed

theorem long_error_page_undefined_witness:
  "ResponseHandler sample_env ((conn_init sample_env (upload_init 0 0) 0 [])\<lparr>cn_CurrResource := replicate 12282 (CHR ''a'')\<rparr>) = Undef"
proof -
  let ?c = "(conn_init sample_env (upload_init 0 0) 0 [])\<lparr>cn_CurrResource := replicate 12282 (CHR ''a'')\<rparr>"
  have c: "idle (cn_WriteBuff ?c)"
    using idle_init [of HTTP_WriteBuffSize] by (simp add: conn_init_def HTTP_WriteBuffSize_def)
  have e: "\<not> ce_CORS sample_env" "ce_Conf sample_env = default_config" "ce_Date sample_env = (\<lambda>_. None)" "ce_ServerName sample_env = ''S''"
      "ce_Create sample_env n rq = OtherException" for n rq
    by (simp_all add: sample_env_def)
  have d: "dec 500 = ''500''"
    by (simp add: dec.simps digit_def char_of_def bit_0)
  have h: "length (head_lines sample_env n True (CommonError_Create rq)) < 500" for n rq
    by (simp add: head_lines_def e status_line_def content_type_line_def date_line_def length_line_def CommonError_Create_def
        CreateFromException_def error_response_def CommonError_Response_def GetResponseName_def RC_defs d cstr_def CRLF_def NO_LENGTH_def)
  have "head_fits sample_env n True (CommonError_Create rq)"
    "length (head_text sample_env n True (CommonError_Create rq)) < head_limit sample_env" for n rq
    using h [of n rq] by (auto simp: head_fits_def head_text_def head_limit_def e default_config_def CRLF_def)
  moreover have "cstr (replicate n (CHR ''a'')) = replicate n (CHR ''a'')" for n
    by (simp add: cstr_def)
  ultimately show ?thesis
    by (intro long_error_page_undefined [OF _ c e(1) e(5)]) (simp_all add: sample_env_def)
qed

end
