(* ===== verification/HttpProtocol.thy ===== *)
theory HttpProtocol
  imports HttpResponse
begin

text \<open>
  The connection as a whole: requests that arrive in bursts are served in order, the waiting for
  request content ends, what the reset between two requests keeps and loses, and how the owner's
  timer ends a silent connection and takes over an upgraded one.
\<close>

section \<open>A sequence of requests\<close>

text \<open>What a response source is asked for a GET request: the target, the parameters and the headers of the
  request.\<close>

definition asks :: "request \<Rightarrow> http_request \<Rightarrow> bool" where
  "asks rq r \<longleftrightarrow> rq_Method rq = METHOD_GET \<and> rq_Resource rq = hr_Path r \<and> qp_ParamMap (rq_Query rq) = request_params r
     \<and> rq_HeaderA rq = map line_header (hr_Headers r)"

text \<open>A well-formed GET request of a client that keeps the connection open.\<close>

definition get_ok :: "(char \<Rightarrow> bool) \<Rightarrow> http_request \<Rightarrow> bool" where
  "get_ok safe r \<longleftrightarrow> request_ok safe r \<and> hr_Method r = ''GET'' \<and> hr_Version r = ''1.1''
     \<and> keep_alive (map line_header (hr_Headers r)) True = Some True"

text \<open>What the client gets for a response, if it fits the limits of the server, and for a sequence of
  requests, if \<open>page\<close> has the response for each: a response without content, or one that upgrades the
  connection, is the last one.\<close>

definition reply :: "conn_env \<Rightarrow> nat \<Rightarrow> response \<Rightarrow> string option" where
  "reply env count rp =
     (if head_fits env count True rp \<and> length (head_text env count True rp) < head_limit env
      then response_wire env count True rp else None)"

definition stays_open :: "response \<Rightarrow> bool" where
  "stays_open rp \<longleftrightarrow> rp_Length rp \<noteq> 0 \<and> rp_Upgrade rp = None"

fun replies :: "conn_env \<Rightarrow> (http_request \<Rightarrow> response option) \<Rightarrow> nat \<Rightarrow> http_request list \<Rightarrow> string option" where
  "replies env page count [] = Some []"
| "replies env page count (r # rs) =
     (case page r of
        None \<Rightarrow> None
      | Some rp \<Rightarrow>
          (case reply env (u32_add count 1) rp of
             None \<Rightarrow> None
           | Some w \<Rightarrow> if stays_open rp then map_option ((@) w) (replies env page (u32_add count 1) rs) else Some w))"

definition requests_text :: "(char \<Rightarrow> bool) \<Rightarrow> http_request list \<Rightarrow> string" where
  "requests_text safe rs = concat (map (request_text safe) rs)"

text \<open>A burst: requests that are sent in a row without waiting for a response, and the segments they arrive in.
  They fit into the read buffer together.\<close>

definition burst_ok :: "(char \<Rightarrow> bool) \<Rightarrow> http_request list \<times> string list \<Rightarrow> bool" where
  "burst_ok safe b \<longleftrightarrow> list_all (get_ok safe) (fst b) \<and> [] \<notin> set (snd b) \<and> concat (snd b) = requests_text safe (fst b)
     \<and> length (concat (snd b)) \<le> HTTP_ReadBuffSize"

text \<open>The connection between two requests.\<close>

definition between :: "string \<Rightarrow> conn \<Rightarrow> bool" where
  "between s c \<longleftrightarrow> srb_inv (cn_ReadBuff c) \<and> rb_RelevantLength (cn_ReadBuff c) = 0 \<and> [] \<notin> set (cn_In c)
     \<and> GetAvailableData (cn_ReadBuff c) @ concat (cn_In c) = s \<and> idle (cn_WriteBuff c)
     \<and> rb_ReadPos (cn_ReadBuff c) + length s \<le> length (rb_buf (cn_ReadBuff c))"

lemma between_init:
  assumes "[] \<notin> set segs" "length (concat segs) \<le> HTTP_ReadBuffSize"
  shows "between (concat segs) (conn_init env u junk segs)"
  using assms fresh_read_buffer [of "ce_Junk env"] idle_init [of HTTP_WriteBuffSize "ce_Junk env"]
  by (simp add: between_def conn_init_def HTTP_WriteBuffSize_def) (simp add: srb_init_def)

lemma ResetRequestData_keeps:
  "between s c \<Longrightarrow> between s (ResetRequestData env c)" "cn_Out (ResetRequestData env c) = cn_Out c"
  "cn_ResponseCount (ResetRequestData env c) = cn_ResponseCount c" "cn_HeaderA (ResetRequestData env c) = []"
  "qp_ParamMap (cn_CurrQuery (ResetRequestData env c)) = Map.empty"
  by (simp_all add: between_def ResetRequestData_def move_assign_def qp_init_def)

lemma ResetRelevant_between:
  assumes "srb_inv b" "rb_RelevantLength b > 0"
  shows "rb_RelevantLength (ResetRelevant b) = 0" "rb_ReadPos (ResetRelevant b) \<le> rb_ReadPos b" "rb_buf (ResetRelevant b) = rb_buf b"
  using assms srb_invD(1) [OF assms(1)] by (auto simp: ResetRelevant_def Let_def)

text \<open>At the end of the stream the loop ends.\<close>

lemma HeaderHandler_end:
  assumes "between [] c"
  shows "HeaderHandler c = Throw c \<or> HeaderHandler c = Ret False c"
proof -
  have "GetAvailableDataLength (cn_ReadBuff c) = 0"
    using assms avail_nonempty [of "cn_ReadBuff c"] by (auto simp: between_def)
  moreover have "cn_In c = []"
    using assms by (cases "cn_In c") (auto simp: between_def)
  ultimately show ?thesis
    unfolding HeaderHandler_def
    by (subst (1 2) header_loop.simps) (auto simp: ContinueRead_def Let_def split: prod.splits)
qed

text \<open>Segments that arrive after those a handler needs do not change what it does.\<close>

definition later :: "string list \<Rightarrow> conn \<Rightarrow> conn" where
  "later i c = c\<lparr>cn_In := cn_In c @ i\<rparr>"

fun later_res :: "string list \<Rightarrow> 'a cres \<Rightarrow> 'a cres" where
  "later_res i (Ret x c) = Ret x (later i c)"
| "later_res i (Throw c) = Throw (later i c)"
| "later_res i Undef = Undef"

lemma later_simps [simp]:
  "cn_ReadBuff (later i c) = cn_ReadBuff c" "cn_HeaderA (later i c) = cn_HeaderA c" "cn_CurrQuery (later i c) = cn_CurrQuery c"
  "cn_In (later i c) = cn_In c @ i" "cn_CurrMethod (later i c) = cn_CurrMethod c" "cn_CurrVersion (later i c) = cn_CurrVersion c"
  "cn_Out (later i c) = cn_Out c" "cn_WriteBuff (later i c) = cn_WriteBuff c" "cn_ResponseCount (later i c) = cn_ResponseCount c"
  "(later i c)\<lparr>cn_CurrVersion := v\<rparr> = later i (c\<lparr>cn_CurrVersion := v\<rparr>)" "(later i c)\<lparr>cn_CurrMethod := m\<rparr> = later i (c\<lparr>cn_CurrMethod := m\<rparr>)"
  "(later i c)\<lparr>cn_CurrResource := r\<rparr> = later i (c\<lparr>cn_CurrResource := r\<rparr>)" "(later i c)\<lparr>cn_CurrQuery := q\<rparr> = later i (c\<lparr>cn_CurrQuery := q\<rparr>)"
  "(later i c)\<lparr>cn_ReadBuff := b\<rparr> = later i (c\<lparr>cn_ReadBuff := b\<rparr>)"
  "(later i c)\<lparr>cn_HeaderA := h, cn_ReadBuff := b\<rparr> = later i (c\<lparr>cn_HeaderA := h, cn_ReadBuff := b\<rparr>)"
  by (cases c, simp add: later_def)+

lemma later_Nil [simp]: "later [] c = c"
  by (cases c) (simp add: later_def)

lemma parse_version_later: "parse_version s (later i c) = later_res i (parse_version s c)"
  by (simp add: parse_version_def Let_def)

lemma ParseRequestLine_later: "ParseRequestLine s (later i c) = later_res i (ParseRequestLine s c)"
  by (simp add: ParseRequestLine_def Let_def parse_version_later split: option.split)

lemma header_scan_later: "header_scan n pos base found start (later i c) = later_res i (header_scan n pos base found start c)"
proof (induction n pos base found start c rule: header_scan.induct)
  case (2 n pos base found start c)
  show ?case
    using "2.IH" by (auto simp: ParseRequestLine_later case_prod_unfold Let_def split: cres.splits bool.splits)
qed simp

lemma ContinueRead_later:
  "ContinueRead c = Ret u c' \<Longrightarrow> ContinueRead (later i c) = Ret u (later i c')"
  by (cases c) (auto simp: ContinueRead_def later_def Let_def split: prod.splits if_splits list.splits)

lemma header_loop_later: "header_loop found start c = Ret b c' \<Longrightarrow> header_loop found start (later i c) = Ret b (later i c')"
proof (induction found start c rule: header_loop.induct)
  case (1 found start c)
  let ?read = "\<lambda>c. if GetAvailableDataLength (cn_ReadBuff c) = 0 then ContinueRead c else Ret () c"
  obtain c1 where c1: "?read c = Ret () c1"
    using "1.prems" by (subst (asm) header_loop.simps) (cases "?read c", auto)
  then have l1: "?read (later i c) = Ret () (later i c1)"
    using ContinueRead_later [of c "()" c1 i] by (auto split: if_splits)
  let ?b = "cn_ReadBuff c1" and ?n = "GetAvailableDataLength (cn_ReadBuff c1)"
  let ?scan = "header_scan ?n (rb_ReadPos ?b) (rb_ReadPos ?b - rb_RelevantLength ?b) found start"
  show ?case
  proof (cases "?n = 0")
    case True
    then have "header_loop found start c = Ret False c1"
      using c1 by (subst header_loop.simps) simp
    then have "b = False" "c' = c1"
      using "1.prems" by simp_all
    then show ?thesis
      using True l1 by (subst header_loop.simps) simp
  next
    case False
    obtain r f s c2 where sc: "?scan c1 = Ret (r, f, s) c2"
      using "1.prems" c1 False by (subst (asm) header_loop.simps) (cases "?scan c1", auto)
    then have ls: "?scan (later i c1) = Ret (r, f, s) (later i c2)"
      by (simp add: header_scan_later)
    show ?thesis
    proof (cases r)
      case (Some ok)
      then have "header_loop found start c = Ret ok c2"
        using c1 False sc by (subst header_loop.simps) (simp add: Let_def)
      then have "b = ok" "c' = c2"
        using "1.prems" by simp_all
      then show ?thesis
        using Some False l1 ls by (subst header_loop.simps) (simp add: Let_def)
    next
      case None
      let ?d = "c2\<lparr>cn_ReadBuff := snd (Consume ?n True (cn_ReadBuff c2))\<rparr>"
      obtain c3 where c3: "ContinueRead ?d = Ret () c3" "header_loop f s c3 = Ret b c'"
        using "1.prems" c1 False sc None by (subst (asm) header_loop.simps) (cases "ContinueRead ?d", auto simp: Let_def)
      have "header_loop f s (later i c3) = Ret b (later i c')"
        using "1.IH" c1 False sc None c3 by blast
      then show ?thesis
        using None False l1 ls ContinueRead_later [OF c3(1), of i] by (subst header_loop.simps) (simp add: Let_def)
    qed
  qed
qed

lemma HeaderHandler_later: "HeaderHandler c = Ret b c' \<Longrightarrow> HeaderHandler (later i c) = Ret b (later i c')"
  by (simp add: HeaderHandler_def header_loop_later)

text \<open>The connection inside a burst of requests: \<open>s\<close> is what is left of the burst, \<open>i\<close> are the segments of the
  bursts behind it. At its end the read buffer is free again.\<close>

definition inside :: "string list \<Rightarrow> string \<Rightarrow> conn \<Rightarrow> bool" where
  "inside i s c \<longleftrightarrow> (\<exists>d. c = later i d \<and> between s d \<and> [] \<notin> set i \<and> length (rb_buf (cn_ReadBuff d)) = HTTP_ReadBuffSize
     \<and> (s = [] \<longrightarrow> rb_ReadPos (cn_ReadBuff d) = 0))"

lemma inside_next:
  assumes "inside (segs @ i) [] c" "length (concat segs) \<le> HTTP_ReadBuffSize"
  shows "inside i (concat segs) c"
proof -
  obtain d where d: "c = later (segs @ i) d" "between [] d" "[] \<notin> set (segs @ i)" "length (rb_buf (cn_ReadBuff d)) = HTTP_ReadBuffSize"
      "rb_ReadPos (cn_ReadBuff d) = 0"
    using assms(1) by (auto simp: inside_def)
  have "c = later i (later segs d)"
    unfolding d(1) by (cases d) (simp add: later_def)
  moreover have "between (concat segs) (later segs d)"
    using d(2-5) assms(2) by (auto simp: between_def)
  ultimately show ?thesis
    unfolding inside_def using d(3-5) by (intro exI [of _ "later segs d"]) simp
qed

lemma inside_init:
  assumes "[] \<notin> set i"
  shows "inside i [] (conn_init env u junk i)"
proof -
  have "conn_init env u junk i = later i (conn_init env u junk [])" "rb_ReadPos (srb_init (ce_Junk env) HTTP_ReadBuffSize) = 0"
      "length (rb_buf (srb_init (ce_Junk env) HTTP_ReadBuffSize)) = HTTP_ReadBuffSize"
    by (simp_all add: conn_init_def later_def srb_init_def)
  moreover have "between [] (conn_init env u junk [])"
    using between_init [of "[]" env u junk] by simp
  ultimately show ?thesis
    unfolding inside_def using assms by (intro exI [of _ "conn_init env u junk []"]) (simp add: conn_init_def)
qed

lemma inside_between:
  assumes "between s c" "length (rb_buf (cn_ReadBuff c)) = HTTP_ReadBuffSize" "s = [] \<longrightarrow> rb_ReadPos (cn_ReadBuff c) = 0"
  shows "inside [] s c"
  unfolding inside_def using assms by (intro exI [of _ c]) simp

text \<open>The connection after the response, and after the reset of the read buffer behind it.\<close>

definition responded :: "response \<Rightarrow> nat \<Rightarrow> char wbq \<Rightarrow> string list \<Rightarrow> nat \<Rightarrow> conn \<Rightarrow> conn" where
  "responded rp sent q out t c = logged rp sent (wio q out t (counted c))"

definition next_request :: "conn \<Rightarrow> conn" where
  "next_request c = c\<lparr>cn_ReadBuff := ResetRelevant (cn_ReadBuff c)\<rparr>"

lemma responded_simps [simp]:
  "cn_Out (responded rp sent q out t c) = out" "cn_ResponseCount (responded rp sent q out t c) = u32_add (cn_ResponseCount c) 1"
  "cn_CurrVersion (responded rp sent q out t c) = cn_CurrVersion c" "cn_HeaderA (responded rp sent q out t c) = cn_HeaderA c"
  "cn_ReadBuff (responded rp sent q out t c) = cn_ReadBuff c" "cn_In (responded rp sent q out t c) = cn_In c"
  "cn_WriteBuff (responded rp sent q out t c) = q" "responded rp sent q out t (later i c) = later i (responded rp sent q out t c)"
  by (simp_all add: responded_def logged_def wio_def counted_def later_def)

lemma next_request_simps [simp]:
  "cn_Out (next_request c) = cn_Out c" "cn_ResponseCount (next_request c) = cn_ResponseCount c" "cn_In (next_request c) = cn_In c"
  "cn_WriteBuff (next_request c) = cn_WriteBuff c" "cn_ReadBuff (next_request c) = ResetRelevant (cn_ReadBuff c)"
  "next_request (later i c) = later i (next_request c)"
  by (simp_all add: next_request_def later_def)

text \<open>The request at the front of a burst is read and put to the response source.\<close>

lemma request_read:
  assumes "get_ok safe r" "inside i (request_text safe r @ rest) c"
  shows "\<exists>c1. HeaderHandler (ResetRequestData env c) = Ret True c1 \<and> cn_CurrMethod c1 = METHOD_GET \<and> cn_CurrVersion c1 = VERSION_11
    \<and> cn_HeaderA c1 = map line_header (hr_Headers r) \<and> asks (conn_request (counted c1)) r
    \<and> cn_Out c1 = cn_Out c \<and> cn_ResponseCount c1 = cn_ResponseCount c \<and> idle (cn_WriteBuff c1)
    \<and> (\<forall>rp sent q out t. idle q \<longrightarrow> inside i rest (next_request (responded rp sent q out t c1)))"
proof -
  obtain d where d: "c = later i d" "between (request_text safe r @ rest) d" "[] \<notin> set i"
      "length (rb_buf (cn_ReadBuff d)) = HTTP_ReadBuffSize"
    using assms(2) by (auto simp: inside_def)
  let ?c = "ResetRequestData env d"
  note K = ResetRequestData_keeps
  have B: "between (request_text safe r @ rest) ?c"
    by (rule K(1) [OF d(2)])
  have l: "ResetRequestData env c = later i ?c"
    unfolding d(1) by (cases d) (simp add: ResetRequestData_def later_def)
  obtain c1 where c1: "HeaderHandler ?c = Ret True c1" "cn_CurrMethod c1 = METHOD_GET" "cn_CurrResource c1 = hr_Path r"
      "cn_CurrVersion c1 = VERSION_11" "qp_ParamMap (cn_CurrQuery c1) = request_params r"
      "cn_HeaderA c1 = map line_header (hr_Headers r)" "srb_inv (cn_ReadBuff c1)" "GetAvailableData (cn_ReadBuff c1) @ concat (cn_In c1) = rest"
      "[] \<notin> set (cn_In c1)" "length (rb_buf (cn_ReadBuff c1)) = length (rb_buf (cn_ReadBuff ?c))" "rb_RelevantLength (cn_ReadBuff c1) > 0"
      "rb_ReadPos (cn_ReadBuff c1) = rb_ReadPos (cn_ReadBuff ?c) + length (request_text safe r)"
      "cn_Out c1 = cn_Out d" "cn_WriteBuff c1 = cn_WriteBuff ?c" "cn_ResponseCount c1 = cn_ResponseCount d"
    using HeaderHandler_request [of safe r ?c rest] B assms(1) by (auto simp: get_ok_def between_def K ParseMethod_def)
  have e: "inside i rest (next_request (responded rp sent q out t (later i c1)))" if q: "idle q" for rp sent q out t
  proof -
    let ?d = "next_request (responded rp sent q out t c1)"
    note R = ResetRelevant_between [OF c1(7,11)]
    have "between rest ?d"
      using q c1(7-12) B R ResetRelevant_inv [OF c1(7)] ResetRelevant_ready [OF c1(7)] by (auto simp: between_def)
    moreover have "rb_ReadPos (cn_ReadBuff ?d) = 0" if "rest = []"
    proof -
      have "GetAvailableDataLength (cn_ReadBuff c1) = 0"
        using c1(8) that length_GetAvailableData [OF c1(7)] by simp
      then have "rb_ReadPos (cn_ReadBuff c1) = rb_DataEndPos (cn_ReadBuff c1)" "rb_ReadPos (cn_ReadBuff c1) \<noteq> 0"
        using GetAvailableDataLength_eq [OF c1(7)] srb_invD [OF c1(7)] c1(11) by auto
      then show ?thesis
        using c1(11) by (simp add: ResetRelevant_def Let_def)
    qed
    moreover have "length (rb_buf (cn_ReadBuff ?d)) = HTTP_ReadBuffSize"
      using R(3) c1(10) d(4) by (simp add: ResetRequestData_def)
    ultimately show ?thesis
      unfolding inside_def using d(3) by (intro exI [of _ ?d]) simp
  qed
  have a: "asks (conn_request (counted (later i c1))) r"
    using c1(2,3,5,6) by (simp add: asks_def conn_request_def counted_def later_def)
  have "idle (cn_WriteBuff c1)"
    using B c1(14) by (simp add: between_def)
  then show ?thesis
    using HeaderHandler_later [OF c1(1), of i] a e c1(2,4,6,13,15) unfolding l
    by (intro exI [of _ "later i c1"]) (simp add: d(1))
qed

text \<open>The contract between the connection and the response source, \<open>IRespSource::Create\<close>: \<open>page\<close> is the
  response the source creates for a GET request, however often it is asked. Under it the connection
  answers every request with its page.\<close>

locale resp_source =
  fixes create :: "nat \<Rightarrow> request \<Rightarrow> created" and page :: "http_request \<Rightarrow> response option"
  assumes served: "asks rq r \<Longrightarrow> page r = Some rp \<Longrightarrow> create n rq = Created rp"
begin

lemma answered_one:
  assumes "writes_ok env" "ce_Fuel env \<noteq> 0" "ce_Create env = create" "get_ok safe r" "inside i (request_text safe r @ rest) c"
    "page r = Some rp" "reply env (u32_add (cn_ResponseCount c) 1) rp = Some w"
  shows "\<exists>c'. protocol_loop env (Suc fuel) c = (if stays_open rp then protocol_loop env fuel c' else Ret () c')
    \<and> (stays_open rp \<longrightarrow> inside i rest c')
    \<and> concat (cn_Out c') = concat (cn_Out c) @ w \<and> cn_ResponseCount c' = u32_add (cn_ResponseCount c) 1"
proof -
  obtain c1 where c1: "HeaderHandler (ResetRequestData env c) = Ret True c1" "cn_CurrMethod c1 = METHOD_GET" "cn_CurrVersion c1 = VERSION_11"
      "cn_HeaderA c1 = map line_header (hr_Headers r)" "asks (conn_request (counted c1)) r"
      "cn_Out c1 = cn_Out c" "cn_ResponseCount c1 = cn_ResponseCount c" "idle (cn_WriteBuff c1)"
      and e: "\<forall>rp sent q out t. idle q \<longrightarrow> inside i rest (next_request (responded rp sent q out t c1))"
    using request_read [OF assms(4,5), of env] by (elim exE conjE) (rule that)
  have n: "cn_ResponseCount (counted c1) = u32_add (cn_ResponseCount c) 1"
    using c1(7) by (simp add: counted_def)
  have rp: "head_fits env (u32_add (cn_ResponseCount c) 1) True rp" "length (head_text env (u32_add (cn_ResponseCount c) 1) True rp) < head_limit env"
      "response_wire env (u32_add (cn_ResponseCount c) 1) True rp = Some w"
    using assms(7) by (auto simp: reply_def split: if_splits)
  have "ce_Create env k (conn_request (counted c1)) = Created rp" for k
    using assms(3,6) c1(5) served by simp
  moreover have "CORSPreflight_Create (conn_request (counted c1)) = None"
    using c1(2) by (simp add: conn_request_def counted_def CORSPreflight_Create_def)
  ultimately have ch: "choose_response env (cn_ResponseCount (counted c1)) (conn_request (counted c1)) = Some (Responder rp True)"
    by (simp add: choose_response_def Let_def)
  obtain q out t sent where R: "ResponseHandler env c1 = Ret (stays_open rp) (responded rp sent q out t c1)" "idle q"
      "concat out = concat (cn_Out c1) @ w"
    using ResponseHandler_sent [OF assms(1) c1(8) assms(2) ch] rp unfolding n stays_open_def responded_def by blast
  let ?d = "responded rp sent q out t c1"
  show ?thesis
  proof (cases "stays_open rp")
    case True
    then have "protocol_loop env (Suc fuel) c = protocol_loop env fuel (next_request ?d)"
      using c1(1,2,3,4) R(1) assms(4) by (simp add: Let_def get_ok_def next_request_def)
    then show ?thesis
      using True e R(2,3) c1(6,7) by (intro exI [of _ "next_request ?d"]) simp
  next
    case False
    then have "protocol_loop env (Suc fuel) c = Ret () ?d"
      using c1(1,2) R(1) by simp
    then show ?thesis
      using False R(3) c1(6,7) by (intro exI [of _ ?d]) simp
  qed
qed

text \<open>A burst: it ends with the connection closed, or with everything answered.\<close>

lemma answered_burst:
  assumes "writes_ok env" "ce_Fuel env \<noteq> 0" "ce_Create env = create"
  shows "list_all (get_ok safe) rs \<Longrightarrow> inside i (requests_text safe rs) c \<Longrightarrow> replies env page (cn_ResponseCount c) (rs @ ms) = Some w \<Longrightarrow>
    (\<exists>c'. protocol_loop env (length rs + fuel) c = Ret () c' \<and> concat (cn_Out c') = concat (cn_Out c) @ w)
    \<or> (\<exists>c' w1 w2. protocol_loop env (length rs + fuel) c = protocol_loop env fuel c' \<and> inside i [] c' \<and> w = w1 @ w2
        \<and> concat (cn_Out c') = concat (cn_Out c) @ w1 \<and> replies env page (cn_ResponseCount c') ms = Some w2)"
proof (induction rs arbitrary: c w)
  case Nil
  then show ?case by (auto simp: requests_text_def)
next
  case (Cons r rs)
  obtain rp w1 where w: "page r = Some rp" "reply env (u32_add (cn_ResponseCount c) 1) rp = Some w1"
    using Cons.prems(3) by (auto split: option.splits)
  have B: "inside i (request_text safe r @ requests_text safe rs) c" and g: "get_ok safe r"
    using Cons.prems(1,2) by (simp_all add: requests_text_def)
  obtain c1 where c1: "protocol_loop env (Suc (length rs + fuel)) c = (if stays_open rp then protocol_loop env (length rs + fuel) c1 else Ret () c1)"
      "stays_open rp \<longrightarrow> inside i (requests_text safe rs) c1"
      "concat (cn_Out c1) = concat (cn_Out c) @ w1" "cn_ResponseCount c1 = u32_add (cn_ResponseCount c) 1"
    using answered_one [OF assms g B w] by blast
  show ?case
  proof (cases "stays_open rp")
    case True
    obtain w2 where w2: "replies env page (cn_ResponseCount c1) (rs @ ms) = Some w2" "w = w1 @ w2"
      using Cons.prems(3) w True c1(4) by auto
    have "inside i (requests_text safe rs) c1" "list_all (get_ok safe) rs"
      using True c1(2) Cons.prems(1) by simp_all
    from Cons.IH [OF this(2,1) w2(1)] show ?thesis
    proof (elim disjE exE conjE)
      fix c' assume "protocol_loop env (length rs + fuel) c1 = Ret () c'" "concat (cn_Out c') = concat (cn_Out c1) @ w2"
      then have "protocol_loop env (length (r # rs) + fuel) c = Ret () c' \<and> concat (cn_Out c') = concat (cn_Out c) @ w"
        using c1(1,3) True w2(2) by (simp del: protocol_loop.simps)
      then show ?thesis by blast
    next
      fix c' v1 v2
      assume "protocol_loop env (length rs + fuel) c1 = protocol_loop env fuel c'" "inside i [] c'" "w2 = v1 @ v2"
        "concat (cn_Out c') = concat (cn_Out c1) @ v1" "replies env page (cn_ResponseCount c') ms = Some v2"
      then have "protocol_loop env (length (r # rs) + fuel) c = protocol_loop env fuel c' \<and> inside i [] c' \<and> w = (w1 @ v1) @ v2
          \<and> concat (cn_Out c') = concat (cn_Out c) @ (w1 @ v1) \<and> replies env page (cn_ResponseCount c') ms = Some v2"
        using c1(1,3) True w2(2) by (simp del: protocol_loop.simps)
      then show ?thesis by blast
    qed
  next
    case False
    then have "w = w1"
      using Cons.prems(3) w by simp
    then show ?thesis
      using c1(1,3) False by (intro disjI1 exI [of _ c1]) (simp del: protocol_loop.simps)
  qed
qed

lemma answered_all:
  assumes "writes_ok env" "ce_Fuel env \<noteq> 0" "ce_Create env = create"
  shows "list_all (burst_ok safe) bs \<Longrightarrow> inside (concat (map snd bs)) [] c \<Longrightarrow>
    replies env page (cn_ResponseCount c) (concat (map fst bs)) = Some w \<Longrightarrow> length (concat (map fst bs)) < fuel \<Longrightarrow>
    \<exists>c'. (protocol_loop env fuel c = Throw c' \<or> protocol_loop env fuel c = Ret () c') \<and> concat (cn_Out c') = concat (cn_Out c) @ w"
proof (induction bs arbitrary: c w fuel)
  case Nil
  then obtain f where f: "fuel = Suc f"
    by (cases fuel) auto
  have "between [] c"
    using Nil.prems(2) by (auto simp: inside_def)
  then have B: "between [] (ResetRequestData env c)"
    by (rule ResetRequestData_keeps(1))
  show ?case
    using HeaderHandler_end [OF B] Nil.prems(3) ResetRequestData_keeps(2) [of env c] by (auto simp: f)
next
  case (Cons b bs)
  obtain rs segs where b: "b = (rs, segs)" by (cases b)
  let ?more = "concat (map fst bs)"
  have ok: "list_all (get_ok safe) rs" "concat segs = requests_text safe rs" "length (concat segs) \<le> HTTP_ReadBuffSize"
    using Cons.prems(1) unfolding b burst_ok_def list.pred_inject fst_conv snd_conv by blast+
  have B: "inside (concat (map snd bs)) (requests_text safe rs) c"
    using inside_next [OF _ ok(3), of "concat (map snd bs)" c] Cons.prems(2) ok(2) by (simp add: b)
  obtain f where f: "fuel = length rs + f" "length ?more < f"
    using Cons.prems(4) less_imp_add_positive [of "length (rs @ ?more)" fuel] by (intro that [of "fuel - length rs"]) (auto simp: b)
  have "replies env page (cn_ResponseCount c) (rs @ ?more) = Some w"
    using Cons.prems(3) by (simp add: b)
  from answered_burst [OF assms ok(1) B this, of f] show ?case
  proof (elim disjE exE conjE)
    fix c' w1 w2
    assume c': "protocol_loop env (length rs + f) c = protocol_loop env f c'" "inside (concat (map snd bs)) [] c'" "w = w1 @ w2"
      "concat (cn_Out c') = concat (cn_Out c) @ w1" "replies env page (cn_ResponseCount c') ?more = Some w2"
    have "list_all (burst_ok safe) bs"
      using Cons.prems(1) by simp
    from Cons.IH [OF this c'(2,5) f(2)] show ?thesis
      unfolding f(1) c'(1,3,4) append_assoc .
  qed (use f(1) in blast)
qed

end

text \<open>Two requests, the second one cut in the middle, for the sample response.\<close>

lemma sample_request_facts:
  "request_ok plain_char sample_request" "length (request_text plain_char sample_request) < 100"
  "9 < length (request_text plain_char sample_request)"
  "keep_alive (map line_header (hr_Headers sample_request)) True = Some True"
proof -
  show "request_ok plain_char sample_request"
    by (simp add: request_ok_def sample_request_def plain_char_def fm_line_ok_def value_ok_def)
  show "length (request_text plain_char sample_request) < 100" "9 < length (request_text plain_char sample_request)"
    by (simp_all add: request_text_def request_line_def sample_request_def url_pair_def url_encode_def enc_char_def plain_char_def
        CRLF_def fm_text_def header_line_def)
  show "keep_alive (map line_header (hr_Headers sample_request)) True = Some True"
    by code_simp
qed

lemma hello_reply:
  shows "reply (hello_env 5) n (hello_response 5) = Some (head_text (hello_env 5) 0 True (hello_response 5) @ ''hello'')"
proof -
  have r: "rp_Length (hello_response 5) \<noteq> 0" "rp_Upgrade (hello_response 5) = None"
    by (simp_all add: hello_response_def)
  have "head_text (hello_env 5) n True (hello_response 5) = head_text (hello_env 5) 0 True (hello_response 5)"
    by (simp add: head_text_def hello_head)
  then show ?thesis
    using r by (simp add: reply_def hello_wire)
      (simp add: head_text_def hello_head head_limit_def head_fits_def hello_env_simps default_config_def CRLF_def)
qed

section \<open>Properties\<close>

text \<open>C1: a client that sends well-formed GET requests in any number of bursts gets exactly the responses its
  source creates for them, one after the other in the order of the requests and nothing else. A burst is any
  number of requests sent in a row without waiting for a response, in whatever segments, that together fit
  into the read buffer; the next burst starts with a segment of its own. A response without content and
  one that upgrades the connection are sent like any other but are the last ones. In the end the
  connection is closed and can be removed.\<close>

theorem protocol_serves_all:
  assumes "\<forall>n. ce_WriteOk env n" "ce_Fuel env \<noteq> 0" "list_all (burst_ok safe) bursts"
    "\<forall>n rq r rp. asks rq r \<and> page r = Some rp \<longrightarrow> ce_Create env n rq = Created rp"
    "replies env page 0 (concat (map fst bursts)) = Some w" "length (concat (map fst bursts)) < fuel"
  shows "\<exists>c. ProtocolHandler env fuel (conn_init env u junk (concat (map snd bursts))) = Some c
    \<and> concat (cn_Out c) = w \<and> \<not> cn_Open c \<and> cn_IsDeletable c"
proof -
  let ?c = "conn_init env u junk (concat (map snd bursts))"
  have "[] \<notin> set (concat (map snd bursts))"
    using assms(3) by (auto simp: list_all_iff burst_ok_def)
  then have B: "inside (concat (map snd bursts)) [] ?c"
    by (rule inside_init)
  have c: "cn_ResponseCount ?c = 0" "cn_Out ?c = []"
    by (simp_all add: conn_init_def)
  have "resp_source (ce_Create env) page"
    using assms(4) by unfold_locales blast
  from resp_source.answered_all [OF this assms(1,2) refl assms(3) B _ assms(6), of w] obtain c'
    where "protocol_loop env fuel ?c = Throw c' \<or> protocol_loop env fuel ?c = Ret () c'" "concat (cn_Out c') = w"
    using assms(5) c by auto
  then show ?thesis
    by (auto simp: ProtocolHandler_def)
qed

text \<open>Two bursts, the first one of two requests with the second one cut in the middle.\<close>

theorem protocol_serves_all_witness:
  "\<exists>c h. ProtocolHandler (hello_env 5) 4 (conn_init (hello_env 5) (upload_init 0 0) 0
        [request_text plain_char sample_request @ take 9 (request_text plain_char sample_request),
         drop 9 (request_text plain_char sample_request), request_text plain_char sample_request]) = Some c
     \<and> concat (cn_Out c) = h @ ''hello'' @ h @ ''hello'' @ h @ ''hello''"
proof -
  let ?t = "request_text plain_char sample_request" and ?p = "\<lambda>_. Some (hello_response 5)"
  let ?bs = "[([sample_request, sample_request], [?t @ take 9 ?t, drop 9 ?t]), ([sample_request], [?t])]"
  have "?t \<noteq> []" "drop 9 ?t \<noteq> []"
    using sample_request_facts(3) by auto
  moreover have "get_ok plain_char sample_request"
    using sample_request_facts(1,4) by (simp add: get_ok_def) (simp add: sample_request_def)
  ultimately have bs: "list_all (burst_ok plain_char) ?bs"
    using sample_request_facts(2) by (simp add: burst_ok_def requests_text_def HTTP_ReadBuffSize_def)
  have a: "\<forall>n rq r rp. asks rq r \<and> ?p r = Some rp \<longrightarrow> ce_Create (hello_env 5) n rq = Created rp" "\<forall>n. ce_WriteOk (hello_env 5) n"
      "ce_Fuel (hello_env 5) \<noteq> 0" "length (concat (map fst ?bs)) < 4"
    by (simp_all add: hello_env_simps)
  have "stays_open (hello_response 5)"
    by (simp add: stays_open_def hello_response_def)
  then have "replies (hello_env 5) ?p 0 (concat (map fst ?bs))
      = Some ((head_text (hello_env 5) 0 True (hello_response 5) @ ''hello'') @ (head_text (hello_env 5) 0 True (hello_response 5) @ ''hello'')
          @ (head_text (hello_env 5) 0 True (hello_response 5) @ ''hello''))"
    by (simp add: hello_reply)
  from protocol_serves_all [OF a(2,3) bs a(1) this a(4), of "upload_init 0 0" 0]
  show ?thesis by auto
qed


section \<open>Waiting for content\<close>

text \<open>Every round of the loop asks for the missing bytes once more, so that the requested end of
  the data grows with every segment; as long as it stays inside the buffer nothing is moved. A read that the
  buffer cuts short brings at least the missing bytes.\<close>

definition content_room :: "nat \<Rightarrow> conn \<Rightarrow> bool" where
  "content_room len c \<longleftrightarrow> len \<le> length (GetAvailableData (cn_ReadBuff c)) \<or>
     rb_ReqDataEndPos (cn_ReadBuff c) + (length (cn_In c) + 1) * (len - length (GetAvailableData (cn_ReadBuff c)))
       \<le> length (rb_buf (cn_ReadBuff c))"

definition stream :: "conn \<Rightarrow> string" where
  "stream c = GetAvailableData (cn_ReadBuff c) @ concat (cn_In c)"

lemma request_loop_awaited:
  assumes "srb_inv b" "[] \<notin> set i"
    "len \<le> length (GetAvailableData b) \<and> 0 < fuel
      \<or> rb_ReqDataEndPos b + (length i + 1) * (len - length (GetAvailableData b)) \<le> length (rb_buf b) \<and> length i + 1 < fuel"
  shows "if len \<le> length (GetAvailableData b @ concat i)
    then \<exists>b' i' t'. request_loop env fuel len (io b i t c) = Ret () (io b' i' t' c) \<and> srb_inv b' \<and> len \<le> length (GetAvailableData b')
      \<and> [] \<notin> set i' \<and> GetAvailableData b' @ concat i' = GetAvailableData b @ concat i
    else \<exists>c'. request_loop env fuel len (io b i t c) = Throw c'"
  using assms
proof (induction fuel arbitrary: b i t)
  case (Suc fuel)
  note D = srb_invD [OF Suc.prems(1)]
  have g: "GetAvailableDataLength b = length (GetAvailableData b)" "GetAvailableDataLength b = rb_DataEndPos b - rb_ReadPos b"
    using length_GetAvailableData [OF Suc.prems(1)] GetAvailableDataLength_eq [OF Suc.prems(1)] by auto
  show ?case
  proof (cases "len \<le> length (GetAvailableData b)")
    case True
    then have "RequestData (ce_Junk env) len b = (True, b)"
      using RequestData_enough g by metis
    then show ?thesis
      using Suc.prems True by (auto simp: pointers_kept_def)
  next
    case False
    let ?m = "len - length (GetAvailableData b)"
    let ?q = "rb_ReqDataEndPos b + ?m"
    have r: "?q + length i * ?m \<le> length (rb_buf b)" "length i + 1 < Suc fuel" "0 < ?m"
      using Suc.prems(3) False by (auto simp: algebra_simps)
    then have q: "?q \<le> length (rb_buf b)" "?q < U32" "GetAvailableDataLength b < len" "rb_DataEndPos b < ?q" "len < U32"
      using D False g by linarith+
    let ?b = "b\<lparr>rb_ReqDataEndPos := ?q\<rparr>"
    have "u32_sub len (GetAvailableDataLength b) = ?m" "u32_add (rb_ReqDataEndPos b) ?m = ?q"
      using q D g(1) by (simp_all add: u32_simps)
    then have R: "RequestData (ce_Junk env) len b = (False, ?b)"
      using q D by (simp add: RequestData_def Let_def u32_of_exact)
    have inv: "srb_inv ?b" "GetAvailableData ?b = GetAvailableData b"
      using D q by (simp_all add: srb_inv_def GetAvailableData_def)
    have k: "pointers_kept b ?b"
      by (simp add: pointers_kept_def)
    have step: "request_loop env (Suc fuel) len (io b i t c) = seq (ContinueRead (io ?b i t c)) (\<lambda>_ c1. request_loop env fuel len c1)"
      using R k by simp
    show ?thesis
    proof (cases "i = []")
      case True
      have "snd (GetReadInfo ?b) = srb_room ?b" "srb_room ?b \<noteq> 0"
        using q srb_room_eq [OF inv(1)] by (simp_all add: srb_room_def)
      then show ?thesis
        using step False True by (simp add: ContinueRead_def io_def case_prod_unfold)
    next
      case False2: False
      have room: "rb_DataEndPos ?b < length (rb_buf ?b)"
        using q by simp
      obtain y i' where y: "ContinueRead (io ?b i t c) = Ret () (io (srb_feed y ?b) i' 0 c)" "y \<noteq> []" "y @ concat i' = concat i"
          "[] \<notin> set i'" "length y \<le> srb_room ?b" "length i' < length i \<or> length y = srb_room ?b \<and> length i' = length i"
        using read_some [OF inv(1) room False2 Suc.prems(2), of t c] by blast
      let ?b' = "srb_feed y ?b"
      have b': "srb_inv ?b'" "GetAvailableData ?b' = GetAvailableData b @ y"
        using srb_feed_inv [OF inv(1) y(5)] srb_feed_ready [OF inv(1) y(5)] inv(2) by auto
      have l: "length (rb_buf ?b') = length (rb_buf b)" "rb_ReqDataEndPos ?b' = max ?q (rb_DataEndPos b + length y)"
        using srb_feed_state [OF inv(1) y(5)] y(5) srb_room_eq [OF inv(1)] room by (simp_all add: length_mem_write)
      have rm: "srb_room ?b = length (rb_buf b) - rb_DataEndPos b"
        using srb_room_eq [OF inv(1)] by simp
      have d: "len \<le> length (GetAvailableData ?b') \<and> 0 < fuel \<or>
          rb_ReqDataEndPos ?b' + (length i' + 1) * (len - length (GetAvailableData ?b')) \<le> length (rb_buf ?b') \<and> length i' + 1 < fuel"
      proof (cases "len \<le> length (GetAvailableData ?b')")
        case short: False
        have "length y < ?m"
          using short b'(2) by simp
        moreover have "?m \<le> srb_room ?b"
          using rm q(1) D(5) by linarith
        ultimately have i': "length i' < length i"
          using y(6) by linarith
        have "rb_DataEndPos b + length y \<le> ?q"
          using \<open>length y < ?m\<close> D(5) by linarith
        then have e: "rb_ReqDataEndPos ?b' = ?q"
          using l(2) by simp
        have "len - length (GetAvailableData ?b') \<le> ?m"
          using b'(2) by simp
        then have "(length i' + 1) * (len - length (GetAvailableData ?b')) \<le> length i * ?m"
          using i' by (intro mult_le_mono) simp_all
        then show ?thesis
          using r(1,2) e l(1) i' by linarith
      qed (use r(2) False2 in \<open>cases i, auto\<close>)
      have e: "GetAvailableData ?b' @ concat i' = GetAvailableData b @ concat i"
        using b'(2) y(3) by simp
      show ?thesis
        using Suc.IH [OF b'(1) y(4) d, of 0] unfolding step y(1) seq.simps e .
    qed
  qed
qed simp

text \<open>What the loop over the headers finds.\<close>

definition content_header :: "header \<Rightarrow> bool" where
  "content_header h \<longleftrightarrow> hd_IntName h = HN_CONTENT_LENGTH \<or> hd_IntName h = HN_CONTENT_TYPE"

lemma content_headers_skip:
  "\<not> (hasType \<and> hasLen) \<Longrightarrow> content_headers hs ct hasType hasLen c = content_headers (filter content_header hs) ct hasType hasLen c"
  by (induction hs ct hasType hasLen c rule: content_headers.induct)
    (auto simp: content_header_def Let_def split: option.split sum.split)

lemma content_headers_found:
  assumes "filter content_header hs = [ht, hl] \<or> filter content_header hs = [hl, ht]"
    "hd_IntName ht = HN_CONTENT_TYPE" "hd_IntName hl = HN_CONTENT_LENGTH" "GetULongLong hl = Some (Inr n)"
    "GetContentType ht (qp_BoundaryStr (cn_CurrQuery c)) = Some (ct, bd)"
  shows "content_headers hs CT_UNKNOWN False False c = Ret (ct, True)
    (c\<lparr>cn_ContentLength := n, cn_CurrQuery := (cn_CurrQuery c)\<lparr>qp_BoundaryStr := OnBoundaryParsed bd\<rparr>\<rparr>)"
  using assms content_headers_skip [of False False hs CT_UNKNOWN c] by (auto simp: Let_def)

text \<open>The state in which the content is waited for.\<close>

definition content_start :: "nat \<Rightarrow> string \<Rightarrow> conn \<Rightarrow> conn" where
  "content_start n bd c = c\<lparr>cn_ContentLength := n,
     cn_CurrQuery := (cn_CurrQuery c)\<lparr>qp_BoundaryStr := OnBoundaryParsed bd\<rparr>, cn_Content := None\<rparr>"

lemma content_start_io: "content_start n bd c = io (cn_ReadBuff c) (cn_In c) (cn_SilentTime c) (content_start n bd c)"
  by (simp add: content_start_def io_def)

lemma form_content:
  assumes "filter content_header (cn_HeaderA c) = [ht, hl] \<or> filter content_header (cn_HeaderA c) = [hl, ht]"
    "hd_IntName ht = HN_CONTENT_TYPE" "hd_IntName hl = HN_CONTENT_LENGTH" "GetULongLong hl = Some (Inr n)"
    "GetContentType ht (qp_BoundaryStr (cn_CurrQuery c)) = Some (CT_URL_ENCODED, bd)"
    "0 < n" "n \<le> cc_MaxPostBodyLength (ce_Conf env)" "n < U32" "srb_inv b"
    "request_loop env (ce_Fuel env) n (content_start n bd c) = Ret () (io b i t (content_start n bd c))"
  shows "\<exists>c'. cn_In c' = i \<and> GetAvailableData (cn_ReadBuff c') = []
    \<and> ContentHandler env c = (case AddURLEncoded (GetAvailableData b) ((cn_CurrQuery c)\<lparr>qp_BoundaryStr := OnBoundaryParsed bd\<rparr>) of
         None \<Rightarrow> Undef | Some q \<Rightarrow> Ret True (c'\<lparr>cn_CurrQuery := q\<rparr>))"
proof -
  let ?q = "(cn_CurrQuery c)\<lparr>qp_BoundaryStr := OnBoundaryParsed bd\<rparr>"
  let ?c = "content_start n bd c"
  have H: "content_headers (cn_HeaderA c) CT_UNKNOWN False False c = Ret (CT_URL_ENCODED, True) (c\<lparr>cn_ContentLength := n, cn_CurrQuery := ?q\<rparr>)"
    by (rule content_headers_found [OF assms(1-5)])
  let ?n = "length (GetAvailableData b)"
  let ?c' = "(io b i t ?c)\<lparr>cn_Content := Some (rb_ReadPos b, rb_ReadPos b + ?n), cn_ReadBuff := snd (Consume ?n True b)\<rparr>"
  have "u32_of n = n"
    using assms(8) by (simp add: u32_of_exact)
  then have "ContentHandler env c = (case AddURLEncoded (GetAvailableData b) ?q of None \<Rightarrow> Undef | Some q \<Rightarrow> Ret True (?c'\<lparr>cn_CurrQuery := q\<rparr>))"
    using H assms(6,7,10) by (auto simp: ContentHandler_def Let_def io_def content_start_def split: option.split)
  moreover have "GetAvailableData (cn_ReadBuff ?c') = []" "cn_In ?c' = i"
    using Consume_ready [OF assms(9), of ?n True] by (simp_all add: io_def)
  ultimately show ?thesis
    by blast
qed

text \<open>C18: the wait for the content of a request ends, after at most two rounds more than segments: if the peer
  sends enough, the content is there in one piece and the stream is unchanged, and if it closes before,
  the connection ends with an exception. This holds while the read buffer has room for the missing bytes once
  per segment that is still to come and once more, as every round asks for all of the missing bytes again
  behind the end of the earlier request; beyond that the data is moved, under the header pointers.\<close>

theorem content_awaited:
  assumes "srb_inv (cn_ReadBuff c)" "[] \<notin> set (cn_In c)" "content_room len c" "length (cn_In c) + 1 < fuel"
  shows "if len \<le> length (stream c)
    then \<exists>c'. request_loop env fuel len c = Ret () c' \<and> len \<le> length (GetAvailableData (cn_ReadBuff c')) \<and> stream c' = stream c
    else \<exists>c'. request_loop env fuel len c = Throw c'"
proof -
  have "len \<le> length (GetAvailableData (cn_ReadBuff c)) \<and> 0 < fuel
      \<or> rb_ReqDataEndPos (cn_ReadBuff c) + (length (cn_In c) + 1) * (len - length (GetAvailableData (cn_ReadBuff c))) \<le> length (rb_buf (cn_ReadBuff c))
        \<and> length (cn_In c) + 1 < fuel"
    using assms(3,4) by (auto simp: content_room_def)
  from request_loop_awaited [OF assms(1,2) this, of env "cn_SilentTime c" c] show ?thesis
    using io_self [of c] by (auto simp: stream_def split: if_splits)
qed

definition sample_post :: "string \<Rightarrow> string list \<Rightarrow> conn" where
  "sample_post body segs = (conn_init sample_env (upload_init 0 0) 0 segs)\<lparr>cn_HeaderA :=
     [\<lparr>hd_Name = ''host'', hd_Value = Some ''h'', hd_IntName = HN_HOST\<rparr>,
      \<lparr>hd_Name = ''content-length'', hd_Value = Some ''7'', hd_IntName = HN_CONTENT_LENGTH\<rparr>,
      \<lparr>hd_Name = ''content-type'', hd_Value = Some ''application/x-www-form-urlencoded'', hd_IntName = HN_CONTENT_TYPE\<rparr>],
     cn_ReadBuff := srb_feed body (srb_init (ce_Junk sample_env) HTTP_ReadBuffSize)\<rparr>"

lemma sample_post_facts:
  assumes "length body \<le> 100"
  shows "srb_inv (cn_ReadBuff (sample_post body segs))" "GetAvailableData (cn_ReadBuff (sample_post body segs)) = body"
    "cn_In (sample_post body segs) = segs" "length (rb_buf (cn_ReadBuff (sample_post body segs))) = 16384"
    "rb_ReqDataEndPos (cn_ReadBuff (sample_post body segs)) = length body" "qp_ParamMap (cn_CurrQuery (sample_post body segs)) = Map.empty"
proof -
  let ?b = "srb_init (ce_Junk sample_env) HTTP_ReadBuffSize"
  have r: "length body \<le> srb_room ?b"
    using assms srb_room_eq [OF fresh_read_buffer(1) [of "ce_Junk sample_env"]] by (simp add: srb_init_def HTTP_ReadBuffSize_def)
  show "srb_inv (cn_ReadBuff (sample_post body segs))" "GetAvailableData (cn_ReadBuff (sample_post body segs)) = body"
    "cn_In (sample_post body segs) = segs" "length (rb_buf (cn_ReadBuff (sample_post body segs))) = 16384"
    "rb_ReqDataEndPos (cn_ReadBuff (sample_post body segs)) = length body" "qp_ParamMap (cn_CurrQuery (sample_post body segs)) = Map.empty"
    using srb_feed_inv [OF fresh_read_buffer(1) r] srb_feed_ready [OF fresh_read_buffer(1) r] fresh_read_buffer(2)
      srb_feed_state [OF fresh_read_buffer(1) r] assms
    by (simp_all add: sample_post_def conn_init_def length_mem_write) (simp_all add: srb_init_def length_mem_write HTTP_ReadBuffSize_def qp_init_def)
qed

lemma sample_post_length: "GetULongLong \<lparr>hd_Name = ''content-length'', hd_Value = Some ''7'', hd_IntName = HN_CONTENT_LENGTH\<rparr> = Some (Inr 7)"
proof -
  have "dec 7 = ''7''"
    by (simp add: dec.simps digit_def char_of_def bit_0)
  then show ?thesis
    using strtoull_dec [of 7 "[]"] by (simp add: GetULongLong_def)
qed

lemma sample_post_type:
  "GetContentType \<lparr>hd_Name = ''content-type'', hd_Value = Some ''application/x-www-form-urlencoded'', hd_IntName = HN_CONTENT_TYPE\<rparr> b
     = Some (CT_URL_ENCODED, b)"
proof -
  have "CmpI ''application/x-www-form-urlencoded'' ''application/x-www-form-urlencoded'' = 0"
    by (simp add: CmpI_lex lex_cmp_def)
  then show ?thesis
    by (simp add: GetContentType_def strchr_def cstr_def Let_def)
qed

theorem content_awaited_witness:
  "\<exists>c'. request_loop sample_env 9 7 (sample_post ''a=1&'' [''b='', ''2'']) = Ret () c' \<and> stream c' = ''a=1&b=2''"
  using content_awaited [of "sample_post ''a=1&'' [''b='', ''2'']" 7 9 sample_env] sample_post_facts [of "''a=1&''" "[''b='', ''2'']"]
  by (auto simp: content_room_def stream_def)

text \<open>C17: the parameters of an URL-encoded form reach the query parameters, decoded: the last value given for a
  key wins and the parameters of the URL stay unless the form has the same key. Nothing follows the body,
  and it arrives in segments for which the read buffer has room, once per segment still to come and once
  more, for the bytes that are missing when the headers have been read.\<close>

theorem form_post_received:
  assumes "filter content_header (cn_HeaderA c) = [ht, hl] \<or> filter content_header (cn_HeaderA c) = [hl, ht]"
    "hd_IntName ht = HN_CONTENT_TYPE" "hd_IntName hl = HN_CONTENT_LENGTH" "GetULongLong hl = Some (Inr n)"
    "GetContentType ht (qp_BoundaryStr (cn_CurrQuery c)) = Some (CT_URL_ENCODED, bd)"
    "0 < n" "n \<le> cc_MaxPostBodyLength (ce_Conf env)" "n < U32"
    "srb_inv (cn_ReadBuff c)" "[] \<notin> set (cn_In c)" "length (cn_In c) + 1 < ce_Fuel env" "content_room n c"
    "stream c = url_query safe kvs" "n = length (url_query safe kvs)"
  shows "\<exists>c'. ContentHandler env c = Ret True c' \<and> stream c' = []
    \<and> qp_ParamMap (cn_CurrQuery c') = qp_ParamMap (cn_CurrQuery c) ++ map_of (rev kvs)"
proof -
  let ?q = "(cn_CurrQuery c)\<lparr>qp_BoundaryStr := OnBoundaryParsed bd\<rparr>" and ?t = "url_query safe kvs"
  obtain b i t where L: "request_loop env (ce_Fuel env) n (content_start n bd c) = Ret () (io b i t (content_start n bd c))" "srb_inv b"
      "n \<le> length (GetAvailableData b)" "GetAvailableData b @ concat i = ?t"
  proof -
    have "n \<le> length (GetAvailableData (cn_ReadBuff c) @ concat (cn_In c))"
      using assms(13,14) by (simp add: stream_def)
    moreover have "n \<le> length (GetAvailableData (cn_ReadBuff c)) \<and> 0 < ce_Fuel env
        \<or> rb_ReqDataEndPos (cn_ReadBuff c) + (length (cn_In c) + 1) * (n - length (GetAvailableData (cn_ReadBuff c))) \<le> length (rb_buf (cn_ReadBuff c))
          \<and> length (cn_In c) + 1 < ce_Fuel env"
      using assms(11,12) by (auto simp: content_room_def)
    ultimately show ?thesis
      using request_loop_awaited [OF assms(9,10), of n "ce_Fuel env" env "cn_SilentTime c" "content_start n bd c"] assms(13) that
      unfolding content_start_io [symmetric] stream_def by metis
  qed
  obtain c' where C: "cn_In c' = i" "GetAvailableData (cn_ReadBuff c') = []"
      "ContentHandler env c = (case AddURLEncoded (GetAvailableData b) ?q of None \<Rightarrow> Undef | Some q \<Rightarrow> Ret True (c'\<lparr>cn_CurrQuery := q\<rparr>))"
    using form_content [OF assms(1-8) L(2,1)] by blast
  have "length (GetAvailableData b @ concat i) = n"
    using L(4) assms(14) by simp
  then have "length (concat i) = 0"
    using L(3) by (simp only: length_append)
  then have ci: "concat i = []"
    by (simp only: length_0_conv)
  have "GetAvailableData b = ?t"
    using L(4) unfolding ci by simp
  moreover note ci
  moreover obtain q where "AddURLEncoded ?t ?q = Some q" "qp_ParamMap q = qp_ParamMap ?q ++ map_of (rev kvs)"
    using AddURLEncoded_query by blast
  ultimately show ?thesis
    using C by (intro exI [of _ "c'\<lparr>cn_CurrQuery := q\<rparr>"]) (simp add: stream_def)
qed

theorem form_post_received_witness:
  "\<exists>c'. ContentHandler sample_env (sample_post ''a=1&'' [''b='', ''2'']) = Ret True c'
    \<and> qp_ParamMap (cn_CurrQuery c') ''b'' = Some ''2''"
proof -
  let ?c = "sample_post ''a=1&'' [''b='', ''2'']"
  let ?t = "\<lparr>hd_Name = ''content-type'', hd_Value = Some ''application/x-www-form-urlencoded'', hd_IntName = HN_CONTENT_TYPE\<rparr>"
  let ?l = "\<lparr>hd_Name = ''content-length'', hd_Value = Some ''7'', hd_IntName = HN_CONTENT_LENGTH\<rparr>"
  note F = sample_post_facts [of "''a=1&''" "[''b='', ''2'']", simplified]
  have q: "url_query plain_char [(''a'', ''1''), (''b'', ''2'')] = ''a=1&b=2''"
    by (simp add: url_pair_def url_encode_def enc_char_def plain_char_def)
  have "\<exists>c'. ContentHandler (sample_env\<lparr>ce_Fuel := 10\<rparr>) ?c = Ret True c' \<and> stream c' = []
    \<and> qp_ParamMap (cn_CurrQuery c') = qp_ParamMap (cn_CurrQuery ?c) ++ map_of (rev [(''a'', ''1''), (''b'', ''2'')])"
  proof (rule form_post_received [where safe = plain_char and ht = ?t and hl = ?l and n = 7])
    show "filter content_header (cn_HeaderA ?c) = [?t, ?l] \<or> filter content_header (cn_HeaderA ?c) = [?l, ?t]"
      by (simp add: sample_post_def content_header_def)
    show "GetULongLong ?l = Some (Inr 7)"
      by (rule sample_post_length)
    show "GetContentType ?t (qp_BoundaryStr (cn_CurrQuery ?c)) = Some (CT_URL_ENCODED, qp_BoundaryStr (cn_CurrQuery ?c))"
      by (simp add: sample_post_type sample_post_def conn_init_def qp_init_def)
  qed (use F q in \<open>simp_all add: content_room_def stream_def sample_env_def default_config_def\<close>)
  then show ?thesis
    using F by (auto simp: sample_env_def)
qed

text \<open>C40: a request pipelined behind an URL-encoded form is lost: whatever is in the buffer behind the
  content, the content length notwithstanding, is taken as form data as well.\<close>

theorem form_swallows_pipelined:
  assumes "filter content_header (cn_HeaderA c) = [ht, hl] \<or> filter content_header (cn_HeaderA c) = [hl, ht]"
    "hd_IntName ht = HN_CONTENT_TYPE" "hd_IntName hl = HN_CONTENT_LENGTH" "GetULongLong hl = Some (Inr n)"
    "GetContentType ht (qp_BoundaryStr (cn_CurrQuery c)) = Some (CT_URL_ENCODED, bd)"
    "0 < n" "n \<le> cc_MaxPostBodyLength (ce_Conf env)" "n < U32"
    "srb_inv (cn_ReadBuff c)" "[] \<notin> set (cn_In c)" "length (concat (cn_In c)) < ce_Fuel env"
    "GetAvailableData (cn_ReadBuff c) = body @ pipelined" "n = length body"
    "AddURLEncoded (body @ pipelined) ((cn_CurrQuery c)\<lparr>qp_BoundaryStr := OnBoundaryParsed bd\<rparr>) = Some q"
  shows "\<exists>c'. ContentHandler env c = Ret True c' \<and> stream c' = concat (cn_In c) \<and> cn_CurrQuery c' = q"
proof -
  let ?c = "content_start n bd c"
  obtain f where f: "ce_Fuel env = Suc f"
    using assms(11) by (cases "ce_Fuel env") auto
  have "n \<le> GetAvailableDataLength (cn_ReadBuff c)"
    using length_GetAvailableData [OF assms(9)] assms(12,13) by simp
  then have "request_loop env (ce_Fuel env) n (io (cn_ReadBuff c) (cn_In c) (cn_SilentTime c) ?c)
      = Ret () (io (cn_ReadBuff c) (cn_In c) (cn_SilentTime c) ?c)"
    using f RequestData_enough [of n "cn_ReadBuff c" "ce_Junk env"] by (simp add: pointers_kept_def)
  then have "request_loop env (ce_Fuel env) n ?c = Ret () (io (cn_ReadBuff c) (cn_In c) (cn_SilentTime c) ?c)"
    by (simp add: content_start_io [symmetric])
  from form_content [OF assms(1-9) this] show ?thesis
    using assms(12,14) by (force simp: stream_def)
qed

theorem form_swallows_pipelined_witness:
  "\<exists>c'. ContentHandler sample_env (sample_post ''a=1&b=2GET / HTTP/1.1'' []) = Ret True c' \<and> stream c' = []
    \<and> qp_ParamMap (cn_CurrQuery c') ''b'' = Some ''2GET / HTTP/1.1''"
proof -
  let ?c = "sample_post (''a=1&b=2'' @ ''GET / HTTP/1.1'') []"
  let ?t = "\<lparr>hd_Name = ''content-type'', hd_Value = Some ''application/x-www-form-urlencoded'', hd_IntName = HN_CONTENT_TYPE\<rparr>"
  let ?l = "\<lparr>hd_Name = ''content-length'', hd_Value = Some ''7'', hd_IntName = HN_CONTENT_LENGTH\<rparr>"
  let ?q = "(cn_CurrQuery ?c)\<lparr>qp_BoundaryStr := OnBoundaryParsed []\<rparr>"
  note F = sample_post_facts [of "''a=1&b=2'' @ ''GET / HTTP/1.1''" "[]", simplified]
  obtain q where q: "AddURLEncoded (''a=1&b=2'' @ ''GET / HTTP/1.1'') ?q = Some q" "qp_ParamMap q ''b'' = Some ''2GET / HTTP/1.1''"
    by (auto simp: AddURLEncoded_def)
  have "\<exists>c'. ContentHandler sample_env ?c = Ret True c' \<and> stream c' = concat (cn_In ?c) \<and> cn_CurrQuery c' = q"
  proof (rule form_swallows_pipelined [where ht = ?t and hl = ?l and n = 7])
    show "filter content_header (cn_HeaderA ?c) = [?t, ?l] \<or> filter content_header (cn_HeaderA ?c) = [?l, ?t]"
      by (simp add: sample_post_def content_header_def)
    show "GetULongLong ?l = Some (Inr 7)"
      by (rule sample_post_length)
    show "GetContentType ?t (qp_BoundaryStr (cn_CurrQuery ?c)) = Some (CT_URL_ENCODED, [])"
      by (simp add: sample_post_type sample_post_def conn_init_def qp_init_def)
    show "AddURLEncoded (''a=1&b=2'' @ ''GET / HTTP/1.1'') ?q = Some q"
      by (rule q(1))
  qed (use F in \<open>simp_all add: sample_env_def default_config_def\<close>)
  then show ?thesis
    using F q(2) by auto
qed


section \<open>Between requests and at the end\<close>

lemma HeaderHandler_blank:
  assumes "between (CRLF @ rest) c"
  shows "\<exists>b i t. HeaderHandler c = Ret True (io b i t c) \<and> GetAvailableData b @ concat i = rest"
proof -
  have "hdr_ref (CRLF @ rest) False [] c = Stop True rest c"
    by (simp add: CRLF_def)
  moreover have "length (GetAvailableData (cn_ReadBuff c) @ concat (cn_In c)) = length (CRLF @ rest)"
    using assms by (simp only: between_def)
  ultimately show ?thesis
    using HeaderHandler_stream [of c rest c] assms unfolding between_def by auto
qed

text \<open>Note: an empty line before a request line is served as a request of its own: the application gets
  the resource of the previous request once more, with an unknown method and without headers,
  because the reset does not clear the resource.\<close>

theorem blank_line_served:
  assumes "between (CRLF @ rest) (ResetRequestData env c)" "\<forall>n rq. ce_Create env n rq = Created (app (rq_Method rq) (rq_Resource rq) (qp_ParamMap (rq_Query rq)))" "\<not> ce_CORS env"
  shows "\<exists>c'. HeaderHandler (ResetRequestData env c) = Ret True c' \<and> cn_HeaderA c' = []
    \<and> GetAvailableData (cn_ReadBuff c') @ concat (cn_In c') = rest
    \<and> choose_response env n (conn_request c') = Some (Responder (app METHOD_UNKNOWN (cn_CurrResource c) Map.empty) True)"
proof -
  obtain b i t where H: "HeaderHandler (ResetRequestData env c) = Ret True (io b i t (ResetRequestData env c))"
      "GetAvailableData b @ concat i = rest"
    using HeaderHandler_blank [OF assms(1)] by blast
  have "conn_request (io b i t (ResetRequestData env c)) = (conn_request (io b i t (ResetRequestData env c)))\<lparr>rq_Method := METHOD_UNKNOWN\<rparr>"
    by (simp add: conn_request_def io_def ResetRequestData_def)
  then have "choose_response env n (conn_request (io b i t (ResetRequestData env c)))
      = Some (Responder (app METHOD_UNKNOWN (cn_CurrResource c) Map.empty) True)"
    using assms(2,3) by (simp add: choose_response_def conn_request_def io_def ResetRequestData_def move_assign_def qp_init_def)
  then show ?thesis
    using H by (auto simp: ResetRequestData_def)
qed

theorem blank_line_served_witness:
  "\<exists>c'. HeaderHandler (ResetRequestData (hello_env 5) ((conn_init (hello_env 5) (upload_init 0 0) 0 [CRLF])\<lparr>cn_CurrResource := ''/delete''\<rparr>)) = Ret True c'
    \<and> choose_response (hello_env 5) 2 (conn_request c') = Some (Responder (hello_response 5) True)"
proof -
  let ?c = "(conn_init (hello_env 5) (upload_init 0 0) 0 [CRLF])\<lparr>cn_CurrResource := ''/delete''\<rparr>"
  have "between (CRLF @ []) (conn_init (hello_env 5) (upload_init 0 0) 0 [CRLF])"
    using between_init [of "[CRLF]" "hello_env 5" "upload_init 0 0" 0] by (simp add: CRLF_def HTTP_ReadBuffSize_def)
  then have "between (CRLF @ []) (ResetRequestData (hello_env 5) ?c)"
    by (intro ResetRequestData_keeps(1)) (simp add: between_def)
  then show ?thesis
    using blank_line_served [of "[]" "hello_env 5" ?c "\<lambda>_ _ _. hello_response 5" 2] by (auto simp: hello_env_simps)
qed

text \<open>Note: the upload limits the server was configured with have no effect: the protocol behaves the same
  for any two settings, since the parameters and their limits are replaced before each request.\<close>

theorem upload_config_ignored:
  assumes "up_Files u = up_Files u'" "up_Created u = up_Created u'"
  shows "ProtocolHandler env fuel (conn_init env u junk segs) = ProtocolHandler env fuel (conn_init env u' junk' segs)"
proof (cases fuel)
  case (Suc f)
  have "ResetRequestData env (conn_init env u junk segs) = ResetRequestData env (conn_init env u' junk' segs)"
    using assms by (simp add: ResetRequestData_def conn_init_def default_upload_def move_assign_def qp_init_def)
  then show ?thesis
    by (simp add: ProtocolHandler_def Suc)
qed (simp add: ProtocolHandler_def)

theorem upload_config_ignored_witness:
  "ProtocolHandler sample_env 2 (conn_init sample_env (upload_init 0 0) 0 [''GET'']) =
    ProtocolHandler sample_env 2 (conn_init sample_env (upload_init 100 1000) 3 [''GET''])"
  by (rule upload_config_ignored) (simp_all add: upload_init_def)

text \<open>The owner's timer, called once per step interval while nothing is read or written.\<close>

fun silent_steps :: "conn_config \<Rightarrow> nat \<Rightarrow> nat \<Rightarrow> conn \<Rightarrow> (bool \<times> nat option) list \<times> conn" where
  "silent_steps conf d 0 c = ([], c)"
| "silent_steps conf d (Suc n) c =
     (let (r, c1) = HttpOnStep conf d c; (rs, c2) = silent_steps conf d n c1 in (r # rs, c2))"

lemma silent_steps_time:
  assumes "cn_NextConn c = None" "cn_SilentTime c + n * d < U32"
  shows "silent_steps conf d n c =
    (map (\<lambda>i. (\<not> (cn_SilentTime c + Suc i * d > cc_MaxSilentTime conf \<and> cn_IsDeletable c), None)) [0..<n],
     c\<lparr>cn_SilentTime := cn_SilentTime c + n * d,
       cn_Open := (cn_Open c \<and> (\<forall>i < n. cn_SilentTime c + Suc i * d \<le> cc_MaxSilentTime conf))\<rparr>)"
  using assms
proof (induction n arbitrary: c)
  case (Suc n)
  let ?t = "cn_SilentTime c + d" and ?M = "cc_MaxSilentTime conf"
  have t: "u32_add (cn_SilentTime c) d = ?t"
    using Suc.prems(2) by (intro u32_add_exact) simp
  let ?c1 = "c\<lparr>cn_SilentTime := ?t, cn_Open := (cn_Open c \<and> ?t \<le> ?M)\<rparr>"
  have s: "HttpOnStep conf d c = ((\<not> (?t > ?M \<and> cn_IsDeletable c), None), ?c1)"
    using t Suc.prems(1) by (auto simp: HttpOnStep_def Let_def)
  have r: "silent_steps conf d n ?c1 = (map (\<lambda>i. (\<not> (?t + Suc i * d > ?M \<and> cn_IsDeletable c), None)) [0..<n],
      ?c1\<lparr>cn_SilentTime := ?t + n * d, cn_Open := (cn_Open ?c1 \<and> (\<forall>i < n. ?t + Suc i * d \<le> ?M))\<rparr>)"
    using Suc.IH [of ?c1] Suc.prems by simp
  have l: "map f [0..<Suc n] = f 0 # map (\<lambda>i. f (Suc i)) [0..<n]" for f :: "nat \<Rightarrow> bool \<times> nat option"
    by (simp only: upt_conv_Cons [OF zero_less_Suc] map_Suc_upt [symmetric] list.map) (simp add: comp_def map_Suc_upt [symmetric] del: map_Suc_upt)
  show ?case
    unfolding silent_steps.simps s Let_def r prod.case l by (simp add: All_less_Suc2 add.assoc)
qed simp

text \<open>C20: a connection on which nothing is read or written is closed in time and then reported for
  removal: once its silent time exceeds the limit its socket is closed, every step from then on
  reports it as soon as its coroutine has ended, and no step before does.\<close>

theorem silent_connection_closed:
  assumes "cn_NextConn c = None" "0 < n" "cn_SilentTime c + n * d < U32" "cn_SilentTime c + n * d > cc_MaxSilentTime conf"
  shows "\<not> cn_Open (snd (silent_steps conf d n c))
    \<and> (\<forall>i < n. fst (fst (silent_steps conf d n c) ! i) =
          (cn_SilentTime c + Suc i * d \<le> cc_MaxSilentTime conf \<or> \<not> cn_IsDeletable c))"
proof -
  obtain m where m: "n = Suc m"
    using assms(2) by (cases n) auto
  then have "\<exists>i < n. \<not> cn_SilentTime c + Suc i * d \<le> cc_MaxSilentTime conf"
    using assms(4) by (intro exI [of _ m]) simp
  then show ?thesis
    unfolding silent_steps_time [OF assms(1,3)] by (auto simp: not_le)
qed

theorem silent_connection_closed_witness:
  "\<not> cn_Open (snd (silent_steps default_config 1 31 (conn_init sample_env (upload_init 0 0) 0 [])))"
  using silent_connection_closed [of "conn_init sample_env (upload_init 0 0) 0 []" 31 1 default_config]
  by (simp add: conn_init_def default_config_def)

text \<open>C39: a connection that was upgraded hands its successor to the server exactly once, in the next
  step, and is closed in the same step, whatever its silent time was.\<close>

theorem upgrade_handed_over_once:
  assumes "cn_NextConn c = Some s" "0 < d" "cc_MaxSilentTime conf + d < U32"
  shows "fst (HttpOnStep conf d c) = (\<not> cn_IsDeletable c, Some s) \<and> \<not> cn_Open (snd (HttpOnStep conf d c))
    \<and> (cc_MaxSilentTime conf + d + n * d < U32 \<longrightarrow>
        (\<forall>r \<in> set (fst (silent_steps conf d n (snd (HttpOnStep conf d c)))). r = (\<not> cn_IsDeletable c, None)))"
proof -
  have t: "u32_add (cc_MaxSilentTime conf) d = cc_MaxSilentTime conf + d"
    using assms(3) by (rule u32_add_exact)
  let ?c = "snd (HttpOnStep conf d c)"
  have c: "cn_NextConn ?c = None" "cn_SilentTime ?c = cc_MaxSilentTime conf + d" "cn_IsDeletable ?c = cn_IsDeletable c"
      "fst (HttpOnStep conf d c) = (\<not> cn_IsDeletable c, Some s)" "\<not> cn_Open ?c"
    using assms(1,2) t by (simp_all add: HttpOnStep_def Let_def)
  have "r = (\<not> cn_IsDeletable c, None)"
    if "cc_MaxSilentTime conf + d + n * d < U32" "r \<in> set (fst (silent_steps conf d n ?c))" for r
    using that(2) silent_steps_time [OF c(1), of n d conf] that(1) assms(2) unfolding c(2,3) by auto
  then show ?thesis
    using c(4,5) by blast
qed

theorem upgrade_handed_over_once_witness:
  "fst (HttpOnStep default_config 1 ((conn_init sample_env (upload_init 0 0) 0 [])\<lparr>cn_NextConn := Some 7\<rparr>)) = (False, Some 7)"
  using upgrade_handed_over_once [of "(conn_init sample_env (upload_init 0 0) 0 [])\<lparr>cn_NextConn := Some 7\<rparr>" 7 1 default_config 0]
  by (simp add: conn_init_def default_config_def)

end
