(* ===== verification/WSHandshake.thy ===== *)
theory WSHandshake
  imports HttpProtocol WSSend
begin

text \<open>
  The WebSocket handshake, WebSocket/WSRespSource.cpp: the base64 encoder, the response with the
  accept key, the test of the request headers and the creation of the message handler, and the
  echo source RespSources/WSEchoRespSource.cpp. SHA-1 is not part of the repository and is the
  parameter \<open>we_sha1\<close>; the application's \<open>CreateMsgHandler\<close> is a parameter too.
\<close>

section \<open>Base64\<close>

definition Bin6ToBase64 :: "byte \<Rightarrow> char" where
  "Bin6ToBase64 src =
     (if src < 26 then char_of (65 + unat src)
      else if src < 52 then char_of (97 - 26 + unat src)
      else if src < 62 then char_of (48 + unat src - 52)
      else if src = 62 then CHR ''+''
      else CHR ''/'')"

text \<open>One round of the loop: \<open>Mod3\<close>, which starts as -1, \<open>Acc\<close>, and the output so far.\<close>

definition b64_step :: "byte \<Rightarrow> nat \<times> byte \<times> string \<Rightarrow> nat \<times> byte \<times> string" where
  "b64_step v = (\<lambda>(mod3, acc, out).
     let m = u32_add mod3 1
     in if m = 3 \<or> m = 0 then (0, push_bit 4 (v AND 3), out @ [Bin6ToBase64 (drop_bit 2 v)])
        else if m = 1 then
          let a = acc OR drop_bit 4 (v AND 0xF0) in (1, push_bit 2 (v AND 0xF), out @ [Bin6ToBase64 a])
        else if m = 2 then
          let a = acc OR drop_bit 6 (v AND 0xC0) in (2, a, out @ [Bin6ToBase64 a, Bin6ToBase64 (v AND 0x3F)])
        else (m, acc, out))"

definition Base64Encode :: "byte list \<Rightarrow> string" where
  "Base64Encode src =
     (let (m, acc, out) = fold b64_step src (U32 - 1, 0, [])
      in if m \<noteq> 2 then out @ [Bin6ToBase64 acc] @ (if m = 0 then ''=='' else ''='') else out)"

section \<open>The response of the handshake\<close>

definition ConnUpgradeVal :: string where "ConnUpgradeVal = ''upgrade''"
definition WebSocketGUID :: string where "WebSocketGUID = ''258EAFA5-E914-47DA-95CA-C5AB0DC85B11''"
definition UpgradeWebSocketVal :: string where "UpgradeWebSocketVal = ''websocket''"

record ws_response =
  wr_SecWebSocketAccept :: string
  wr_SubProtocol :: string
  wr_MyHandler :: nat

text \<open>The constructor; \<open>sha1\<close> gives the 20 bytes of the digest, and the handler is named by a number.\<close>

definition WSResponse :: "(string \<Rightarrow> byte list) \<Rightarrow> nat \<Rightarrow> string \<Rightarrow> string \<Rightarrow> ws_response" where
  "WSResponse sha1 handler key subProtocol =
     \<lparr>wr_SecWebSocketAccept = Base64Encode (sha1 (cstr key @ WebSocketGUID)), wr_SubProtocol = cstr subProtocol, wr_MyHandler = handler\<rparr>"

definition WS_GetExtraHeader :: "ws_response \<Rightarrow> nat \<Rightarrow> (string \<times> string) option" where
  "WS_GetExtraHeader w i =
     (if i = 0 then Some (GetHeaderName HH_SEC_WEBSOCKET_ACCEPT, wr_SecWebSocketAccept w)
      else if i = 1 then Some (GetHeaderName HN_CONNECTION, ConnUpgradeVal)
      else if i = 2 then Some (GetHeaderName HH_UPGRADE, UpgradeWebSocketVal)
      else if i = 3 \<and> wr_SubProtocol w \<noteq> [] then Some (GetHeaderName HH_SEC_WEBSOCKET_PROTOCOL, wr_SubProtocol w)
      else None)"

definition WS_GetExtraHeaderCount :: "ws_response \<Rightarrow> nat" where
  "WS_GetExtraHeaderCount w = (if wr_SubProtocol w = [] then 3 else 4)"

definition WS_Read :: "unit \<Rightarrow> nat \<Rightarrow> (string \<times> bool \<times> unit) option" where
  "WS_Read u maxLength = Some ([], True, u)"

text \<open>The response object; \<open>Upgrade\<close> creates the connection of the handler.\<close>

definition ws_http_response :: "ws_response \<Rightarrow> response" where
  "ws_http_response w = \<lparr>rp_ResponseCode = RC_SWITCH_PROT, rp_ContentType = ''text/plain'', rp_Charset = None, rp_Length = 0,
     rp_ExtraHeaders = map (WS_GetExtraHeader w) [0..<WS_GetExtraHeaderCount w],
     rp_Read = reader_of WS_Read (), rp_Upgrade = Some (wr_MyHandler w)\<rparr>"

section \<open>The response source\<close>

text \<open>\<open>CreateMsgHandler\<close> gets the resource, the parameters, the offered subprotocols and the origin; it
  gives a handler or null, and what it leaves of the subprotocols.\<close>

record ws_env =
  we_sha1 :: "string \<Rightarrow> byte list"
  we_CreateMsgHandler :: "string \<Rightarrow> query_params \<Rightarrow> string list \<Rightarrow> string option \<Rightarrow> nat option \<times> string list"

datatype ws_log = OnWebSocket string bool "string option" "string option"

record ws_headers =
  wh_Upgrade :: "header option"
  wh_Key :: "header option"
  wh_Version :: "header option"
  wh_Protocol :: "header option"
  wh_Origin :: "header option"

definition ws_header :: "header \<Rightarrow> ws_headers \<Rightarrow> ws_headers" where
  "ws_header h w =
     (if hd_IntName h = HH_UPGRADE then w\<lparr>wh_Upgrade := Some h\<rparr>
      else if hd_IntName h = HH_SEC_WEBSOCKET_KEY then w\<lparr>wh_Key := Some h\<rparr>
      else if hd_IntName h = HH_SEC_WEBSCOKET_VERSION then w\<lparr>wh_Version := Some h\<rparr>
      else if hd_IntName h = HH_SEC_WEBSOCKET_PROTOCOL then w\<lparr>wh_Protocol := Some h\<rparr>
      else if hd_IntName h = HH_ORIGIN then w\<lparr>wh_Origin := Some h\<rparr>
      else w)"

definition no_ws_headers :: ws_headers where
  "no_ws_headers = \<lparr>wh_Upgrade = None, wh_Key = None, wh_Version = None, wh_Protocol = None, wh_Origin = None\<rparr>"

text \<open>The test for a handshake; \<open>None\<close> is undefined behaviour: a null value, or a version number
  \<open>atoi\<close> cannot represent.\<close>

definition ws_version_ok :: "string \<Rightarrow> bool option" where
  "ws_version_ok v = (if atoi v < - (2 ^ 31) \<or> 2 ^ 31 \<le> atoi v then None else Some (atoi v = 13))"

definition is_handshake :: "ws_headers \<Rightarrow> bool option" where
  "is_handshake w = (case wh_Upgrade w of
      None \<Rightarrow> Some False
    | Some u \<Rightarrow> Option.bind (hd_Value u) (\<lambda>v.
        if CmpI_range v UpgradeWebSocketVal \<noteq> 0 \<or> wh_Key w = None then Some False
        else (case wh_Version w of
                None \<Rightarrow> Some False
              | Some h \<Rightarrow> Option.bind (hd_Value h) ws_version_ok)))"

definition CreateWSResponse ::
  "ws_env \<Rightarrow> string \<Rightarrow> query_params \<Rightarrow> header list \<Rightarrow> bool \<Rightarrow> ((bool \<times> response option) \<times> ws_log list) option" where
  "CreateWSResponse we resource query headerA logFailed =
     (let w = fold ws_header headerA no_ws_headers; origin = Option.bind (wh_Origin w) hd_Value;
          failed = (if logFailed then [OnWebSocket resource False origin None] else [])
      in Option.bind (is_handshake w) (\<lambda>valid.
           if \<not> valid then Some ((False, None), failed)
           else Option.bind (case wh_Protocol w of None \<Rightarrow> Some []
                             | Some h \<Rightarrow> map_option (\<lambda>v. ExtractTrimWSTokens v (CHR '','')) (hd_Value h)) (\<lambda>offered.
             case we_CreateMsgHandler we resource query offered origin of
               (None, _) \<Rightarrow> Some ((True, None), failed)
             | (Some h, subProtA) \<Rightarrow>
                 (case Option.bind (wh_Key w) hd_Value of
                    None \<Rightarrow> None
                  | Some key \<Rightarrow>
                      Some ((True, Some (ws_http_response (WSResponse (we_sha1 we) h key
                               (if length subProtA = 1 then hd subProtA else [])))),
                        [OnWebSocket resource True origin (if length subProtA = 1 then Some (hd subProtA) else None)])))))"

text \<open>\<open>Create\<close>: every failure is answered with a forbidden page. Undefined behaviour is passed on as a
  null response, which the connection uses without a test.\<close>

definition WS_Create :: "ws_env \<Rightarrow> request \<Rightarrow> created \<times> ws_log list" where
  "WS_Create we rq =
     (case CreateWSResponse we (rq_Resource rq) (rq_Query rq) (rq_HeaderA rq) True of
        None \<Rightarrow> (CreatedNull, [])
      | Some ((_, Some r), log) \<Rightarrow> (Created r, log)
      | Some ((_, None), log) \<Rightarrow> (Created (error_response (CommonError_Response (rq_Resource rq) None RC_FORBIDDEN)), log))"

section \<open>The echo source\<close>

definition Echo_CreateMsgHandler :: "nat \<Rightarrow> string \<Rightarrow> query_params \<Rightarrow> string list \<Rightarrow> string option \<Rightarrow> nat option \<times> string list" where
  "Echo_CreateMsgHandler handler resource query subProtocolA origin =
     (Some handler, if list_ex (\<lambda>p. p = ''echo'') subProtocolA then [''echo''] else [])"

section \<open>Base64 as in RFC 4648\<close>

text \<open>The encoding of RFC 4648 on the octets as numbers.\<close>

definition b64_digit :: "nat \<Rightarrow> char" where
  "b64_digit n = ''ABCDEFGHIJKLMNOPQRSTUVWXYZabcdefghijklmnopqrstuvwxyz0123456789+/'' ! n"

fun rfc_base64 :: "nat list \<Rightarrow> string" where
  "rfc_base64 [] = []"
| "rfc_base64 [a] = [b64_digit (a div 4), b64_digit (a mod 4 * 16)] @ ''==''"
| "rfc_base64 [a, b] = [b64_digit (a div 4), b64_digit (a mod 4 * 16 + b div 16), b64_digit (b mod 16 * 4)] @ ''=''"
| "rfc_base64 (a # b # c # r) =
     [b64_digit (a div 4), b64_digit (a mod 4 * 16 + b div 16), b64_digit (b mod 16 * 4 + c div 64), b64_digit (c mod 64)] @ rfc_base64 r"

lemma Bin6_digit:
  assumes "unat x < 64"
  shows "Bin6ToBase64 x = b64_digit (unat x)"
proof -
  have "list_all (\<lambda>n. Bin6ToBase64 (word_of_nat n) = b64_digit n) [0..<64]"
    by code_simp
  then have "\<forall>n \<in> {0..<64}. Bin6ToBase64 (word_of_nat n) = b64_digit n"
    by (simp add: list_all_iff)
  from bspec [OF this, of "unat x"] show ?thesis
    using assms by simp
qed

lemma or_add:
  assumes "b < 2 ^ k"
  shows "(a * 2 ^ k) OR b = a * 2 ^ k + (b::nat)"
proof (rule disjunctive_add [symmetric])
  fix n
  have "bit (a * 2 ^ k) n \<Longrightarrow> k \<le> n"
    using bit_push_bit_iff [of k a n] by (simp add: push_bit_eq_mult)
  moreover have "bit b n \<Longrightarrow> n < k"
    using assms take_bit_nat_eq_self [of b k] bit_take_bit_iff [of k b n] by simp
  ultimately show "\<not> bit (a * 2 ^ k) n \<or> \<not> bit b n"
    by linarith
qed

lemma and_low: "unat (v AND 3) = unat v mod 4" "unat (v AND 0xF) = unat v mod 16" "unat (v AND 0x3F) = unat v mod 64" for v :: byte
proof -
  have m: "(3::byte) = mask 2" "(0xF::byte) = mask 4" "(0x3F::byte) = mask 6"
    by (simp_all add: mask_eq_exp_minus_1)
  show "unat (v AND 3) = unat v mod 4" "unat (v AND 0xF) = unat v mod 16" "unat (v AND 0x3F) = unat v mod 64"
    unfolding m by (simp_all only: take_bit_eq_mask [symmetric] unsigned_take_bit_eq) (simp_all add: take_bit_eq_mod)
qed

lemma and_high: "drop_bit 4 (v AND 0xF0) = drop_bit 4 v" "drop_bit 6 (v AND 0xC0) = drop_bit 6 v" for v :: byte
proof -
  have m: "(0xF0::byte) = push_bit 4 (mask 4)" "(0xC0::byte) = push_bit 6 (mask 2)"
    by (simp_all add: mask_eq_exp_minus_1)
  show "drop_bit 4 (v AND 0xF0) = drop_bit 4 v" "drop_bit 6 (v AND 0xC0) = drop_bit 6 v"
    unfolding m by (rule bit_word_eqI, auto simp: bit_simps dest: bit_imp_le_length)+
qed

lemma unat_shifts: "unat (drop_bit k v) = unat v div 2 ^ k" "unat (v::byte) * 2 ^ k < 256 \<Longrightarrow> unat (push_bit k v) = unat v * 2 ^ k"
proof -
  have "unat v < 256"
    using unsigned_less [of v] by simp
  then show "unat (drop_bit k v) = unat v div 2 ^ k" "unat v * 2 ^ k < 256 \<Longrightarrow> unat (push_bit k v) = unat v * 2 ^ k"
    by (simp_all only: unsigned_drop_bit_eq unsigned_push_bit_eq) (simp_all add: drop_bit_eq_div push_bit_eq_mult take_bit_eq_mod)
qed

lemma b64_digits:
  "Bin6ToBase64 (drop_bit 2 a) = b64_digit (unat a div 4)"
  "Bin6ToBase64 (push_bit 4 (a AND 3)) = b64_digit (unat a mod 4 * 16)"
  "Bin6ToBase64 (push_bit 4 (a AND 3) OR drop_bit 4 (b AND 0xF0)) = b64_digit (unat a mod 4 * 16 + unat b div 16)"
  "Bin6ToBase64 (push_bit 2 (b AND 0xF)) = b64_digit (unat b mod 16 * 4)"
  "Bin6ToBase64 (push_bit 2 (b AND 0xF) OR drop_bit 6 (c AND 0xC0)) = b64_digit (unat b mod 16 * 4 + unat c div 64)"
  "Bin6ToBase64 (c AND 0x3F) = b64_digit (unat c mod 64)"
proof -
  have l: "unat a < 256" "unat b < 256" "unat c < 256"
    using unsigned_less [of a] unsigned_less [of b] unsigned_less [of c] by simp_all
  have m: "unat a mod 4 < 4" "unat b mod 16 < 16" "unat c mod 64 < 64"
    by simp_all
  have p: "unat (push_bit 4 (a AND 3)) = unat a mod 4 * 2 ^ 4" "unat (push_bit 2 (b AND 0xF)) = unat b mod 16 * 2 ^ 2"
    using m unat_shifts(2) [of "a AND 3" 4] unat_shifts(2) [of "b AND 0xF" 2] unfolding and_low by simp_all
  have d: "unat (drop_bit 4 (b AND 0xF0)) = unat b div 16" "unat (drop_bit 6 (c AND 0xC0)) = unat c div 64" "unat (drop_bit 2 a) = unat a div 4"
    unfolding and_high unat_shifts(1) by simp_all
  have o: "unat (push_bit 4 (a AND 3) OR drop_bit 4 (b AND 0xF0)) = unat a mod 4 * 2 ^ 4 + unat b div 16"
    "unat (push_bit 2 (b AND 0xF) OR drop_bit 6 (c AND 0xC0)) = unat b mod 16 * 2 ^ 2 + unat c div 64"
    unfolding unsigned_or_eq p d using l or_add [of "unat b div 16" 4] or_add [of "unat c div 64" 2] by simp_all
  show "Bin6ToBase64 (drop_bit 2 a) = b64_digit (unat a div 4)"
    using Bin6_digit [of "drop_bit 2 a"] l d by simp
  show "Bin6ToBase64 (push_bit 4 (a AND 3)) = b64_digit (unat a mod 4 * 16)"
    using Bin6_digit [of "push_bit 4 (a AND 3)"] m unfolding p by simp
  show "Bin6ToBase64 (push_bit 4 (a AND 3) OR drop_bit 4 (b AND 0xF0)) = b64_digit (unat a mod 4 * 16 + unat b div 16)"
    using Bin6_digit [of "push_bit 4 (a AND 3) OR drop_bit 4 (b AND 0xF0)"] m l unfolding o by simp
  show "Bin6ToBase64 (push_bit 2 (b AND 0xF)) = b64_digit (unat b mod 16 * 4)"
    using Bin6_digit [of "push_bit 2 (b AND 0xF)"] m unfolding p by simp
  show "Bin6ToBase64 (push_bit 2 (b AND 0xF) OR drop_bit 6 (c AND 0xC0)) = b64_digit (unat b mod 16 * 4 + unat c div 64)"
    using Bin6_digit [of "push_bit 2 (b AND 0xF) OR drop_bit 6 (c AND 0xC0)"] m l unfolding o by simp
  show "Bin6ToBase64 (c AND 0x3F) = b64_digit (unat c mod 64)"
    using Bin6_digit [of "c AND 0x3F"] m unfolding and_low by simp
qed

definition acc4 :: "byte \<Rightarrow> byte" where "acc4 v = push_bit 4 (v AND 3)"
definition acc2 :: "byte \<Rightarrow> byte" where "acc2 v = push_bit 2 (v AND 0xF)"

lemma b64_steps:
  "m = U32 - 1 \<or> m = 2 \<Longrightarrow> b64_step v (m, acc, out) = (0, acc4 v, out @ [b64_digit (unat v div 4)])"
  "b64_step v (0, acc4 u, out) = (1, acc2 v, out @ [b64_digit (unat u mod 4 * 16 + unat v div 16)])"
  "b64_step v (1, acc2 u, out) = (2, acc2 u OR drop_bit 6 (v AND 0xC0), out @ [b64_digit (unat u mod 16 * 4 + unat v div 64), b64_digit (unat v mod 64)])"
  "Bin6ToBase64 (acc4 v) = b64_digit (unat v mod 4 * 16)" "Bin6ToBase64 (acc2 v) = b64_digit (unat v mod 16 * 4)"
proof -
  have u: "u32_add (U32 - 1) 1 = 0" "u32_add 2 1 = 3" "u32_add 0 1 = 1" "u32_add 1 1 = 2"
    by (simp_all add: u32_add_def)
  show "m = U32 - 1 \<or> m = 2 \<Longrightarrow> b64_step v (m, acc, out) = (0, acc4 v, out @ [b64_digit (unat v div 4)])"
    unfolding b64_step_def prod.case Let_def acc4_def b64_digits(1) by (elim disjE) (simp_all only: u, simp_all)
  show "b64_step v (0, acc4 u, out) = (1, acc2 v, out @ [b64_digit (unat u mod 4 * 16 + unat v div 16)])"
    unfolding b64_step_def prod.case Let_def acc4_def acc2_def u b64_digits(3) by simp
  show "b64_step v (1, acc2 u, out) = (2, acc2 u OR drop_bit 6 (v AND 0xC0), out @ [b64_digit (unat u mod 16 * 4 + unat v div 64), b64_digit (unat v mod 64)])"
    unfolding b64_step_def prod.case Let_def acc2_def u b64_digits(5,6) by simp
  show "Bin6ToBase64 (acc4 v) = b64_digit (unat v mod 4 * 16)" "Bin6ToBase64 (acc2 v) = b64_digit (unat v mod 16 * 4)"
    unfolding acc4_def acc2_def by (rule b64_digits)+
qed

definition b64_end :: "nat \<times> byte \<times> string \<Rightarrow> string" where
  "b64_end = (\<lambda>(m, acc, out). if m \<noteq> 2 then out @ [Bin6ToBase64 acc] @ (if m = 0 then ''=='' else ''='') else out)"

lemma Base64Encode_loop:
  assumes "m = U32 - 1 \<and> src \<noteq> [] \<or> m = 2"
  shows "b64_end (fold b64_step src (m, acc, out)) = out @ rfc_base64 (map unat src)"
  using assms
proof (induction "map unat src" arbitrary: m acc out src rule: rfc_base64.induct)
  case 1
  then show ?case by (simp add: b64_end_def)
next
  case (2 a)
  then obtain x where "src = [x]" by auto
  then show ?case
    using 2 b64_steps(1) [of m x acc out] by (auto simp: b64_steps(4) b64_end_def)
next
  case (3 a b)
  then obtain x y where "src = [x, y]" by auto
  then show ?case
    using 3 b64_steps(1) [of m x acc out] by (auto simp: b64_steps(2,5) b64_end_def)
next
  case (4 a b c r)
  then obtain x y z s where s: "src = x # y # z # s" "r = map unat s"
    by (auto simp: Cons_eq_map_conv)
  have f: "fold b64_step src (m, acc, out) = fold b64_step s (2, acc2 y OR drop_bit 6 (z AND 0xC0), out @ rfc_base64 [unat x, unat y, unat z])"
    using 4(3) s b64_steps(1) [of m x acc out] b64_steps(2) [of y x] b64_steps(3) [of z y] by auto
  show ?case
    unfolding f using 4(1) [OF s(2), of 2] s by simp
qed

lemma Base64Encode_rfc: "src \<noteq> [] \<Longrightarrow> Base64Encode src = rfc_base64 (map unat src)"
  using Base64Encode_loop [of "U32 - 1" src 0 "[]"] by (simp add: Base64Encode_def b64_end_def)


section \<open>A successful handshake\<close>

text \<open>The last header with a name, as the loop over the headers keeps it.\<close>

definition last_header :: "HEADERNAME \<Rightarrow> header list \<Rightarrow> header option" where
  "last_header n hs = (case rev (filter (\<lambda>h. hd_IntName h = n) hs) of [] \<Rightarrow> None | h # _ \<Rightarrow> Some h)"

lemma last_header_snoc: "last_header n (hs @ [h]) = (if hd_IntName h = n then Some h else last_header n hs)"
  by (simp add: last_header_def)

lemma ws_headers_found:
  "fold ws_header hs no_ws_headers = \<lparr>wh_Upgrade = last_header HH_UPGRADE hs, wh_Key = last_header HH_SEC_WEBSOCKET_KEY hs,
     wh_Version = last_header HH_SEC_WEBSCOKET_VERSION hs, wh_Protocol = last_header HH_SEC_WEBSOCKET_PROTOCOL hs,
     wh_Origin = last_header HH_ORIGIN hs\<rparr>"
proof (induction hs rule: rev_induct)
  case Nil
  then show ?case by (simp add: no_ws_headers_def last_header_def)
next
  case (snoc h hs)
  then show ?case by (simp add: ws_header_def last_header_snoc)
qed

text \<open>A client's handshake: the three headers the server asks for, and the prots subprotocols.\<close>

definition handshake_ok :: "string \<Rightarrow> string list \<Rightarrow> header list \<Rightarrow> bool" where
  "handshake_ok key prots hs \<longleftrightarrow>
     (\<exists>u v. last_header HH_UPGRADE hs = Some u \<and> hd_Value u = Some v \<and> map tolower (cstr v) = ''websocket'')
     \<and> (\<exists>k. last_header HH_SEC_WEBSOCKET_KEY hs = Some k \<and> hd_Value k = Some key)
     \<and> (\<exists>h v. last_header HH_SEC_WEBSCOKET_VERSION hs = Some h \<and> hd_Value h = Some v \<and> atoi v = 13)
     \<and> (case last_header HH_SEC_WEBSOCKET_PROTOCOL hs of None \<Rightarrow> prots = []
        | Some h \<Rightarrow> \<exists>v. hd_Value h = Some v \<and> prots = ExtractTrimWSTokens v (CHR '',''))"

definition ws_origin :: "header list \<Rightarrow> string option" where
  "ws_origin hs = Option.bind (last_header HH_ORIGIN hs) hd_Value"

definition accept_key :: "(string \<Rightarrow> byte list) \<Rightarrow> string \<Rightarrow> string" where
  "accept_key sha1 key = rfc_base64 (map unat (sha1 (cstr key @ ''258EAFA5-E914-47DA-95CA-C5AB0DC85B11'')))"

definition accept_headers :: "(string \<Rightarrow> byte list) \<Rightarrow> string \<Rightarrow> string list \<Rightarrow> (string \<times> string) option list" where
  "accept_headers sha1 key selected =
     [Some (''sec-websocket-accept'', accept_key sha1 key), Some (''connection'', ''upgrade''), Some (''upgrade'', ''websocket'')]
     @ (if length selected = 1 \<and> cstr (hd selected) \<noteq> [] then [Some (''sec-websocket-protocol'', cstr (hd selected))] else [])"

lemma is_handshake_ok:
  assumes "handshake_ok key prots hs"
  shows "is_handshake (fold ws_header hs no_ws_headers) = Some True"
proof -
  have "CmpI_range v ''websocket'' = 0" if "map tolower (cstr v) = ''websocket''" for v
  proof -
    have "map tolower ''websocket'' = ''websocket''"
      by (simp add: tolower_def char_of_def bit_0)
    then have "ci (cstr v) = ci ''websocket''"
      using that by (simp only: ci_eq)
    then show ?thesis
      by (simp add: CmpI_range_lex lex_cmp_def)
  qed
  then show ?thesis
    using assms by (auto simp: handshake_ok_def is_handshake_def ws_headers_found UpgradeWebSocketVal_def ws_version_ok_def)
qed

definition accept_response :: "ws_env \<Rightarrow> nat \<Rightarrow> string \<Rightarrow> string list \<Rightarrow> response" where
  "accept_response we h key selected = ws_http_response (WSResponse (we_sha1 we) h key (if length selected = 1 then hd selected else []))"

lemma accept_response_facts:
  assumes "we_sha1 we (cstr key @ ''258EAFA5-E914-47DA-95CA-C5AB0DC85B11'') \<noteq> []"
  shows "rp_ResponseCode (accept_response we h key selected) = 101" "rp_Length (accept_response we h key selected) = 0"
    "rp_Upgrade (accept_response we h key selected) = Some h"
    "rp_ExtraHeaders (accept_response we h key selected) = accept_headers (we_sha1 we) key selected"
proof -
  let ?r = "WSResponse (we_sha1 we) h key (if length selected = 1 then hd selected else [])"
  have r: "wr_SecWebSocketAccept ?r = accept_key (we_sha1 we) key" "wr_SubProtocol ?r = cstr (if length selected = 1 then hd selected else [])"
      "wr_MyHandler ?r = h"
    using Base64Encode_rfc [OF assms] by (simp_all add: WSResponse_def WebSocketGUID_def accept_key_def)
  have "[0..<3] = [0, 1, 2::nat]" "[0..<4] = [0, 1, 2, 3::nat]"
    by code_simp+
  then show "rp_ExtraHeaders (accept_response we h key selected) = accept_headers (we_sha1 we) key selected"
    using r by (auto simp: accept_response_def ws_http_response_def WS_GetExtraHeaderCount_def WS_GetExtraHeader_def accept_headers_def
        ConnUpgradeVal_def UpgradeWebSocketVal_def cstr_def)
  show "rp_ResponseCode (accept_response we h key selected) = 101" "rp_Length (accept_response we h key selected) = 0"
    "rp_Upgrade (accept_response we h key selected) = Some h"
    using r by (simp_all add: accept_response_def ws_http_response_def RC_SWITCH_PROT_def)
qed

lemma ws_accepted:
  assumes "handshake_ok key prots hs" "we_CreateMsgHandler we resource query prots (ws_origin hs) = (Some h, selected)"
  shows "\<exists>log. CreateWSResponse we resource query hs logFailed = Some ((True, Some (accept_response we h key selected)), log)"
proof -
  let ?w = "fold ws_header hs no_ws_headers"
  have o: "(case wh_Protocol ?w of None \<Rightarrow> Some [] | Some h \<Rightarrow> map_option (\<lambda>v. ExtractTrimWSTokens v (CHR '','')) (hd_Value h)) = Some prots"
    using assms(1) by (auto simp: handshake_ok_def ws_headers_found split: option.splits)
  have k: "Option.bind (wh_Key ?w) hd_Value = Some key" "Option.bind (wh_Origin ?w) hd_Value = ws_origin hs"
    using assms(1) by (auto simp: handshake_ok_def ws_headers_found ws_origin_def)
  show ?thesis
    unfolding CreateWSResponse_def Let_def is_handshake_ok [OF assms(1)] o k accept_response_def by (simp add: assms(2))
qed

text \<open>The request of a client that asks for the upgrade.\<close>

lemma upgrade_served:
  assumes "writes_ok env" "ce_Fuel env \<noteq> 0" "\<forall>n rq. ce_Create env n rq = fst (WS_Create we rq)"
    "request_ok safe r" "hr_Method r = ''GET''" "handshake_ok key prots (map line_header (hr_Headers r))"
    "\<forall>q. we_CreateMsgHandler we (hr_Path r) q prots (ws_origin (map line_header (hr_Headers r))) = (Some h, selected)"
    "we_sha1 we (cstr key @ ''258EAFA5-E914-47DA-95CA-C5AB0DC85B11'') \<noteq> []"
    "between (request_text safe r @ rest) c"
    "head_fits env (u32_add (cn_ResponseCount c) 1) True (accept_response we h key selected)"
    "length (head_text env (u32_add (cn_ResponseCount c) 1) True (accept_response we h key selected)) < head_limit env"
  shows "\<exists>c'. protocol_loop env (Suc fuel) c = Ret () c' \<and> cn_NextConn c' = Some h
    \<and> concat (cn_Out c') = concat (cn_Out c) @ head_text env (u32_add (cn_ResponseCount c) 1) True (accept_response we h key selected)"
proof -
  let ?c = "ResetRequestData env c" and ?rp = "accept_response we h key selected"
  note K = ResetRequestData_keeps
  note F = accept_response_facts [OF assms(8)]
  have B: "between (request_text safe r @ rest) ?c"
    by (rule K(1) [OF assms(9)])
  obtain c1 where c1: "HeaderHandler ?c = Ret True c1" "cn_CurrMethod c1 = METHOD_GET" "cn_CurrResource c1 = hr_Path r"
      "cn_HeaderA c1 = map line_header (hr_Headers r)" "cn_Out c1 = cn_Out c" "cn_WriteBuff c1 = cn_WriteBuff ?c"
      "cn_ResponseCount c1 = cn_ResponseCount c"
    using HeaderHandler_request [of safe r ?c rest] B assms(4,5) by (auto simp: between_def K ParseMethod_def)
  have n: "cn_ResponseCount (counted c1) = u32_add (cn_ResponseCount c) 1"
    using c1(7) by (simp add: counted_def)
  have "fst (WS_Create we (conn_request (counted c1))) = Created ?rp"
    using ws_accepted [OF assms(6), of we "hr_Path r" "cn_CurrQuery c1" h selected True] assms(7) c1(3,4)
    by (auto simp: WS_Create_def conn_request_def counted_def)
  then have ch: "choose_response env (cn_ResponseCount (counted c1)) (conn_request (counted c1)) = Some (Responder ?rp True)"
    using assms(3) c1(2) by (simp add: choose_response_def conn_request_def counted_def CORSPreflight_Create_def Let_def)
  have i: "idle (cn_WriteBuff c1)"
    using B c1(6) by (simp add: between_def)
  have w: "response_wire env (cn_ResponseCount (counted c1)) True ?rp = Some (head_text env (cn_ResponseCount (counted c1)) True ?rp)"
    using F(2) by (simp add: response_wire_def)
  obtain q out t sent where R: "ResponseHandler env c1 = Ret False (logged ?rp sent (wio q out t (counted c1)))"
      "concat out = concat (cn_Out c1) @ head_text env (cn_ResponseCount (counted c1)) True ?rp"
    using ResponseHandler_sent [OF assms(1) i assms(2) ch _ _ w] assms(10,11) F(2) unfolding n by auto
  have "protocol_loop env (Suc fuel) c = Ret () (logged ?rp sent (wio q out t (counted c1)))"
    using c1(1,2) R(1) by simp
  then show ?thesis
    using R(2) F(3) c1(5) n by (intro exI [of _ "logged ?rp sent (wio q out t (counted c1))"]) (simp add: logged_def)
qed

section \<open>A sample handshake\<close>

definition sample_upgrade :: http_request where
  "sample_upgrade = \<lparr>hr_Method = ''GET'', hr_Path = ''/ws'', hr_Query = None, hr_Version = ''1.1'',
     hr_Headers = [(''Upgrade'', 1, ''WebSocket''), (''Sec-WebSocket-Key'', 1, ''dGhlIHNhbXBsZSBub25jZQ==''),
       (''Sec-WebSocket-Version'', 1, ''13''), (''Sec-WebSocket-Protocol'', 1, ''chat, echo'')]\<rparr>"

text \<open>The digest of the example in RFC 6455 for every input.\<close>

definition sample_ws :: ws_env where
  "sample_ws = \<lparr>we_sha1 = \<lambda>_. [0xb3, 0x7a, 0x4f, 0x2c, 0xc0, 0x62, 0x4f, 0x16, 0x90, 0xf6, 0x46, 0x06, 0xcf, 0x38, 0x59, 0x45, 0xb2, 0xbe, 0xc4, 0xea],
     we_CreateMsgHandler = Echo_CreateMsgHandler 7\<rparr>"

definition ws_env_http :: conn_env where
  "ws_env_http = sample_env\<lparr>ce_Create := \<lambda>_ rq. fst (WS_Create sample_ws rq)\<rparr>"

lemma sample_upgrade_headers:
  "map line_header (hr_Headers sample_upgrade) =
     [\<lparr>hd_Name = ''upgrade'', hd_Value = Some ''WebSocket'', hd_IntName = HH_UPGRADE\<rparr>,
      \<lparr>hd_Name = ''sec-websocket-key'', hd_Value = Some ''dGhlIHNhbXBsZSBub25jZQ=='', hd_IntName = HH_SEC_WEBSOCKET_KEY\<rparr>,
      \<lparr>hd_Name = ''sec-websocket-version'', hd_Value = Some ''13'', hd_IntName = HH_SEC_WEBSCOKET_VERSION\<rparr>,
      \<lparr>hd_Name = ''sec-websocket-protocol'', hd_Value = Some ''chat, echo'', hd_IntName = HH_SEC_WEBSOCKET_PROTOCOL\<rparr>]"
  by code_simp

lemma sample_upgrade_ok:
  "handshake_ok ''dGhlIHNhbXBsZSBub25jZQ=='' [''chat'', ''echo''] (map line_header (hr_Headers sample_upgrade))"
proof -
  have "map tolower (cstr ''WebSocket'') = ''websocket''" "atoi ''13'' = 13" "ExtractTrimWSTokens ''chat, echo'' (CHR '','') = [''chat'', ''echo'']"
    by code_simp+
  then show ?thesis
    unfolding handshake_ok_def sample_upgrade_headers by (simp add: last_header_def)
qed

lemma sample_accept:
  "accept_key (we_sha1 sample_ws) key = ''s3pPLMBiTxaQ9kYGzzhZRbK+xOo=''"
  "accept_headers (we_sha1 sample_ws) key [''echo''] = [Some (''sec-websocket-accept'', ''s3pPLMBiTxaQ9kYGzzhZRbK+xOo=''),
     Some (''connection'', ''upgrade''), Some (''upgrade'', ''websocket''), Some (''sec-websocket-protocol'', ''echo'')]"
proof -
  have "rfc_base64 [0xb3, 0x7a, 0x4f, 0x2c, 0xc0, 0x62, 0x4f, 0x16, 0x90, 0xf6, 0x46, 0x06, 0xcf, 0x38, 0x59, 0x45, 0xb2, 0xbe, 0xc4, 0xea]
      = ''s3pPLMBiTxaQ9kYGzzhZRbK+xOo=''"
    by code_simp
  then show "accept_key (we_sha1 sample_ws) key = ''s3pPLMBiTxaQ9kYGzzhZRbK+xOo=''"
    by (simp add: accept_key_def sample_ws_def)
  then show "accept_headers (we_sha1 sample_ws) key [''echo''] = [Some (''sec-websocket-accept'', ''s3pPLMBiTxaQ9kYGzzhZRbK+xOo=''),
     Some (''connection'', ''upgrade''), Some (''upgrade'', ''websocket''), Some (''sec-websocket-protocol'', ''echo'')]"
    by (simp add: accept_headers_def cstr_def)
qed

lemma sample_accept_head:
  "head_fits ws_env_http n True (accept_response sample_ws 7 key [''echo''])"
  "length (head_text ws_env_http n True (accept_response sample_ws 7 key [''echo''])) < head_limit ws_env_http"
proof -
  let ?r = "accept_response sample_ws 7 key [''echo'']"
  have e: "\<not> ce_CORS ws_env_http" "ce_Conf ws_env_http = default_config" "ce_Date ws_env_http = (\<lambda>_. None)" "ce_ServerName ws_env_http = ''S''"
    by (simp_all add: ws_env_http_def sample_env_def)
  have "we_sha1 sample_ws x \<noteq> []" for x
    by (simp add: sample_ws_def)
  note F = accept_response_facts [OF this, of 7 key "[''echo'']"]
  have t: "rp_ContentType ?r = ''text/plain''" "rp_Charset ?r = None"
    by (simp_all add: accept_response_def ws_http_response_def)
  have d: "dec 101 = ''101''" "dec 0 = ''0''"
    by (simp_all add: dec.simps digit_def char_of_def bit_0)
  have "length (head_lines ws_env_http n True ?r) < 500"
    by (simp add: head_lines_def e status_line_def content_type_line_def date_line_def length_line_def F t sample_accept extra_text_def
        GetResponseName_def RC_defs d cstr_def CRLF_def NO_LENGTH_def)
  then show "head_fits ws_env_http n True ?r" "length (head_text ws_env_http n True ?r) < head_limit ws_env_http"
    by (auto simp: head_fits_def head_text_def head_limit_def e default_config_def CRLF_def)
qed

section \<open>Properties\<close>

text \<open>C38: the base64 encoder computes the encoding of RFC 4648 for every input but the empty one, for
  which it writes two characters instead of none.\<close>

theorem base64_is_rfc: "Base64Encode src = (if src = [] then ''A='' else rfc_base64 (map unat src))"
  using Base64Encode_rfc [of src] by (simp add: Base64Encode_def Bin6ToBase64_def char_of_def bit_0)

text \<open>C10: a client's WebSocket handshake on a new connection, in whatever segments, is answered with
  the status 101 and the accept key RFC 6455 asks for, with the subprotocol the application
  selected; nothing else is sent, the HTTP connection ends, and the WebSocket connection of the
  application's handler is the successor the server will take over.\<close>

theorem websocket_upgrade:
  assumes "\<forall>n. ce_WriteOk env n" "ce_Fuel env \<noteq> 0" "\<forall>n rq. ce_Create env n rq = fst (WS_Create we rq)"
    "request_ok safe r" "hr_Method r = ''GET''" "handshake_ok key prots (map line_header (hr_Headers r))"
    "\<forall>q. we_CreateMsgHandler we (hr_Path r) q prots (ws_origin (map line_header (hr_Headers r))) = (Some h, selected)"
    "we_sha1 we (cstr key @ ''258EAFA5-E914-47DA-95CA-C5AB0DC85B11'') \<noteq> []"
    "[] \<notin> set segs" "concat segs = request_text safe r @ rest" "length (request_text safe r @ rest) \<le> HTTP_ReadBuffSize"
    "head_fits env 1 True (accept_response we h key selected)"
    "length (head_text env 1 True (accept_response we h key selected)) < head_limit env" "fuel \<noteq> 0"
  shows "\<exists>c. ProtocolHandler env fuel (conn_init env u junk segs) = Some c \<and> cn_NextConn c = Some h \<and> \<not> cn_Open c \<and> cn_IsDeletable c
    \<and> concat (cn_Out c) = head_text env 1 True (accept_response we h key selected)
    \<and> rp_ResponseCode (accept_response we h key selected) = 101
    \<and> rp_ExtraHeaders (accept_response we h key selected) = accept_headers (we_sha1 we) key selected"
proof -
  let ?c = "conn_init env u junk segs"
  have B: "between (request_text safe r @ rest) ?c"
    using between_init [OF assms(9)] assms(10,11) by metis
  have c: "u32_add (cn_ResponseCount ?c) 1 = 1" "cn_Out ?c = []"
    by (simp_all add: conn_init_def u32_add_def)
  obtain f where f: "fuel = Suc f"
    using assms(14) by (cases fuel) auto
  obtain c' where "protocol_loop env fuel ?c = Ret () c'" "cn_NextConn c' = Some h"
      "concat (cn_Out c') = head_text env 1 True (accept_response we h key selected)"
    using upgrade_served [OF assms(1-8) B] assms(12,13) c f by auto
  then show ?thesis
    using accept_response_facts [OF assms(8)] by (auto simp: ProtocolHandler_def)
qed

theorem websocket_upgrade_witness:
  "\<exists>c. ProtocolHandler ws_env_http 1 (conn_init sample_env (upload_init 0 0) 0 [request_text plain_char sample_upgrade]) = Some c
     \<and> cn_NextConn c = Some 7"
proof -
  let ?t = "request_text plain_char sample_upgrade"
  have w: "\<forall>n. ce_WriteOk ws_env_http n" "ce_Fuel ws_env_http \<noteq> 0" "\<forall>n rq. ce_Create ws_env_http n rq = fst (WS_Create sample_ws rq)"
    by (simp_all add: ws_env_http_def sample_env_def)
  have r: "request_ok plain_char sample_upgrade" "hr_Method sample_upgrade = ''GET''"
    by (simp_all add: request_ok_def sample_upgrade_def plain_char_def fm_line_ok_def value_ok_def)
  have h: "\<forall>q. we_CreateMsgHandler sample_ws (hr_Path sample_upgrade) q [''chat'', ''echo''] (ws_origin (map line_header (hr_Headers sample_upgrade)))
      = (Some 7, [''echo''])"
    by (simp add: sample_ws_def Echo_CreateMsgHandler_def)
  have s: "we_sha1 sample_ws x \<noteq> []" for x
    by (simp add: sample_ws_def)
  have g: "[] \<notin> set [?t]" "concat [?t] = ?t @ []" "length (?t @ []) \<le> HTTP_ReadBuffSize"
    by (simp_all add: request_text_def request_line_def sample_upgrade_def CRLF_def fm_text_def header_line_def HTTP_ReadBuffSize_def)
  have "conn_init sample_env (upload_init 0 0) 0 [?t] = conn_init ws_env_http (upload_init 0 0) 0 [?t]"
    by (simp add: conn_init_def ws_env_http_def)
  then show ?thesis
    using websocket_upgrade [OF w r sample_upgrade_ok h s g sample_accept_head, of 1 "upload_init 0 0" 0] by auto
qed

end
