(* ===== verification/RespSources.thy ===== *)
theory RespSources
  imports HttpProtocol
begin

text \<open>
  The response sources of the library: a fixed text (Helper/StringResponse.h, SimpleResponse.h,
  StaticRespSource.cpp), the prefix router with rewrites and redirects (CombinerRespSource.cpp),
  files below a directory (FSRespSource.cpp), and the table of content types (detail/MimeDB.cpp).
  The file system and the formatting of dates are parameters. The locale is the contract of a
  body of known length.
\<close>

section \<open>Texts\<close>

text \<open>The state of a \<open>StringResponse\<close> is the text from \<open>ReadPos\<close> to \<open>EndPos\<close>.\<close>

definition StringResponse_Read :: "string \<Rightarrow> nat \<Rightarrow> (string \<times> bool \<times> string) option" where
  "StringResponse_Read s maxLength =
     (if s \<noteq> [] then let n = min maxLength (length s) in Some (take n s, drop n s = [], drop n s)
      else Some ([], True, s))"

definition StringResponse :: "string \<Rightarrow> string \<Rightarrow> string option \<Rightarrow> nat \<Rightarrow> response" where
  "StringResponse s contentType charset code =
     \<lparr>rp_ResponseCode = code, rp_ContentType = contentType, rp_Charset = charset, rp_Length = length s,
      rp_ExtraHeaders = [], rp_Read = reader_of StringResponse_Read s, rp_Upgrade = None\<rparr>"

record simple_response =
  sm_ResponseCode :: nat
  sm_ContentType :: string
  sm_Headers :: "(string \<times> string) list"

definition SimpleResponse_init :: simple_response where
  "SimpleResponse_init = \<lparr>sm_ResponseCode = 500, sm_ContentType = ''text/plain'', sm_Headers = []\<rparr>"

definition SimpleResponse_GetExtraHeader :: "simple_response \<Rightarrow> nat \<Rightarrow> (string \<times> string) option" where
  "SimpleResponse_GetExtraHeader r i = (if i \<ge> length (sm_Headers r) then None else Some (sm_Headers r ! i))"

text \<open>The response of a subclass, which adds the length and the reader.\<close>

definition SimpleResponse :: "simple_response \<Rightarrow> nat \<Rightarrow> reader \<Rightarrow> response" where
  "SimpleResponse r len rd =
     \<lparr>rp_ResponseCode = sm_ResponseCode r, rp_ContentType = sm_ContentType r, rp_Charset = None, rp_Length = len,
      rp_ExtraHeaders = map (SimpleResponse_GetExtraHeader r) [0..<length (sm_Headers r)], rp_Read = rd, rp_Upgrade = None\<rparr>"

text \<open>\<open>StaticRespSource\<close>: the first constructor moves the member \<open>RespStr\<close>, which is not constructed
  yet, into itself and ignores its argument: undefined behaviour.\<close>

record static_source =
  st_Data :: string
  st_ContentType :: string
  st_Charset :: "string option"
  st_RespCode :: nat

definition StaticRespSource_copy :: "string \<Rightarrow> string \<Rightarrow> string option \<Rightarrow> nat \<Rightarrow> static_source option" where
  "StaticRespSource_copy s contentType charset code = None"

definition StaticRespSource_view :: "string \<Rightarrow> string \<Rightarrow> string option \<Rightarrow> nat \<Rightarrow> static_source" where
  "StaticRespSource_view s contentType charset code =
     \<lparr>st_Data = s, st_ContentType = contentType, st_Charset = charset, st_RespCode = code\<rparr>"

definition Static_Create :: "static_source \<Rightarrow> request \<Rightarrow> created" where
  "Static_Create st rq = Created (StringResponse (st_Data st) (st_ContentType st) (st_Charset st) (st_RespCode st))"

section \<open>The router\<close>

record rs_holder =
  rh_Prefix :: string
  rh_RespSource :: "request \<Rightarrow> created"
  rh_ExactMatchOnly :: bool

record rew_holder =
  rw_Target :: string
  rw_IsRedirect :: bool
  rw_IsPermanentRedirect :: bool

record combiner =
  cb_HolderA :: "rs_holder list"
  cb_RewMap :: "string \<rightharpoonup> rew_holder"

definition combiner_init :: combiner where
  "combiner_init = \<lparr>cb_HolderA = [], cb_RewMap = Map.empty\<rparr>"

definition AddSimpleRewrite :: "string \<Rightarrow> string \<Rightarrow> combiner \<Rightarrow> combiner" where
  "AddSimpleRewrite resource target c =
     c\<lparr>cb_RewMap := (cb_RewMap c)(resource \<mapsto> \<lparr>rw_Target = target, rw_IsRedirect = False, rw_IsPermanentRedirect = False\<rparr>)\<rparr>"

definition AddRedirect :: "string \<Rightarrow> string \<Rightarrow> bool \<Rightarrow> combiner \<Rightarrow> combiner" where
  "AddRedirect resource target isPermanent c =
     c\<lparr>cb_RewMap := (cb_RewMap c)(resource \<mapsto> \<lparr>rw_Target = target, rw_IsRedirect = True, rw_IsPermanentRedirect = isPermanent\<rparr>)\<rparr>"

definition AddRespSource :: "string \<Rightarrow> (request \<Rightarrow> created) \<Rightarrow> bool \<Rightarrow> combiner \<Rightarrow> combiner" where
  "AddRespSource pre source exactMatchOnly c =
     c\<lparr>cb_HolderA := cb_HolderA c @ [\<lparr>rh_Prefix = pre, rh_RespSource = source, rh_ExactMatchOnly = exactMatchOnly\<rparr>]\<rparr>"

text \<open>\<open>Resource.find(Prefix)==0\<close> is written as the comparison of the first characters.\<close>

definition holder_match :: "rs_holder \<Rightarrow> string \<Rightarrow> bool" where
  "holder_match h resource =
     (if \<not> rh_ExactMatchOnly h \<and> length resource > length (rh_Prefix h)
      then take (length (rh_Prefix h)) resource = rh_Prefix h \<and> resource ! length (rh_Prefix h) = CHR ''/''
      else if length resource = length (rh_Prefix h) then resource = rh_Prefix h
      else False)"

definition Redirect_GetExtraHeader :: "string \<Rightarrow> nat \<Rightarrow> (string \<times> string) option" where
  "Redirect_GetExtraHeader target i = (if i = 0 then Some (GetHeaderName HN_LOCATION, target) else None)"

definition Redirect_Read :: "unit \<Rightarrow> nat \<Rightarrow> (string \<times> bool \<times> unit) option" where
  "Redirect_Read u maxLength = Some ([], False, u)"

definition RedirectResponse :: "string \<Rightarrow> bool \<Rightarrow> response" where
  "RedirectResponse target isPermanent =
     \<lparr>rp_ResponseCode = (if isPermanent then RC_MOVEPERMANENT else RC_TEMP_REDIRECT), rp_ContentType = ''text/plain'', rp_Charset = None,
      rp_Length = NO_LENGTH, rp_ExtraHeaders = map (Redirect_GetExtraHeader target) [0..<1],
      rp_Read = reader_of Redirect_Read (), rp_Upgrade = None\<rparr>"

fun combiner_loop :: "rs_holder list \<Rightarrow> request \<Rightarrow> string \<Rightarrow> created" where
  "combiner_loop [] rq res = Created (error_response (CommonError_Response res None RC_NOTFOUND))"
| "combiner_loop (h # hs) rq res =
     (if holder_match h res then rh_RespSource h (rq\<lparr>rq_Resource := drop (length (rh_Prefix h)) res\<rparr>)
      else combiner_loop hs rq res)"

definition Combiner_Create :: "combiner \<Rightarrow> request \<Rightarrow> created" where
  "Combiner_Create c rq =
     (case cb_RewMap c (rq_Resource rq) of
        None \<Rightarrow> combiner_loop (cb_HolderA c) rq (rq_Resource rq)
      | Some w \<Rightarrow>
          if rw_IsRedirect w then Created (RedirectResponse (rw_Target w) (rw_IsPermanentRedirect w))
          else combiner_loop (cb_HolderA c) rq (rw_Target w))"

section \<open>Content types\<close>

definition UnknownMimeType :: string where "UnknownMimeType = ''application/octet-stream''"

definition ExtMimeMap :: "string \<rightharpoonup> string" where
  "ExtMimeMap = map_of
     [(''.gz'', ''application/gzip''), (''.js'', ''application/javascript''), (''.json'', ''application/json''),
      (''.pdf'', ''application/pdf''), (''.rtf'', ''application/rtf''), (''.zip'', ''application/zip''), (''.xml'', ''application/xml''),
      (''.jpg'', ''image/jpeg''), (''.jpeg'', ''image/jpeg''), (''.png'', ''image/png''), (''.gif'', ''image/gif''),
      (''.svg'', ''image/svg+xml''), (''.css'', ''text/css''), (''.csv'', ''text/csv''), (''.htm'', ''text/html''),
      (''.html'', ''text/html''), (''.frame'', ''text/html''), (''.txt'', ''text/plain'')]"

definition GetMimeType :: "string \<Rightarrow> string" where
  "GetMimeType ext = (case ExtMimeMap ext of Some m \<Rightarrow> m | None \<Rightarrow> UnknownMimeType)"

section \<open>Files\<close>

text \<open>What the source asks of the file system: the canonical path of a resource below the root, as a list
  of components (\<open>None\<close> if \<open>canonical\<close> throws), whether it exists and is a directory, the time of the
  last change and the size, or the type and message of an exception, and, if the file can be opened,
  its content. \<open>fe_RuntimeError\<close> is the type name of \<open>std::runtime_error\<close>.\<close>

record fs_env =
  fe_Canonical :: "string list \<Rightarrow> string \<Rightarrow> string list option"
  fe_Exists :: "string list \<Rightarrow> bool"
  fe_IsDirectory :: "string list \<Rightarrow> bool"
  fe_WriteTime :: "string list \<Rightarrow> (string \<times> string) + int"
  fe_Size :: "string list \<Rightarrow> (string \<times> string) + nat"
  fe_Open :: "string list \<Rightarrow> string option"
  fe_Extension :: "string list \<Rightarrow> string"
  fe_Format :: "int \<Rightarrow> string"
  fe_TimeGM :: "tm \<Rightarrow> int"
  fe_RuntimeError :: string

text \<open>The constructor of the source, with the canonical path of its argument.\<close>

definition FS_init :: "string list \<Rightarrow> string list" where
  "FS_init canonical = (if canonical \<noteq> [] \<and> last canonical = ''.'' then butlast canonical else canonical)"

text \<open>The state of a file response: the size and position, and what is left of the stream, \<open>None\<close> after
  a failed read. A read that fails has stored what there was; the rest of the buffer is as it was.\<close>

definition FS_Read :: "(nat \<Rightarrow> char) \<Rightarrow> nat \<times> nat \<times> string option \<Rightarrow> nat \<Rightarrow> (string \<times> bool \<times> (nat \<times> nat \<times> string option)) option" where
  "FS_Read junk = (\<lambda>(size, pos, s) maxLength.
     let n = (if maxLength > size - pos then size - pos else maxLength);
         got = (case s of None \<Rightarrow> [] | Some d \<Rightarrow> take n d);
         s' = (case s of None \<Rightarrow> None | Some d \<Rightarrow> if length d < n then None else Some (drop n d))
     in Some (got @ map junk [length got..<n], pos + n = size \<or> s' = None, (size, pos + n, s')))"

definition FS_Read_unmodified :: "unit \<Rightarrow> nat \<Rightarrow> (string \<times> bool \<times> unit) option" where
  "FS_Read_unmodified u maxLength = Some ([], True, u)"

definition FS_GetExtraHeader :: "string \<Rightarrow> nat \<Rightarrow> (string \<times> string) option" where
  "FS_GetExtraHeader lastModified i = (if i = 0 then Some (GetHeaderName HN_LAST_MODIFIED, lastModified) else None)"

definition fs_response :: "nat \<Rightarrow> string \<Rightarrow> nat \<Rightarrow> string \<Rightarrow> reader \<Rightarrow> response" where
  "fs_response code mime len lastModified rd =
     \<lparr>rp_ResponseCode = code, rp_ContentType = mime, rp_Charset = None, rp_Length = len,
      rp_ExtraHeaders = map (FS_GetExtraHeader lastModified) [0..<1], rp_Read = rd, rp_Upgrade = None\<rparr>"

definition FS_Response :: "fs_env \<Rightarrow> (nat \<Rightarrow> char) \<Rightarrow> string list \<Rightarrow> string \<Rightarrow> int \<Rightarrow> created" where
  "FS_Response fe junk path mime ifModifiedSince =
     (case fe_WriteTime fe path of
        Inl (t, m) \<Rightarrow> StdException t m
      | Inr modified \<Rightarrow>
          if ifModifiedSince = 0 \<or> modified > ifModifiedSince
          then (case fe_Size fe path of
                  Inl (t, m) \<Rightarrow> StdException t m
                | Inr sz \<Rightarrow>
                    (case fe_Open fe path of
                       None \<Rightarrow> StdException (fe_RuntimeError fe) ''Cannot open target file''
                     | Some d \<Rightarrow>
                         if sz \<noteq> NO_LENGTH
                         then Created (fs_response RC_OK mime sz (fe_Format fe modified) (reader_of (FS_Read junk) (sz, 0, Some d)))
                         else Created (fs_response RC_NOTMODIFIED mime 0 (fe_Format fe modified) (reader_of FS_Read_unmodified ()))))
          else Created (fs_response RC_NOTMODIFIED mime 0 (fe_Format fe modified) (reader_of FS_Read_unmodified ())))"

text \<open>The search for the first If-Modified-Since header; a value that cannot be read counts as none.
  \<open>None\<close> is a null value.\<close>

fun if_modified_since :: "(tm \<Rightarrow> int) \<Rightarrow> header list \<Rightarrow> int option" where
  "if_modified_since timegm [] = Some 0"
| "if_modified_since timegm (h # hs) =
     (if hd_IntName h = HN_IF_MOD_SINCE
      then map_option (\<lambda>r. case r of Inl _ \<Rightarrow> 0 | Inr t \<Rightarrow> t) (GetDateTime timegm h)
      else if_modified_since timegm hs)"

definition fs_error :: "request \<Rightarrow> nat \<Rightarrow> created" where
  "fs_error rq code = Created (error_response (CommonError_Response (rq_Resource rq) None code))"

text \<open>An exception of the constructor of the response is passed on; the undefined behaviour of a null
  header value appears as a null response.\<close>

definition FS_Create :: "fs_env \<Rightarrow> (nat \<Rightarrow> char) \<Rightarrow> string list \<Rightarrow> request \<Rightarrow> created" where
  "FS_Create fe junk root rq =
     (case fe_Canonical fe root (rq_Resource rq) of
        None \<Rightarrow> fs_error rq RC_NOTFOUND
      | Some target \<Rightarrow>
          if length root \<le> length target \<and> take (length root) target = root \<and> fe_Exists fe target
          then (case if_modified_since (fe_TimeGM fe) (rq_HeaderA rq) of
                  None \<Rightarrow> CreatedNull
                | Some since \<Rightarrow>
                    if \<not> fe_IsDirectory fe target
                    then FS_Response fe junk target (GetMimeType (fe_Extension fe target)) since
                    else fs_error rq RC_FORBIDDEN)
          else fs_error rq RC_NOTFOUND)"


section \<open>Bodies read to the end\<close>

text \<open>What a response with a fixed length puts on the wire.\<close>

lemma wire_of_parts:
  assumes "body_parts (ce_Fuel env) HTTP_WriteBuffSize (rp_Read r) = Some ps" "concat ps = s" "last ps \<noteq> []"
    "rp_Length r = length s" "s \<noteq> []" "length s \<noteq> NO_LENGTH"
  shows "response_wire env count cors r = Some (head_text env count cors r @ s)"
  using assms by (simp add: response_wire_def)

text \<open>The contract between the connection and a source with a known length, \<open>IResponse::Read\<close>: in the state
  \<open>st s\<close> the text \<open>s\<close> is left, and a read for a buffer of \<open>least\<close> or more bytes fills it as far as the text
  goes, and reports the end with the last byte. Under it the whole text is sent.\<close>

locale body_source =
  fixes read_body :: "'s \<Rightarrow> nat \<Rightarrow> (string \<times> bool \<times> 's) option" and ok :: "string \<Rightarrow> bool" and st :: "string \<Rightarrow> 's" and least :: nat
  assumes read_piece: "ok s \<Longrightarrow> s \<noteq> [] \<Longrightarrow> least \<le> m \<Longrightarrow> read_body (st s) m = Some (take m s, length s \<le> m, st (drop m s))"
    and ok_rest: "ok s \<Longrightarrow> least \<le> m \<Longrightarrow> ok (drop m s)"
    and least_pos: "0 < least"
begin

lemma parts:
  "least \<le> m \<Longrightarrow> ok s \<Longrightarrow> s \<noteq> [] \<Longrightarrow> length s \<le> fuel \<Longrightarrow>
    \<exists>ps. body_parts fuel m (reader_of read_body (st s)) = Some ps \<and> concat ps = s \<and> last ps \<noteq> []"
proof (induction fuel arbitrary: s)
  case (Suc fuel)
  note R = read_piece [OF Suc.prems(2,3,1)]
  show ?case
  proof (cases "length s \<le> m")
    case True
    then show ?thesis
      using R Suc.prems by (intro exI [of _ "[s]"]) simp
  next
    case False
    then have "drop m s \<noteq> []" "length (drop m s) \<le> fuel"
      using Suc.prems least_pos by auto
    then obtain ps where ps: "body_parts fuel m (reader_of read_body (st (drop m s))) = Some ps" "concat ps = drop m s" "last ps \<noteq> []"
      using Suc.IH [OF Suc.prems(1) ok_rest [OF Suc.prems(2,1)]] by blast
    moreover have "ps \<noteq> []"
      using ps(2) \<open>drop m s \<noteq> []\<close> by auto
    ultimately show ?thesis
      using R False by (intro exI [of _ "take m s # ps"]) simp
  qed
qed simp

lemma sent:
  assumes "rp_Read r = reader_of read_body (st s)" "rp_Length r = length s" "ok s" "s \<noteq> []" "length s \<le> ce_Fuel env"
    "length s \<noteq> NO_LENGTH" "least \<le> HTTP_WriteBuffSize"
  shows "response_wire env count cors r = Some (head_text env count cors r @ s)"
proof -
  obtain ps where "body_parts (ce_Fuel env) HTTP_WriteBuffSize (rp_Read r) = Some ps" "concat ps = s" "last ps \<noteq> []"
    using parts [OF assms(7,3-5)] unfolding assms(1) by blast
  then show ?thesis
    using assms(2,4,6) by (intro wire_of_parts)
qed

end

text \<open>Texts and files keep the contract.\<close>

interpretation text_body: body_source StringResponse_Read "\<lambda>_. True" "\<lambda>s. s" 1
  by unfold_locales (simp_all add: StringResponse_Read_def Let_def min_def)

interpretation file_body: body_source "FS_Read junk" "\<lambda>s. length s \<le> n" "\<lambda>s. (n, n - length s, Some s)" 1 for junk n
proof unfold_locales
  fix s :: string and m :: nat
  assume "length s \<le> n" "s \<noteq> []" "1 \<le> m"
  then show "FS_Read junk (n, n - length s, Some s) m = Some (take m s, length s \<le> m, n, n - length (drop m s), Some (drop m s))"
    by (cases "length s \<le> m") (auto simp: FS_Read_def Let_def)
qed auto

section \<open>Routes\<close>

text \<open>A source with a prefix serves the resource that is its prefix and, unless it wants an exact match,
  those that continue it with a slash.\<close>

definition serves :: "rs_holder \<Rightarrow> string \<Rightarrow> string \<Rightarrow> bool" where
  "serves h res rest \<longleftrightarrow> res = rh_Prefix h @ rest \<and> (rest = [] \<or> \<not> rh_ExactMatchOnly h \<and> hd rest = CHR ''/'')"

lemma holder_match_serves: "holder_match h res = (\<exists>rest. serves h res rest)"
proof
  assume m: "holder_match h res"
  let ?n = "length (rh_Prefix h)"
  have "take ?n res = rh_Prefix h"
    using m by (auto simp: holder_match_def split: if_splits)
  moreover have "drop ?n res = [] \<or> \<not> rh_ExactMatchOnly h \<and> hd (drop ?n res) = CHR ''/''"
    using m by (auto simp: holder_match_def hd_drop_conv_nth split: if_splits)
  ultimately have "serves h res (drop ?n res)"
    unfolding serves_def by (metis append_take_drop_id)
  then show "\<exists>rest. serves h res rest" ..
next
  assume "\<exists>rest. serves h res rest"
  then obtain rest where "serves h res rest" ..
  then show "holder_match h res"
    by (cases rest) (auto simp: serves_def holder_match_def nth_append)
qed

lemma combiner_loop_first:
  "\<forall>g \<in> set hs. \<forall>r. \<not> serves g res r \<Longrightarrow> serves h res rest \<Longrightarrow>
    combiner_loop (hs @ h # hs') rq res = rh_RespSource h (rq\<lparr>rq_Resource := rest\<rparr>)"
proof (induction hs)
  case Nil
  then have "holder_match h res" "drop (length (rh_Prefix h)) res = rest"
    using holder_match_serves by (auto simp: serves_def)
  then show ?case by simp
next
  case (Cons g hs)
  then show ?case
    using holder_match_serves by simp
qed

lemma combiner_loop_none: "\<forall>g \<in> set hs. \<forall>r. \<not> serves g res r \<Longrightarrow>
    combiner_loop hs rq res = Created (error_response (CommonError_Response res None RC_NOTFOUND))"
  by (induction hs) (auto simp: holder_match_serves)

lemma FS_Response_ok:
  assumes "FS_Response fe junk p mime since = Created r" "rp_ResponseCode r = RC_OK"
  shows "\<exists>d sz t. fe_Open fe p = Some d \<and> fe_Size fe p = Inr sz
    \<and> r = fs_response RC_OK mime sz (fe_Format fe t) (reader_of (FS_Read junk) (sz, 0, Some d))"
proof -
  have c: "rp_ResponseCode (fs_response code mime len t rd) = code" for code mime len t rd
    by (simp add: fs_response_def)
  obtain t where "fe_WriteTime fe p = Inr t"
    using assms(1) by (cases "fe_WriteTime fe p") (auto simp: FS_Response_def)
  then have "(case fe_Size fe p of Inl (t, m) \<Rightarrow> StdException t m
      | Inr sz \<Rightarrow> (case fe_Open fe p of None \<Rightarrow> StdException (fe_RuntimeError fe) ''Cannot open target file''
          | Some d \<Rightarrow> if sz \<noteq> NO_LENGTH then Created (fs_response RC_OK mime sz (fe_Format fe t) (reader_of (FS_Read junk) (sz, 0, Some d)))
              else Created (fs_response RC_NOTMODIFIED mime 0 (fe_Format fe t) (reader_of FS_Read_unmodified ())))) = Created r"
    using assms c [of RC_NOTMODIFIED mime 0 "fe_Format fe t" "reader_of FS_Read_unmodified ()"]
    by (auto simp: FS_Response_def RC_defs split: if_split_asm)
  then show ?thesis
    using assms(2) c by (auto simp: RC_defs split: sum.split_asm option.split_asm if_split_asm)
qed

section \<open>Properties\<close>

text \<open>C25: the router hands a request to the first source, in the order they were added, that serves the
  resource or the target of its rewrite, with exactly the rest of the resource behind the prefix,
  and answers with a page for status 404 if there is none.\<close>

theorem request_routed:
  assumes "res = (case cb_RewMap c (rq_Resource rq) of None \<Rightarrow> rq_Resource rq | Some w \<Rightarrow> rw_Target w)"
    "\<forall>w. cb_RewMap c (rq_Resource rq) = Some w \<longrightarrow> \<not> rw_IsRedirect w"
  shows "(\<forall>hs h hs' rest. cb_HolderA c = hs @ h # hs' \<longrightarrow> (\<forall>g \<in> set hs. \<forall>r. \<not> serves g res r) \<longrightarrow> serves h res rest \<longrightarrow>
      Combiner_Create c rq = rh_RespSource h (rq\<lparr>rq_Resource := rest\<rparr>))
    \<and> ((\<forall>g \<in> set (cb_HolderA c). \<forall>r. \<not> serves g res r) \<longrightarrow>
      Combiner_Create c rq = Created (error_response (CommonError_Response res None RC_NOTFOUND)))"
proof -
  have "Combiner_Create c rq = combiner_loop (cb_HolderA c) rq res"
    using assms by (auto simp: Combiner_Create_def split: option.split)
  then show ?thesis
    using combiner_loop_first combiner_loop_none by auto
qed

theorem request_routed_witness:
  "Combiner_Create (AddRespSource ''/b'' (\<lambda>rq. StdException (rq_Resource rq) []) False
      (AddRespSource ''/a'' (\<lambda>_. CreatedNull) True (AddSimpleRewrite ''/x'' ''/b/y'' combiner_init)))
    \<lparr>rq_Method = METHOD_GET, rq_Resource = ''/x'', rq_Query = qp_init 0 (upload_init 0 0), rq_HeaderA = [], rq_Content = None\<rparr>
    = StdException ''/y'' []"
proof -
  let ?c = "AddRespSource ''/b'' (\<lambda>rq. StdException (rq_Resource rq) []) False
      (AddRespSource ''/a'' (\<lambda>_. CreatedNull) True (AddSimpleRewrite ''/x'' ''/b/y'' combiner_init))"
  let ?q = "\<lparr>rq_Method = METHOD_GET, rq_Resource = ''/x'', rq_Query = qp_init 0 (upload_init 0 0), rq_HeaderA = [], rq_Content = None\<rparr>"
  let ?a = "\<lparr>rh_Prefix = ''/a'', rh_RespSource = \<lambda>_. CreatedNull, rh_ExactMatchOnly = True\<rparr>"
  let ?b = "\<lparr>rh_Prefix = ''/b'', rh_RespSource = \<lambda>rq. StdException (rq_Resource rq) [], rh_ExactMatchOnly = False\<rparr>"
  have H: "cb_HolderA ?c = [?a] @ ?b # []" "\<forall>g \<in> set [?a]. \<forall>r. \<not> serves g ''/b/y'' r" "serves ?b ''/b/y'' ''/y''"
    by (simp_all add: AddRespSource_def AddSimpleRewrite_def combiner_init_def serves_def)
  have "''/b/y'' = (case cb_RewMap ?c (rq_Resource ?q) of None \<Rightarrow> rq_Resource ?q | Some w \<Rightarrow> rw_Target w)"
    "\<forall>w. cb_RewMap ?c (rq_Resource ?q) = Some w \<longrightarrow> \<not> rw_IsRedirect w"
    by (simp_all add: AddRespSource_def AddSimpleRewrite_def combiner_init_def)
  then have "Combiner_Create ?c ?q = rh_RespSource ?b (?q\<lparr>rq_Resource := ''/y''\<rparr>)"
    using request_routed H by blast
  then show ?thesis by simp
qed

text \<open>Note: a redirect is answered with its status, a location header with the target, and an empty
  chunked body.\<close>

theorem redirect_sent:
  assumes "ce_Fuel env \<noteq> 0" "rq_Resource rq = res"
  shows "\<exists>r. Combiner_Create (AddRedirect res target permanent c) rq = Created r
    \<and> rp_ResponseCode r = (if permanent then 301 else 307) \<and> rp_ExtraHeaders r = [Some (''location'', target)]
    \<and> response_wire env count cors r = Some (head_text env count cors r @ final_chunk)"
proof -
  obtain f where f: "ce_Fuel env = Suc f"
    using assms(1) by (cases "ce_Fuel env") auto
  show ?thesis
    using assms(2) by (intro exI [of _ "RedirectResponse target permanent"])
      (simp add: Combiner_Create_def AddRedirect_def RedirectResponse_def response_wire_def f Redirect_Read_def Redirect_GetExtraHeader_def
        RC_defs NO_LENGTH_def)
qed

theorem redirect_sent_witness:
  "\<exists>r. Combiner_Create (AddRedirect ''/old'' ''/new'' True combiner_init)
      \<lparr>rq_Method = METHOD_GET, rq_Resource = ''/old'', rq_Query = qp_init 0 (upload_init 0 0), rq_HeaderA = [], rq_Content = None\<rparr> = Created r
    \<and> rp_ResponseCode r = 301"
  using redirect_sent [of sample_env "\<lparr>rq_Method = METHOD_GET, rq_Resource = ''/old'', rq_Query = qp_init 0 (upload_init 0 0),
      rq_HeaderA = [], rq_Content = None\<rparr>" "''/old''" "''/new''" True combiner_init 0 True]
  by (auto simp: sample_env_def)

text \<open>Note: a text is sent exactly, for every length and size of the write buffer.\<close>

theorem text_sent:
  assumes "s \<noteq> []" "length s \<le> ce_Fuel env" "length s < NO_LENGTH"
  shows "response_wire env count cors (StringResponse s ct cs code) = Some (head_text env count cors (StringResponse s ct cs code) @ s)"
  by (rule text_body.sent) (use assms in \<open>simp_all add: StringResponse_def HTTP_WriteBuffSize_def\<close>)

theorem text_sent_witness:
  "response_wire sample_env 0 True (StringResponse ''hello'' ''text/plain'' None 200)
    = Some (head_text sample_env 0 True (StringResponse ''hello'' ''text/plain'' None 200) @ ''hello'')"
  by (rule text_sent) (simp_all add: sample_env_def NO_LENGTH_def)

definition sample_fs :: fs_env where
  "sample_fs = \<lparr>fe_Canonical = \<lambda>root res. if res = ''/a'' then Some (root @ [''a'']) else None, fe_Exists = \<lambda>_. True,
     fe_IsDirectory = \<lambda>p. length p < 3, fe_WriteTime = \<lambda>_. Inr 7, fe_Size = \<lambda>_. Inr 5, fe_Open = \<lambda>_. Some ''hello'',
     fe_Extension = \<lambda>_. ''.txt'', fe_Format = \<lambda>_. [], fe_TimeGM = \<lambda>_. 0, fe_RuntimeError = []\<rparr>"

text \<open>C23: the file source serves nothing outside its root: a response with status 200 carries the
  content of a regular file whose canonical path continues the root, whatever the resource is.\<close>

theorem files_confined:
  assumes "FS_Create fe junk root rq = Created r" "rp_ResponseCode r = RC_OK"
  shows "\<exists>rest d sz t. fe_Canonical fe root (rq_Resource rq) = Some (root @ rest) \<and> fe_Exists fe (root @ rest)
    \<and> \<not> fe_IsDirectory fe (root @ rest) \<and> fe_Open fe (root @ rest) = Some d \<and> fe_Size fe (root @ rest) = Inr sz
    \<and> r = fs_response RC_OK (GetMimeType (fe_Extension fe (root @ rest))) sz (fe_Format fe t) (reader_of (FS_Read junk) (sz, 0, Some d))"
proof -
  obtain target where T: "fe_Canonical fe root (rq_Resource rq) = Some target" "take (length root) target = root" "fe_Exists fe target"
      "\<not> fe_IsDirectory fe target" and R: "\<exists>since. FS_Response fe junk target (GetMimeType (fe_Extension fe target)) since = Created r"
    using assms by (auto simp: FS_Create_def fs_error_def error_response_def CommonError_Response_def RC_defs split: option.splits if_splits)
  have "target = root @ drop (length root) target"
    using T(2) by (metis append_take_drop_id)
  moreover obtain d sz t where "fe_Open fe target = Some d" "fe_Size fe target = Inr sz"
      "r = fs_response RC_OK (GetMimeType (fe_Extension fe target)) sz (fe_Format fe t) (reader_of (FS_Read junk) (sz, 0, Some d))"
    using R FS_Response_ok assms(2) by blast
  ultimately show ?thesis
    using T by metis
qed

theorem files_confined_witness:
  "\<exists>r rest d. FS_Create sample_fs (\<lambda>_. NUL) [''/'', ''srv''] \<lparr>rq_Method = METHOD_GET, rq_Resource = ''/a'', rq_Query = qp_init 0 (upload_init 0 0),
      rq_HeaderA = [], rq_Content = None\<rparr> = Created r \<and> fe_Open sample_fs ([''/'', ''srv''] @ rest) = Some d"
proof -
  let ?q = "\<lparr>rq_Method = METHOD_GET, rq_Resource = ''/a'', rq_Query = qp_init 0 (upload_init 0 0), rq_HeaderA = [], rq_Content = None\<rparr>"
  have "\<exists>r. FS_Create sample_fs (\<lambda>_. NUL) [''/'', ''srv''] ?q = Created r \<and> rp_ResponseCode r = RC_OK"
    by (simp add: FS_Create_def sample_fs_def FS_Response_def fs_response_def NO_LENGTH_def)
  then show ?thesis
    using files_confined [of sample_fs "\<lambda>_. NUL" "[''/'', ''srv'']" ?q] by blast
qed

text \<open>Note: a file is sent exactly, if its size is still the one the response announced, for every size of
  the write buffer.\<close>

theorem file_sent:
  assumes "d \<noteq> []" "length d \<le> ce_Fuel env" "length d < NO_LENGTH"
  shows "response_wire env count cors (fs_response RC_OK mime (length d) t (reader_of (FS_Read junk) (length d, 0, Some d)))
    = Some (head_text env count cors (fs_response RC_OK mime (length d) t (reader_of (FS_Read junk) (length d, 0, Some d))) @ d)"
  by (rule file_body.sent [where junk = junk and n = "length d"]) (use assms in \<open>simp_all add: fs_response_def HTTP_WriteBuffSize_def\<close>)

theorem file_sent_witness:
  "response_wire sample_env 0 True (fs_response RC_OK ''text/plain'' (length ''hello'') [] (reader_of (FS_Read (\<lambda>_. NUL)) (length ''hello'', 0, Some ''hello'')))
    = Some (head_text sample_env 0 True (fs_response RC_OK ''text/plain'' (length ''hello'') []
        (reader_of (FS_Read (\<lambda>_. NUL)) (length ''hello'', 0, Some ''hello''))) @ ''hello'')"
  by (rule file_sent) (simp_all add: sample_env_def NO_LENGTH_def)

end
