(* ===== verification/HttpDate.thy ===== *)
theory HttpDate
  imports RespSources
begin

text \<open>
  Dates: \<open>FormatDateTime\<close> of Header.cpp, and what a client gets that sends a date back to the file
  source. \<open>GMTime\<close> and \<open>TimeGM\<close>, which are calls of the C library, are parameters; the conversions
  of \<open>strftime\<close> are those of the C locale.
\<close>

section \<open>Formatting\<close>

definition wdays :: "string list" where
  "wdays = [''Sun'', ''Mon'', ''Tue'', ''Wed'', ''Thu'', ''Fri'', ''Sat'']"

text \<open>The conversions \<open>%Y\<close>, and \<open>%d\<close>, \<open>%H\<close>, \<open>%M\<close>, \<open>%S\<close>.\<close>

definition fmt_Y :: "int \<Rightarrow> string" where
  "fmt_Y y = (if y < 0 then CHR ''-'' # dec (nat (- y)) else dec (nat y))"

definition fmt_2 :: "int \<Rightarrow> string" where
  "fmt_2 n = d2 (nat n)"

text \<open>\<open>strftime\<close> into the 30 characters of the buffer; if the text does not fit, what the buffer holds is
  not specified.\<close>

definition FormatDateTime :: "(int \<Rightarrow> tm option) \<Rightarrow> int \<Rightarrow> string option" where
  "FormatDateTime gmtime timestamp =
     (case gmtime timestamp of
        None \<Rightarrow> Some []
      | Some t \<Rightarrow>
          let s = wdays ! nat (tm_wday t) @ '', '' @ fmt_2 (tm_mday t) @ '' '' @ months ! nat (tm_mon t) @ '' '' @ fmt_Y (tm_year t + 1900)
                @ '' '' @ fmt_2 (tm_hour t) @ '':'' @ fmt_2 (tm_min t) @ '':'' @ fmt_2 (tm_sec t) @ '' GMT''
          in if length s < 30 then Some s else None)"

text \<open>A broken-down time in the ranges \<open>gmtime\<close> gives, for the years of four digits.\<close>

definition tm_ok :: "tm \<Rightarrow> bool" where
  "tm_ok t \<longleftrightarrow> 0 \<le> tm_wday t \<and> tm_wday t < 7 \<and> 1 \<le> tm_mday t \<and> tm_mday t \<le> 31 \<and> 0 \<le> tm_mon t \<and> tm_mon t < 12
     \<and> 0 < tm_year t \<and> tm_year t < 8100 \<and> 0 \<le> tm_hour t \<and> tm_hour t < 24 \<and> 0 \<le> tm_min t \<and> tm_min t < 60
     \<and> 0 \<le> tm_sec t \<and> tm_sec t < 61"

text \<open>The fields \<open>GetDateTime\<close> sets, with another month.\<close>

definition parsed_tm :: "tm \<Rightarrow> int \<Rightarrow> tm" where
  "parsed_tm t mon = t\<lparr>tm_mon := mon, tm_wday := 0, tm_yday := 0, tm_isdst := 0\<rparr>"

lemma dec_step: "\<not> n < 10 \<Longrightarrow> dec n = dec (n div 10) @ [digit (n mod 10)]" "n < 10 \<Longrightarrow> dec n = [digit n]"
  by (simp_all add: dec.simps)

lemma dec_four:
  assumes "1000 \<le> n" "n < 10000"
  shows "dec n = d4 n"
proof -
  define a b c where abc: "a = n div 10" "b = a div 10" "c = b div 10"
  have n: "\<not> n < 10" "\<not> a < 10" "\<not> b < 10" "c < 10"
    unfolding abc using assms by linarith+
  have "dec n = (([digit c] @ [digit (b mod 10)]) @ [digit (a mod 10)]) @ [digit (n mod 10)]"
    using dec_step(1) [OF n(1)] dec_step(1) [OF n(2)] dec_step(1) [OF n(3)] dec_step(2) [OF n(4)] by (simp only: abc)
  moreover have "n div 100 = b"
    unfolding abc div_mult2_eq [symmetric] by simp
  moreover have "n mod 100 = 10 * (a mod 10) + n mod 10"
    using mod_mult2_eq [of n 10 10] by (simp add: abc)
  ultimately show ?thesis
    by (simp add: d4_def d2_def abc)
qed

lemma wdays_facts:
  assumes "n < 7"
  shows "length (wdays ! n) = 3 \<and> NUL \<notin> set (wdays ! n)"
proof -
  have "length wdays = 7"
    by (simp add: wdays_def)
  then have "wdays ! n \<in> set wdays"
    using assms by simp
  moreover have "\<forall>w \<in> set wdays. length w = 3 \<and> NUL \<notin> set w"
    by (simp add: wdays_def)
  ultimately show ?thesis by blast
qed

lemma months_length:
  assumes "n < 12"
  shows "length (months ! n) = 3"
proof -
  have "length months = 12"
    by (simp add: months_def)
  then have "months ! n \<in> set months"
    using assms by simp
  moreover have "\<forall>m \<in> set months. length m = 3"
    by (simp add: months_def)
  ultimately show ?thesis by blast
qed

lemma FormatDateTime_rfc1123:
  assumes "gmtime x = Some t" "tm_ok t"
  shows "FormatDateTime gmtime x = Some (rfc1123 (wdays ! nat (tm_wday t)) (nat (tm_mday t)) (nat (tm_mon t)) (nat (tm_year t + 1900))
    (nat (tm_hour t)) (nat (tm_min t)) (nat (tm_sec t)))"
proof -
  have "1000 \<le> nat (tm_year t + 1900)" "nat (tm_year t + 1900) < 10000" "\<not> tm_year t + 1900 < 0"
    using assms(2) by (auto simp: tm_ok_def)
  then have "fmt_Y (tm_year t + 1900) = d4 (nat (tm_year t + 1900))"
    using dec_four [of "nat (tm_year t + 1900)"] by (simp only: fmt_Y_def if_False)
  moreover have "length (months ! nat (tm_mon t)) = 3"
    using assms(2) by (intro months_length) (auto simp: tm_ok_def)
  moreover have "length (wdays ! nat (tm_wday t)) = 3"
    using assms(2) wdays_facts [of "nat (tm_wday t)"] by (auto simp: tm_ok_def)
  ultimately show ?thesis
    using assms(1) by (simp add: FormatDateTime_def rfc1123_def fmt_2_def d2_def d4_def Let_def)
qed

text \<open>What a date in the server's own format is read as.\<close>

lemma formatted_date_read:
  assumes "gmtime x = Some t" "tm_ok t" "FormatDateTime gmtime x = Some s" "hd_Value h = Some s"
    "timegm (parsed_tm t (if tm_mon t = 1 then 2 else tm_mon t)) \<noteq> -1"
  shows "GetDateTime timegm h = Some (Inr (timegm (parsed_tm t (if tm_mon t = 1 then 2 else tm_mon t))))"
proof -
  have p: "parsed_tm t (if tm_mon t = 1 then 2 else tm_mon t) = \<lparr>tm_sec = int (nat (tm_sec t)), tm_min = int (nat (tm_min t)),
      tm_hour = int (nat (tm_hour t)), tm_mday = int (nat (tm_mday t)), tm_mon = (if nat (tm_mon t) = 1 then 2 else int (nat (tm_mon t))),
      tm_year = int (nat (tm_year t + 1900)) - 1900, tm_wday = 0, tm_yday = 0, tm_isdst = 0\<rparr>"
    using assms(2) by (cases t) (auto simp: parsed_tm_def tm_ok_def)
  have "nat (tm_wday t) < 7"
    using assms(2) by (auto simp: tm_ok_def)
  note w = wdays_facts [OF this]
  show ?thesis
    using FormatDateTime_rfc1123 [where gmtime = gmtime and x = x and t = t, OF assms(1,2)] w assms
    by (intro date_fields_parsed [where mon = "nat (tm_mon t)", OF _ _ _ _ _ _ _ _ _ _ arg_cong [OF p]]) (auto simp: tm_ok_def)
qed

section \<open>Conditional requests\<close>

lemma FS_Create_not_modified:
  assumes "fe_Canonical fe root (rq_Resource rq) = Some (root @ rest)" "fe_Exists fe (root @ rest)" "\<not> fe_IsDirectory fe (root @ rest)"
    "fe_WriteTime fe (root @ rest) = Inr modified" "rq_HeaderA rq = hs @ h # hs'" "\<forall>g \<in> set hs. hd_IntName g \<noteq> HN_IF_MOD_SINCE"
    "hd_IntName h = HN_IF_MOD_SINCE" "GetDateTime (fe_TimeGM fe) h = Some (Inr since)" "since \<noteq> 0" "modified \<le> since"
  shows "\<exists>mime. FS_Create fe junk root rq = Created (fs_response RC_NOTMODIFIED mime 0 (fe_Format fe modified) (reader_of FS_Read_unmodified ()))"
proof -
  have "if_modified_since (fe_TimeGM fe) (hs @ h # hs') = Some since"
    using assms(6) by (induction hs) (simp_all add: assms(7,8))
  then show ?thesis
    using assms by (intro exI [of _ "GetMimeType (fe_Extension fe (root @ rest))"]) (simp add: FS_Create_def FS_Response_def)
qed

lemma not_modified_sent:
  "rp_ResponseCode (fs_response RC_NOTMODIFIED mime 0 t rd) = 304"
  "response_wire env count cors (fs_response RC_NOTMODIFIED mime 0 t rd) = Some (head_text env count cors (fs_response RC_NOTMODIFIED mime 0 t rd))"
  by (simp_all add: fs_response_def response_wire_def RC_NOTMODIFIED_def)

text \<open>C26: a client that sends back the date it was given is not sent the file again. For a file last
  changed at any time of the years 1901 to 9999 but in February, a request with the date of an earlier
  response as its first If-Modified-Since header is answered with status 304 and no content, if the file
  is still the same.\<close>

theorem conditional_get:
  assumes "fe_Canonical fe root (rq_Resource rq) = Some (root @ rest)" "fe_Exists fe (root @ rest)" "\<not> fe_IsDirectory fe (root @ rest)"
    "fe_WriteTime fe (root @ rest) = Inr x" "rq_HeaderA rq = hs @ h # hs'" "\<forall>g \<in> set hs. hd_IntName g \<noteq> HN_IF_MOD_SINCE"
    "hd_IntName h = HN_IF_MOD_SINCE" "hd_Value h = Some (fe_Format fe x)" "FormatDateTime gmtime x = Some (fe_Format fe x)"
    "gmtime x = Some t" "tm_ok t" "tm_mon t \<noteq> 1" "fe_TimeGM fe (parsed_tm t (tm_mon t)) = x" "x \<noteq> -1" "x \<noteq> 0"
  shows "\<exists>r. FS_Create fe junk root rq = Created r \<and> rp_ResponseCode r = 304 \<and> response_wire env count cors r = Some (head_text env count cors r)"
proof -
  have "GetDateTime (fe_TimeGM fe) h = Some (Inr x)"
    using formatted_date_read [OF assms(10,11,9,8), of "fe_TimeGM fe"] assms(12-14) by simp
  from FS_Create_not_modified [OF assms(1-7) this assms(15) order_refl] show ?thesis
    using not_modified_sent by blast
qed

text \<open>C34: a file changed after a date in February is taken as unchanged. February is read as March, so a
  client whose copy is from a day in February is told that the file was not modified, although it was
  changed later, as long as the change is not later than the same day and time in March.\<close>

theorem february_stale:
  assumes "fe_Canonical fe root (rq_Resource rq) = Some (root @ rest)" "fe_Exists fe (root @ rest)" "\<not> fe_IsDirectory fe (root @ rest)"
    "fe_WriteTime fe (root @ rest) = Inr changed" "rq_HeaderA rq = hs @ h # hs'" "\<forall>g \<in> set hs. hd_IntName g \<noteq> HN_IF_MOD_SINCE"
    "hd_IntName h = HN_IF_MOD_SINCE" "hd_Value h = Some s" "FormatDateTime gmtime x = Some s"
    "gmtime x = Some t" "tm_ok t" "tm_mon t = 1" "0 < x" "x < changed" "changed \<le> fe_TimeGM fe (parsed_tm t 2)"
  shows "\<exists>r. FS_Create fe junk root rq = Created r \<and> rp_ResponseCode r = 304 \<and> response_wire env count cors r = Some (head_text env count cors r)"
proof -
  have "GetDateTime (fe_TimeGM fe) h = Some (Inr (fe_TimeGM fe (parsed_tm t 2)))"
    using formatted_date_read [OF assms(10,11,9,8), of "fe_TimeGM fe"] assms(12-15) by simp
  from FS_Create_not_modified [OF assms(1-7) this _ assms(15)] show ?thesis
    using not_modified_sent assms(13-15) by fastforce
qed

section \<open>Samples\<close>

definition sample_tm :: "int \<Rightarrow> tm" where
  "sample_tm mon = \<lparr>tm_sec = 1, tm_min = 2, tm_hour = 3, tm_mday = 4, tm_mon = mon, tm_year = 101, tm_wday = 0, tm_yday = 0, tm_isdst = 0\<rparr>"

definition sample_date :: "int \<Rightarrow> string" where
  "sample_date mon = rfc1123 ''Sun'' 4 (nat mon) 2001 3 2 1"

definition sample_date_fs :: "int \<Rightarrow> int \<Rightarrow> fs_env" where
  "sample_date_fs mon x = sample_fs\<lparr>fe_Format := \<lambda>_. sample_date mon, fe_WriteTime := \<lambda>_. Inr x, fe_TimeGM := \<lambda>t. if tm_mon t = 2 then 9 else 7\<rparr>"

definition sample_date_request :: "int \<Rightarrow> request" where
  "sample_date_request mon = \<lparr>rq_Method = METHOD_GET, rq_Resource = ''/a'', rq_Query = qp_init 0 (upload_init 0 0),
     rq_HeaderA = [\<lparr>hd_Name = [], hd_Value = Some (sample_date mon), hd_IntName = HN_IF_MOD_SINCE\<rparr>], rq_Content = None\<rparr>"

lemma sample_date_facts:
  assumes "mon = 1 \<or> mon = 9"
  shows "tm_ok (sample_tm mon)" "FormatDateTime (\<lambda>_. Some (sample_tm mon)) x = Some (sample_date mon)"
  "fe_Canonical (sample_date_fs mon x) [''/'', ''srv''] (rq_Resource (sample_date_request mon)) = Some ([''/'', ''srv''] @ [''a''])"
  "fe_Exists (sample_date_fs mon x) ([''/'', ''srv''] @ [''a''])" "\<not> fe_IsDirectory (sample_date_fs mon x) ([''/'', ''srv''] @ [''a''])"
  "fe_WriteTime (sample_date_fs mon x) ([''/'', ''srv''] @ [''a'']) = Inr x" "fe_Format (sample_date_fs mon x) y = sample_date mon"
  "rq_HeaderA (sample_date_request mon) = [] @ \<lparr>hd_Name = [], hd_Value = Some (sample_date mon), hd_IntName = HN_IF_MOD_SINCE\<rparr> # []"
  "fe_TimeGM (sample_date_fs mon x) t = (if tm_mon t = 2 then 9 else 7)" "tm_mon (sample_tm mon) = mon" "tm_mon (parsed_tm (sample_tm mon) m) = m"
proof -
  show ok: "tm_ok (sample_tm mon)"
    using assms by (auto simp: tm_ok_def sample_tm_def)
  show "FormatDateTime (\<lambda>_. Some (sample_tm mon)) x = Some (sample_date mon)"
    using FormatDateTime_rfc1123 [where gmtime = "\<lambda>_. Some (sample_tm mon)" and x = x, OF refl ok] by (simp add: sample_date_def sample_tm_def wdays_def)
qed (simp_all add: sample_date_fs_def sample_fs_def sample_date_request_def sample_tm_def parsed_tm_def)

theorem conditional_get_witness:
  "\<exists>r. FS_Create (sample_date_fs 9 7) (\<lambda>_. NUL) [''/'', ''srv''] (sample_date_request 9) = Created r \<and> rp_ResponseCode r = 304"
proof -
  have m: "(9 :: int) = 1 \<or> (9 :: int) = 9" by simp
  note f = sample_date_facts [OF m]
  have "\<exists>r. FS_Create (sample_date_fs 9 7) (\<lambda>_. NUL) [''/'', ''srv''] (sample_date_request 9) = Created r \<and> rp_ResponseCode r = 304
      \<and> response_wire sample_env 0 True r = Some (head_text sample_env 0 True r)"
    by (rule conditional_get [OF f(3) f(4) f(5) f(6) f(8), where gmtime = "\<lambda>_. Some (sample_tm 9)" and t = "sample_tm 9"]) (simp_all add: f)
  then show ?thesis by blast
qed

theorem february_stale_witness:
  "\<exists>r. FS_Create (sample_date_fs 1 8) (\<lambda>_. NUL) [''/'', ''srv''] (sample_date_request 1) = Created r \<and> rp_ResponseCode r = 304"
proof -
  have m: "(1 :: int) = 1 \<or> (1 :: int) = 9" by simp
  note f = sample_date_facts [OF m]
  have "\<exists>r. FS_Create (sample_date_fs 1 8) (\<lambda>_. NUL) [''/'', ''srv''] (sample_date_request 1) = Created r \<and> rp_ResponseCode r = 304
      \<and> response_wire sample_env 0 True r = Some (head_text sample_env 0 True r)"
    by (rule february_stale [OF f(3) f(4) f(5) f(6) f(8), where gmtime = "\<lambda>_. Some (sample_tm 1)" and t = "sample_tm 1" and x = 7]) (simp_all add: f)
  then show ?thesis by blast
qed

end
