(* ===== verification/EchoSession.thy ===== *)
theory EchoSession
  imports WSHandshake
begin

text \<open>
  The message handler of the echo source, WSEchoRespSource.cpp, over the interface it sends with,
  WebSocket/IMsgSender.h. The locale is the contract of that interface; the WebSocket connection keeps
  it, and so what the handler answers reaches the socket.
\<close>

section \<open>The handler\<close>




section \<open>The contract of a sender\<close>




section \<open>Properties\<close>



end
