(* ===== verification/CoroSource.thy ===== *)
theory CoroSource
  imports RespSources
begin

text \<open>
  Responses written by a coroutine, CoroRespSource.h, and sources made of a function,
  GenericRespSource.h. The coroutine is what it does each time it is resumed: it writes bytes into the
  buffer it is given, or it ends. What it does before it calls \<open>Finalize\<close> are the settings of the
  response.
\<close>

section \<open>The coroutine\<close>

text \<open>\<open>Some (w, k)\<close>: the bytes of one call of \<open>Write\<close> for a buffer of that length, and the rest of the
  coroutine; \<open>None\<close>: it has returned.\<close>

codatatype coro = Coro (coro_resume: "nat \<Rightarrow> (string \<times> coro) option")

primcorec coro_from :: "('s \<Rightarrow> nat \<Rightarrow> (string \<times> 's) option) \<Rightarrow> 's \<Rightarrow> coro" where
  "coro_resume (coro_from f s) = (\<lambda>m. map_option (map_prod id (coro_from f)) (f s m))"

text \<open>The settings of \<open>ResponseParams\<close>.\<close>

record coro_params =
  cp_Response :: simple_response
  cp_ResponseLength :: nat

definition coro_params_init :: coro_params where
  "coro_params_init = \<lparr>cp_Response = SimpleResponse_init, cp_ResponseLength = NO_LENGTH\<rparr>"

definition SetResponseCode :: "nat \<Rightarrow> coro_params \<Rightarrow> coro_params" where
  "SetResponseCode code p = p\<lparr>cp_Response := (cp_Response p)\<lparr>sm_ResponseCode := code\<rparr>\<rparr>"

definition SetContentType :: "string \<Rightarrow> coro_params \<Rightarrow> coro_params" where
  "SetContentType ct p = p\<lparr>cp_Response := (cp_Response p)\<lparr>sm_ContentType := ct\<rparr>\<rparr>"

text \<open>\<open>GetResponseHeaders().emplace_back\<close>.\<close>

definition AddResponseHeader :: "string \<Rightarrow> string \<Rightarrow> coro_params \<Rightarrow> coro_params" where
  "AddResponseHeader name val p = p\<lparr>cp_Response := (cp_Response p)\<lparr>sm_Headers := sm_Headers (cp_Response p) @ [(name, val)]\<rparr>\<rparr>"

definition SetResponseLength :: "nat \<Rightarrow> coro_params \<Rightarrow> coro_params" where
  "SetResponseLength len p = p\<lparr>cp_ResponseLength := len\<rparr>"

definition SetUnknownResponseLength :: "coro_params \<Rightarrow> coro_params" where
  "SetUnknownResponseLength p = p\<lparr>cp_ResponseLength := NO_LENGTH\<rparr>"

text \<open>\<open>Read\<close> resumes the coroutine; one that has ended must not be resumed again.\<close>

definition Coro_Read :: "coro option \<Rightarrow> nat \<Rightarrow> (string \<times> bool \<times> coro option) option" where
  "Coro_Read st maxLength =
     (case st of
        None \<Rightarrow> None
      | Some k \<Rightarrow>
          (case coro_resume k maxLength of
             None \<Rightarrow> Some ([], True, None)
           | Some (w, k') \<Rightarrow> Some (w, w = [], Some k')))"

text \<open>The constructor runs the function up to \<open>Finalize\<close>.\<close>

definition CoroResponse :: "(request \<Rightarrow> coro_params \<Rightarrow> coro_params \<times> coro) \<Rightarrow> request \<Rightarrow> response" where
  "CoroResponse target rq = (case target rq coro_params_init of
     (p, k) \<Rightarrow> SimpleResponse (cp_Response p) (cp_ResponseLength p) (reader_of Coro_Read (Some k)))"

definition Generic_Create :: "(request \<Rightarrow> created) \<Rightarrow> request \<Rightarrow> created" where
  "Generic_Create target rq = target rq"

definition make_coro_respsource :: "(request \<Rightarrow> coro_params \<Rightarrow> coro_params \<times> coro) \<Rightarrow> request \<Rightarrow> created" where
  "make_coro_respsource respGen = Generic_Create (\<lambda>rq. Created (CoroResponse respGen rq))"

section \<open>Coroutines that write a list\<close>

fun coro_of :: "string list \<Rightarrow> coro" where
  "coro_of [] = Coro (\<lambda>_. None)"
| "coro_of (w # ws) = Coro (\<lambda>_. Some (w, coro_of ws))"

lemma coro_read_of:
  "Coro_Read (Some (coro_of [])) m = Some ([], True, None)"
  "Coro_Read (Some (coro_of (w # ws))) m = Some (w, w = [], Some (coro_of ws))"
  by (simp_all add: Coro_Read_def)

lemma coro_chunks:
  "\<forall>w \<in> set ws. w \<noteq> [] \<and> length w \<le> chunk_room \<Longrightarrow> length ws < fuel \<Longrightarrow>
    chunk_parts fuel (reader_of Coro_Read (Some (coro_of ws))) = Some ws"
proof (induction ws arbitrary: fuel)
  case Nil
  then show ?case by (cases fuel) (simp_all add: coro_read_of del: coro_of.simps)
next
  case (Cons w ws)
  then obtain f where "fuel = Suc f" by (cases fuel) auto
  with Cons show ?case by (simp add: coro_read_of del: coro_of.simps)
qed

text \<open>A body of known length: the bytes are sent, but the end is never seen.\<close>

lemma coro_body:
  assumes "writes_ok env"
  shows "idle q \<Longrightarrow> \<forall>w \<in> set ws. w \<noteq> [] \<and> length w \<le> HTTP_WriteBuffSize \<Longrightarrow> ws \<noteq> [] \<Longrightarrow> length ws \<le> fuel \<Longrightarrow>
    \<exists>q' out' t'. length_body env fuel (reader_of Coro_Read (Some (coro_of ws))) (length (concat ws)) sent (wio q out t c)
      = Ret (False, sent + length (concat ws)) (wio q' out' t' c) \<and> idle q' \<and> concat out' = concat out @ concat ws"
proof (induction ws arbitrary: fuel sent q out t)
  case (Cons w ws)
  obtain f where f: "fuel = Suc f" using Cons.prems(4) by (cases fuel) auto
  have w: "w \<noteq> []" "length w \<le> HTTP_WriteBuffSize" using Cons.prems(2) by simp_all
  obtain q1 out1 t1 where W: "WriteNext env (put env HTTP_WriteBuffSize w (wio q out 0 c)) = Ret () (wio q1 out1 t1 c)" "idle q1"
      "concat out1 = concat out @ w"
    using WriteNext_put [OF assms Cons.prems(1) _ w(2), of out 0 c] by (auto simp: HTTP_WriteBuffSize_def)
  show ?case
  proof (cases "ws = []")
    case True
    then show ?thesis
      using w W by (simp add: f coro_read_of Let_def del: coro_of.simps) blast
  next
    case False
    have ws: "\<forall>w \<in> set ws. w \<noteq> [] \<and> length w \<le> HTTP_WriteBuffSize" "length ws \<le> f"
      using Cons.prems(2,4) f by simp_all
    then have ne: "concat ws \<noteq> []"
      using False by (cases ws) auto
    obtain q' out' t' where R: "length_body env f (reader_of Coro_Read (Some (coro_of ws))) (length (concat ws)) (sent + length w) (wio q1 out1 t1 c)
        = Ret (False, sent + length w + length (concat ws)) (wio q' out' t' c)" "idle q'" "concat out' = concat out1 @ concat ws"
      using Cons.IH [OF W(2) ws(1) False ws(2)] by blast
    then show ?thesis
      using w W ne by (simp add: f coro_read_of Let_def add.assoc del: coro_of.simps) blast
  qed
qed simp

section \<open>Properties\<close>

text \<open>Note: a coroutine that does not announce a length is answered by the chunked coding of exactly its
  writes, in order, whatever their number and their sizes up to the room of a chunk.\<close>

theorem coro_sent_chunked:
  assumes "target rq coro_params_init = (p, coro_of ws)" "cp_ResponseLength p = NO_LENGTH"
    "\<forall>w \<in> set ws. w \<noteq> [] \<and> length w \<le> chunk_room" "length ws < ce_Fuel env"
  shows "\<exists>r. make_coro_respsource target rq = Created r \<and> rp_ResponseCode r = sm_ResponseCode (cp_Response p)
    \<and> response_wire env count cors r = Some (head_text env count cors r @ concat (map chunk ws) @ final_chunk)"
  using assms coro_chunks [OF assms(3,4)]
  by (simp add: make_coro_respsource_def Generic_Create_def CoroResponse_def SimpleResponse_def response_wire_def NO_LENGTH_def)

definition sample_coro_request :: request where
  "sample_coro_request = \<lparr>rq_Method = METHOD_GET, rq_Resource = ''/'', rq_Query = qp_init 0 (upload_init 0 0), rq_HeaderA = [], rq_Content = None\<rparr>"

definition sample_coro_conn :: conn where
  "sample_coro_conn = conn_init sample_env (upload_init 0 0) 0 []"

theorem coro_sent_chunked_witness:
  "\<exists>r. make_coro_respsource (\<lambda>rq p. (SetResponseCode 200 p, coro_of [''abc'', ''def''])) sample_coro_request = Created r
    \<and> response_wire (sample_env\<lparr>ce_Fuel := 9\<rparr>) 0 True r
      = Some (head_text (sample_env\<lparr>ce_Fuel := 9\<rparr>) 0 True r @ concat (map chunk [''abc'', ''def'']) @ final_chunk)"
proof -
  have "cp_ResponseLength (SetResponseCode 200 coro_params_init) = NO_LENGTH"
      "\<forall>w \<in> set [''abc'', ''def'']. w \<noteq> [] \<and> length w \<le> chunk_room" "length [''abc'', ''def''] < ce_Fuel (sample_env\<lparr>ce_Fuel := 9\<rparr>)"
    by (simp_all add: SetResponseCode_def coro_params_init_def HTTP_WriteBuffSize_def ChunkHeaderLen_def ChunkFooterLength_def)
  then show ?thesis
    using coro_sent_chunked [of "\<lambda>rq p. (SetResponseCode 200 p, coro_of [''abc'', ''def''])" sample_coro_request _ "[''abc'', ''def'']" "sample_env\<lparr>ce_Fuel := 9\<rparr>" 0 True]
    by blast
qed

text \<open>The response of a coroutine with these settings that then writes a list.\<close>

definition coro_response :: "coro_params \<Rightarrow> string list \<Rightarrow> response" where
  "coro_response p ws = SimpleResponse (cp_Response p) (cp_ResponseLength p) (reader_of Coro_Read (Some (coro_of ws)))"

text \<open>C36: a coroutine that announces the length it then writes, as the example in the documentation does.
  The client of a request that asks for no closing gets the header lines and all bytes of the coroutine, but the
  loop of the response ends with the length and not with the end of the coroutine, so its result is false:
  the protocol ends, the connection is closed instead of kept alive, and whatever requests follow are not
  answered.\<close>

theorem coro_known_length_closes:
  assumes "\<forall>n. ce_WriteOk env n" "ce_Create env = (\<lambda>_. make_coro_respsource target)"
    "\<forall>rq. asks rq r \<longrightarrow> target rq coro_params_init = (p, coro_of ws)" "cp_ResponseLength p = length (concat ws)"
    "cp_ResponseLength p \<noteq> NO_LENGTH" "\<forall>w \<in> set ws. w \<noteq> [] \<and> length w \<le> HTTP_WriteBuffSize" "ws \<noteq> []" "length ws \<le> ce_Fuel env"
    "head_fits env 1 True (coro_response p ws)" "length (head_text env 1 True (coro_response p ws)) < head_limit env"
    "get_ok safe r" "[] \<notin> set segs" "concat segs = request_text safe r @ rest" "length (concat segs) \<le> HTTP_ReadBuffSize"
  shows "\<exists>c. ProtocolHandler env (Suc fuel) (conn_init env u junk segs) = Some c
    \<and> concat (cn_Out c) = head_text env 1 True (coro_response p ws) @ concat ws \<and> \<not> cn_Open c \<and> cn_IsDeletable c"
proof -
  let ?c = "conn_init env u junk segs"
  define rp where "rp = coro_response p ws"
  note rp_eq = rp_def [unfolded coro_response_def]
  have c: "cn_ResponseCount ?c = 0" "cn_Out ?c = []" "length (rb_buf (cn_ReadBuff ?c)) = HTTP_ReadBuffSize"
    by (simp_all add: conn_init_def srb_init_def)
  have B: "inside [] (request_text safe r @ rest) ?c"
    using inside_between [OF between_init [OF assms(12,14)] c(3)] assms(13) by (simp add: request_text_def CRLF_def)
  obtain c1 where c1: "HeaderHandler (ResetRequestData env ?c) = Ret True c1" "cn_CurrMethod c1 = METHOD_GET"
      "asks (conn_request (counted c1)) r" "cn_Out c1 = []" "cn_ResponseCount c1 = 0" "idle (cn_WriteBuff c1)"
    using request_read [OF assms(11) B, of env] unfolding c(1,2) by blast
  have n: "cn_ResponseCount (counted c1) = 1"
    using c1(5) by (simp add: counted_def u32_simps)
  have "ce_Create env k (conn_request (counted c1)) = Created rp" for k
    using assms(2,3) c1(3) by (simp add: make_coro_respsource_def Generic_Create_def CoroResponse_def rp_eq)
  moreover have "CORSPreflight_Create (conn_request (counted c1)) = None"
    using c1(2) by (simp add: conn_request_def counted_def CORSPreflight_Create_def)
  ultimately have ch: "choose_response env (cn_ResponseCount (counted c1)) (conn_request (counted c1)) = Some (Responder rp True)"
    by (simp add: choose_response_def Let_def)
  have rp: "rp_Length rp = length (concat ws)" "rp_Length rp \<noteq> NO_LENGTH" "rp_Read rp = reader_of Coro_Read (Some (coro_of ws))"
    using assms(4,5) by (simp_all add: rp_eq SimpleResponse_def)
  obtain q1 out1 t1 where h: "idle q1" "concat out1 = head_text env 1 True rp"
      and R: "ResponseHandler env c1 = seq (length_body env (ce_Fuel env) (rp_Read rp) (rp_Length rp) 0 (wio q1 out1 t1 (counted c1)))
              (\<lambda>y c2. case y of (keep, sent) \<Rightarrow> finish_response env rp keep sent c2)"
    using ResponseHandler_head [OF assms(1) c1(6) ch] assms(9,10) rp(2) c1(4) unfolding n rp_def [symmetric] by auto
  obtain q2 out2 t2 where b: "length_body env (ce_Fuel env) (rp_Read rp) (rp_Length rp) 0 (wio q1 out1 t1 (counted c1))
      = Ret (False, 0 + length (concat ws)) (wio q2 out2 t2 (counted c1))" "idle q2" "concat out2 = concat out1 @ concat ws"
    using coro_body [OF assms(1) h(1) assms(6,7,8), of 0 out1 t1 "counted c1"] unfolding rp(1,3) by blast
  have q2: "wq_inv q2" "wq_inflight q2 = []" "wq_pending q2 = []"
    using b(2) idle_queues by (auto simp: idle_def)
  obtain q out t where F: "finish_response env rp False (length (concat ws)) (wio q2 out2 t2 (counted c1))
      = Ret (False \<and> rp_Upgrade rp = None) (logged rp (length (concat ws)) (wio q out t (counted c1)))" "concat out = concat out2 @ wq_pending q2"
    using finish_response_sent [OF assms(1) q2(1,2), of rp False "length (concat ws)" out2 t2 "counted c1"] by blast
  let ?d = "logged rp (length (concat ws)) (wio q out t (counted c1))"
  have "ResponseHandler env c1 = Ret False ?d"
    using R b(1) F(1) by simp
  then have "protocol_loop env (Suc fuel) ?c = Ret () ?d"
    using c1(1,2) by simp
  moreover have "concat (cn_Out ?d) = head_text env 1 True rp @ concat ws"
    using F(2) b(3) h(2) q2(3) by (simp add: logged_def)
  ultimately show ?thesis
    unfolding rp_def [symmetric] by (simp add: ProtocolHandler_def)
qed

definition sample_coro_env :: conn_env where
  "sample_coro_env = sample_env\<lparr>ce_Create := \<lambda>_. make_coro_respsource (\<lambda>_ p. (SetResponseLength 6 p, coro_of [''abc'', ''def'']))\<rparr>"

theorem coro_known_length_closes_witness:
  "\<exists>c h. ProtocolHandler sample_coro_env 1 (conn_init sample_coro_env (upload_init 0 0) 0
      [request_text plain_char sample_request, request_text plain_char sample_request]) = Some c
    \<and> concat (cn_Out c) = h @ ''abcdef'' \<and> \<not> cn_Open c"
proof -
  let ?p = "SetResponseLength 6 coro_params_init" and ?ws = "[''abc'', ''def'']" and ?t = "request_text plain_char sample_request"
  let ?rp = "coro_response ?p ?ws"
  have d: "dec 500 = ''500''" "dec 6 = ''6''"
    by (simp_all add: dec.simps digit_def char_of_def bit_0)
  have f: "head_fits sample_coro_env 1 True ?rp" "length (head_text sample_coro_env 1 True ?rp) < head_limit sample_coro_env"
    by (simp_all add: head_fits_def head_text_def head_lines_def status_line_def content_type_line_def date_line_def length_line_def
        extra_text_def sample_coro_env_def sample_env_def default_config_def head_limit_def coro_response_def SimpleResponse_def SetResponseLength_def coro_params_init_def
        SimpleResponse_init_def d GetResponseName_def RC_defs CRLF_def cstr_def NO_LENGTH_def)
  have "?t \<noteq> []" "length ?t < 100" "get_ok plain_char sample_request"
    using sample_request_facts by (auto simp: get_ok_def) (simp_all add: sample_request_def)
  then show ?thesis
    using coro_known_length_closes [of sample_coro_env "\<lambda>_ p. (SetResponseLength 6 p, coro_of ?ws)" sample_request ?p ?ws plain_char "[?t, ?t]" ?t 0 "upload_init 0 0" 0]
      f by (auto simp: sample_coro_env_def sample_env_def SetResponseLength_def HTTP_WriteBuffSize_def HTTP_ReadBuffSize_def NO_LENGTH_def)
qed

end
