(* ===== verification/ZipArchive.thy ===== *)
theory ZipArchive
  imports RespSources
begin

text \<open>
  The reader of archives, detail/ZipArchive.cpp: input file streams with their fail bit, the
  little-endian fields, loading the central directory, and the stream of one member. The bytes of
  the archive file and the platform's \<open>mktime\<close> are parameters.
\<close>

section \<open>File streams\<close>

text \<open>An open \<open>std::ifstream\<close>. After a failure a read stores nothing and a seek does nothing.\<close>

record istream =
  is_Data :: string
  is_Pos :: nat
  is_Fail :: bool

definition is_open :: "string \<Rightarrow> istream" where
  "is_open d = \<lparr>is_Data = d, is_Pos = 0, is_Fail = False\<rparr>"

definition is_read :: "nat \<Rightarrow> istream \<Rightarrow> string \<times> istream" where
  "is_read n s =
     (if is_Fail s then ([], s)
      else let got = take n (drop (is_Pos s) (is_Data s))
           in (got, s\<lparr>is_Pos := is_Pos s + length got, is_Fail := length got < n\<rparr>))"

definition is_seek :: "nat \<Rightarrow> istream \<Rightarrow> istream" where
  "is_seek n s = (if is_Fail s then s else s\<lparr>is_Pos := n\<rparr>)"

definition is_skip :: "nat \<Rightarrow> istream \<Rightarrow> istream" where
  "is_skip n s = (if is_Fail s then s else s\<lparr>is_Pos := is_Pos s + n\<rparr>)"

definition is_seek_end :: "nat \<Rightarrow> istream \<Rightarrow> istream" where
  "is_seek_end n s =
     (if is_Fail s then s
      else if n \<le> length (is_Data s) then s\<lparr>is_Pos := length (is_Data s) - n\<rparr> else s\<lparr>is_Fail := True\<rparr>)"

text \<open>A read into a buffer that keeps what is behind the bytes read.\<close>

definition buff_read :: "nat \<Rightarrow> string \<times> istream \<Rightarrow> string \<times> istream" where
  "buff_read n = (\<lambda>(buff, s). case is_read n s of (got, s') \<Rightarrow> (got @ drop (length got) buff, s'))"

fun le_nat :: "string \<Rightarrow> nat" where
  "le_nat [] = 0"
| "le_nat (c # cs) = of_char c + 256 * le_nat cs"

definition u16_at :: "nat \<Rightarrow> string \<Rightarrow> nat" where "u16_at i buff = le_nat (seg buff i 2)"

definition u32_at :: "nat \<Rightarrow> string \<Rightarrow> nat" where "u32_at i buff = le_nat (seg buff i 4)"

section \<open>The archive\<close>

datatype zip_exception = ZipException string

datatype COMPRESSIONMETHOD = CM_STORE | CM_DEFLATE

record file_info =
  fi_Compression :: COMPRESSIONMETHOD
  fi_CRC32 :: nat
  fi_LocalHeaderOffset :: nat
  fi_CompressedSize :: nat
  fi_UncompressedSize :: nat
  fi_LastModTime :: int

definition LFHMagic :: nat where "LFHMagic = 0x04034b50"
definition CDMagic :: nat where "CDMagic = 0x02014b50"
definition EOCDMagic :: nat where "EOCDMagic = 0x06054b50"

text \<open>\<open>mktime\<close>, and what uninitialised storage holds: the three members of \<open>FileModTime\<close> the loop does
  not set, and the buffers.\<close>

record zip_env =
  ze_MkTime :: "tm \<Rightarrow> int"
  ze_TmJunk :: "int \<times> int \<times> int"
  ze_Junk :: "nat \<Rightarrow> char"

definition GetCompressionMethod :: "nat \<Rightarrow> zip_exception + COMPRESSIONMETHOD" where
  "GetCompressionMethod code =
     (if code = 0 then Inr CM_STORE
      else if code = 8 then Inr CM_DEFLATE
      else Inl (ZipException ''Unsupported compression method''))"

definition FileModTime :: "int \<times> int \<times> int \<Rightarrow> nat \<Rightarrow> nat \<Rightarrow> tm" where
  "FileModTime junk modTime modDate = (case junk of (wday, yday, isdst) \<Rightarrow>
     \<lparr>tm_sec = int ((modTime AND 0x1F) * 2), tm_min = int (drop_bit 5 modTime AND 0x3F), tm_hour = int (drop_bit 11 modTime),
      tm_mday = int (modDate AND 0x1F), tm_mon = int (drop_bit 5 modDate AND 0xF) - 1,
      tm_year = int (drop_bit 9 modDate) + 1980 - 1900, tm_wday = wday, tm_yday = yday, tm_isdst = isdst\<rparr>)"

text \<open>The member described by the fixed part of a directory entry.\<close>

definition dir_info :: "zip_env \<Rightarrow> COMPRESSIONMETHOD \<Rightarrow> string \<Rightarrow> file_info" where
  "dir_info env m buff =
     \<lparr>fi_Compression = m, fi_CRC32 = u32_at 16 buff, fi_LocalHeaderOffset = u32_at 42 buff, fi_CompressedSize = u32_at 20 buff,
      fi_UncompressedSize = u32_at 24 buff, fi_LastModTime = ze_MkTime env (FileModTime (ze_TmJunk env) (u16_at 12 buff) (u16_at 14 buff))\<rparr>"

text \<open>The loop that reads a name of \<open>n\<close> characters through the buffer of 256.\<close>

function read_name :: "nat \<Rightarrow> string \<Rightarrow> string \<times> istream \<Rightarrow> string \<times> (string \<times> istream)" where
  "read_name n name st =
     (if n = 0 then (name, st)
      else if n < 256 then (let st' = buff_read n st in (name @ take n (fst st'), st'))
      else (let st' = buff_read 256 st in read_name (n - 256) (name @ take 256 (fst st')) st'))"
  by auto
termination
  by (relation "measure (\<lambda>(n, _, _). n)") auto

declare read_name.simps [simp del]

text \<open>The loop over the directory entries still to come.\<close>

fun dir_loop :: "zip_env \<Rightarrow> nat \<Rightarrow> string \<times> istream \<Rightarrow> (string \<rightharpoonup> file_info) \<Rightarrow> zip_exception + (string \<rightharpoonup> file_info)" where
  "dir_loop env 0 st target = Inr target"
| "dir_loop env (Suc n) st target =
     (let st1 = buff_read 46 st; buff = fst st1
      in if u32_at 0 buff \<noteq> CDMagic then Inl (ZipException ''Error in archive central directory'')
         else (case GetCompressionMethod (u16_at 10 buff) of
                 Inl e \<Rightarrow> Inl e
               | Inr m \<Rightarrow>
                   (case read_name (u16_at 28 buff) [] st1 of
                      (name, (buff2, s2)) \<Rightarrow>
                        let extra = u16_at 30 buff + u16_at 32 buff;
                            target' = (if name \<noteq> [] \<and> last name \<noteq> CHR ''/'' then target(name \<mapsto> dir_info env m buff) else target)
                        in dir_loop env n (buff2, if extra \<noteq> 0 then is_skip extra s2 else s2) target')))"

definition Load :: "zip_env \<Rightarrow> istream \<Rightarrow> zip_exception + (string \<rightharpoonup> file_info)" where
  "Load env source =
     (case buff_read 22 (map (ze_Junk env) [0..<256], is_seek_end 22 source) of
        (buff, s1) \<Rightarrow>
          if is_Fail s1 \<or> u32_at 0 buff \<noteq> EOCDMagic then Inl (ZipException ''Not a zip archive'')
          else let s2 = is_seek (u32_at 16 buff) s1
               in if is_Fail s2 then Inl (ZipException ''Not a zip archive'')
                  else dir_loop env (u16_at 10 buff) (buff, s2) Map.empty)"

text \<open>The constructor, with the content of the file, if it can be opened.\<close>

definition ZipArchive_init :: "zip_env \<Rightarrow> string option \<Rightarrow> zip_exception + (string \<rightharpoonup> file_info)" where
  "ZipArchive_init env content =
     (case content of None \<Rightarrow> Inl (ZipException ''Cannot open archive'') | Some d \<Rightarrow> Load env (is_open d))"

definition Archive_Get :: "(string \<rightharpoonup> file_info) \<Rightarrow> string \<Rightarrow> file_info option" where
  "Archive_Get fileInfoMap name = fileInfoMap name"

section \<open>The stream of a member\<close>

record zip_stream =
  zs_Info :: file_info
  zs_InS :: istream
  zs_CompPos :: nat

definition Stream_init :: "zip_env \<Rightarrow> file_info \<Rightarrow> string option \<Rightarrow> zip_exception + zip_stream" where
  "Stream_init env info content =
     (case content of
        None \<Rightarrow> Inl (ZipException ''Cannot seek to file'')
      | Some d \<Rightarrow>
          (case buff_read 30 (map (ze_Junk env) [0..<30], is_seek (fi_LocalHeaderOffset info) (is_open d)) of
             (buff, s1) \<Rightarrow>
               if is_Fail s1 \<or> u32_at 0 buff \<noteq> LFHMagic then Inl (ZipException ''Invalid zip file'')
               else Inr \<lparr>zs_Info = info, zs_InS = is_skip (u16_at 26 buff + u16_at 28 buff) s1, zs_CompPos = 0\<rparr>))"

text \<open>\<open>Read\<close>: the bytes the target holds up to the length returned, whatever the file still had.\<close>

definition Stream_Read :: "(nat \<Rightarrow> char) \<Rightarrow> nat \<Rightarrow> zip_stream \<Rightarrow> string \<times> zip_stream" where
  "Stream_Read junk sz s =
     (let compSize = u32_of (fi_CompressedSize (zs_Info s))
      in if zs_CompPos s < compSize
         then let n = min sz (compSize - zs_CompPos s)
              in (case is_read n (zs_InS s) of (got, s') \<Rightarrow>
                   (got @ map junk [length got..<n], s\<lparr>zs_InS := s', zs_CompPos := zs_CompPos s + n\<rparr>))
         else ([], s))"

definition GetStream :: "zip_env \<Rightarrow> string option \<Rightarrow> file_info option \<Rightarrow> bool \<Rightarrow> zip_exception + zip_stream" where
  "GetStream env content info decompress =
     (case info of
        None \<Rightarrow> Inl (ZipException ''Invalid FileInfo'')
      | Some i \<Rightarrow> if decompress then Inl (ZipException ''Decompress is not implemented'') else Stream_init env i content)"

section \<open>The archive format\<close>

text \<open>The format of an archive without a comment: the members with their local headers, the central
  directory, and the end record.\<close>

fun LE :: "nat \<Rightarrow> nat \<Rightarrow> string" where
  "LE 0 x = []"
| "LE (Suc k) x = char_of (x mod 256) # LE k (x div 256)"

record zip_entry =
  en_Name :: string
  en_Flags :: nat
  en_Deflated :: bool
  en_Time :: nat
  en_Date :: nat
  en_CRC :: nat
  en_Data :: string
  en_Size :: nat
  en_LocalExtra :: string
  en_Extra :: string
  en_Comment :: string
  en_Attr :: nat

definition entry_common :: "zip_entry \<Rightarrow> string" where
  "entry_common e = LE 2 20 @ LE 2 (en_Flags e) @ LE 2 (if en_Deflated e then 8 else 0) @ LE 2 (en_Time e) @ LE 2 (en_Date e)
     @ LE 4 (en_CRC e) @ LE 4 (length (en_Data e)) @ LE 4 (en_Size e) @ LE 2 (length (en_Name e))"

definition local_part :: "zip_entry \<Rightarrow> string" where
  "local_part e = LE 4 0x04034b50 @ entry_common e @ LE 2 (length (en_LocalExtra e)) @ en_Name e @ en_LocalExtra e @ en_Data e"

definition central_fields :: "nat \<Rightarrow> zip_entry \<Rightarrow> string" where
  "central_fields off e = LE 4 0x02014b50 @ LE 2 20 @ entry_common e @ LE 2 (length (en_Extra e)) @ LE 2 (length (en_Comment e))
     @ LE 2 0 @ LE 2 0 @ LE 4 (en_Attr e) @ LE 4 off"

fun central_dir :: "nat \<Rightarrow> zip_entry list \<Rightarrow> string" where
  "central_dir off [] = []"
| "central_dir off (e # es) =
     central_fields off e @ en_Name e @ (en_Extra e @ en_Comment e) @ central_dir (off + length (local_part e)) es"

definition local_parts :: "zip_entry list \<Rightarrow> string" where
  "local_parts es = concat (map local_part es)"

definition end_record :: "nat \<Rightarrow> nat \<Rightarrow> nat \<Rightarrow> string" where
  "end_record n sz off = LE 4 0x06054b50 @ LE 2 0 @ LE 2 0 @ LE 2 n @ LE 2 n @ LE 4 sz @ LE 4 off @ LE 2 0"

definition zip_file :: "zip_entry list \<Rightarrow> string" where
  "zip_file es = local_parts es @ central_dir 0 es @ end_record (length es) (length (central_dir 0 es)) (length (local_parts es))"

definition entry_ok :: "zip_entry \<Rightarrow> bool" where
  "entry_ok e \<longleftrightarrow> length (en_Name e) < 65536 \<and> length (en_Extra e) < 65536 \<and> length (en_Comment e) < 65536
     \<and> length (en_LocalExtra e) < 65536 \<and> en_Time e < 65536 \<and> en_Date e < 65536 \<and> en_CRC e < U32 \<and> en_Size e < U32"

text \<open>What a directory says, by the format.\<close>

definition entry_info :: "zip_env \<Rightarrow> nat \<Rightarrow> zip_entry \<Rightarrow> file_info" where
  "entry_info env off e =
     \<lparr>fi_Compression = (if en_Deflated e then CM_DEFLATE else CM_STORE), fi_CRC32 = en_CRC e, fi_LocalHeaderOffset = off,
      fi_CompressedSize = length (en_Data e), fi_UncompressedSize = en_Size e,
      fi_LastModTime = ze_MkTime env (FileModTime (ze_TmJunk env) (en_Time e) (en_Date e))\<rparr>"

definition is_file :: "zip_entry \<Rightarrow> bool" where
  "is_file e \<longleftrightarrow> en_Name e \<noteq> [] \<and> last (en_Name e) \<noteq> CHR ''/''"

fun dir_map :: "zip_env \<Rightarrow> nat \<Rightarrow> zip_entry list \<Rightarrow> (string \<rightharpoonup> file_info) \<Rightarrow> (string \<rightharpoonup> file_info)" where
  "dir_map env off [] m = m"
| "dir_map env off (e # es) m =
     dir_map env (off + length (local_part e)) es (if is_file e then m(en_Name e \<mapsto> entry_info env off e) else m)"

section \<open>Reading back fields\<close>

lemma length_LE [simp]: "length (LE k x) = k"
  by (induction k arbitrary: x) simp_all

lemma le_nat_LE: "x < 256 ^ k \<Longrightarrow> le_nat (LE k x) = x"
proof (induction k arbitrary: x)
  case (Suc k)
  have "x div 256 < 256 ^ k"
    using Suc.prems by (simp add: div_less_iff_less_mult mult.commute)
  then show ?case
    using Suc.IH by simp
qed simp

text \<open>A field at its place among others.\<close>

lemma seg_LE:
  "seg (LE k x @ ys) 0 k = LE k x" "k \<le> a \<Longrightarrow> seg (LE k x @ ys) a n = seg ys (a - k) n" "seg (LE k x) 0 k = LE k x"
  by (simp_all add: seg_def)

lemmas field_simps_at = u16_at_def u32_at_def seg_LE le_nat_LE

abbreviation stream_at :: "string \<Rightarrow> nat \<Rightarrow> istream" where
  "stream_at d p \<equiv> \<lparr>is_Data = d, is_Pos = p, is_Fail = False\<rparr>"

lemma buff_read_at:
  assumes "drop p d = x @ r" "length x = n"
  shows "buff_read n (buff, stream_at d p) = (x @ drop n buff, stream_at d (p + n))"
  using assms by (simp add: buff_read_def is_read_def)

lemma drop_behind: "drop p d = x @ r \<Longrightarrow> drop (p + length x) d = r"
  by (metis add.commute append_eq_conv_conj drop_drop)

lemma read_name_at:
  "drop p d = x @ r \<Longrightarrow> length buff = 256 \<Longrightarrow>
    \<exists>buff'. read_name (length x) name (buff, stream_at d p) = (name @ x, (buff', stream_at d (p + length x))) \<and> length buff' = 256"
proof (induction "length x" arbitrary: x p buff name rule: less_induct)
  case less
  show ?case
  proof (cases "length x < 256")
    case True
    then show ?thesis
      using buff_read_at [OF less.prems(1) refl, of buff] less.prems(2)
      by (cases x) (simp_all add: read_name.simps Let_def)
  next
    case False
    let ?a = "take 256 x" and ?b = "drop 256 x"
    have a: "drop p d = ?a @ ?b @ r" "length ?a = 256"
      using less.prems(1) False by simp_all
    have "drop (p + 256) d = ?b @ r"
      using drop_behind [OF a(1)] a(2) by simp
    moreover have "length ?b < length x"
      using False by (simp add: not_less)
    ultimately obtain buff' where "read_name (length ?b) (name @ ?a) (?a @ drop 256 buff, stream_at d (p + 256))
        = ((name @ ?a) @ ?b, (buff', stream_at d (p + 256 + length ?b)))" "length buff' = 256"
      using less.hyps [of ?b "p + 256" "?a @ drop 256 buff" "name @ ?a"] less.prems(2) False by auto
    then show ?thesis
      using buff_read_at [OF a, of buff] False by (auto simp: read_name.simps [of "length x"] Let_def)
  qed
qed

lemma central_fields_at:
  assumes "entry_ok e" "off < U32" "length (en_Data e) < U32"
  shows "length (central_fields off e) = 46" "u32_at 0 (central_fields off e @ r) = CDMagic"
    "u16_at 10 (central_fields off e @ r) = (if en_Deflated e then 8 else 0)"
    "u16_at 28 (central_fields off e @ r) = length (en_Name e)" "u16_at 30 (central_fields off e @ r) = length (en_Extra e)"
    "u16_at 32 (central_fields off e @ r) = length (en_Comment e)"
    "dir_info env (if en_Deflated e then CM_DEFLATE else CM_STORE) (central_fields off e @ r) = entry_info env off e"
  using assms by (simp_all add: entry_ok_def central_fields_def entry_common_def field_simps_at CDMagic_def dir_info_def entry_info_def)

section \<open>The directory\<close>

lemma is_skip_at: "(if k \<noteq> 0 then is_skip k (stream_at d p) else stream_at d p) = stream_at d (p + k)"
  by (simp add: is_skip_def)

lemma dir_loop_at:
  "drop p d = central_dir off es @ r \<Longrightarrow> length buff = 256 \<Longrightarrow> \<forall>e \<in> set es. entry_ok e \<Longrightarrow>
    off + length (local_parts es) < U32 \<Longrightarrow> dir_loop env (length es) (buff, stream_at d p) m = Inr (dir_map env off es m)"
proof (induction es arbitrary: p off buff m)
  case (Cons e es)
  let ?f = "central_fields off e" and ?x = "en_Extra e @ en_Comment e"
  have len: "length (local_parts (e # es)) = length (local_part e) + length (local_parts es)" "length (en_Data e) \<le> length (local_part e)"
    by (simp_all add: local_parts_def local_part_def)
  have ok: "entry_ok e" "off < U32" "length (en_Data e) < U32"
    using Cons.prems(3,4) len by simp_all
  note f = central_fields_at [OF ok]
  have d0: "drop p d = ?f @ en_Name e @ ?x @ central_dir (off + length (local_part e)) es @ r"
    using Cons.prems(1) by simp
  note b1 = buff_read_at [OF d0 f(1), of buff]
  have d1: "drop (p + 46) d = en_Name e @ ?x @ central_dir (off + length (local_part e)) es @ r"
    using drop_behind [OF d0] f(1) by simp
  obtain b2 where b2: "read_name (length (en_Name e)) [] (?f @ drop 46 buff, stream_at d (p + 46))
      = (en_Name e, (b2, stream_at d (p + 46 + length (en_Name e))))" "length b2 = 256"
    using read_name_at [OF d1, of "?f @ drop 46 buff" "[]"] f(1) Cons.prems(2) by auto
  have d2: "drop (p + 46 + length (en_Name e)) d = ?x @ central_dir (off + length (local_part e)) es @ r"
    using drop_behind [OF d1] .
  have d3: "drop (p + 46 + length (en_Name e) + length ?x) d = central_dir (off + length (local_part e)) es @ r"
    using drop_behind [OF d2] .
  have m: "GetCompressionMethod (if en_Deflated e then 8 else 0) = Inr (if en_Deflated e then CM_DEFLATE else CM_STORE)"
    by (simp add: GetCompressionMethod_def)
  have "dir_loop env (length (e # es)) (buff, stream_at d p) m =
      dir_loop env (length es) (b2, stream_at d (p + 46 + length (en_Name e) + length ?x))
        (if is_file e then m(en_Name e \<mapsto> entry_info env off e) else m)"
    using is_skip_at [of "length ?x" d "p + 46 + length (en_Name e)"]
    by (simp only: dir_loop.simps(2) list.size add_Suc_right add_0_right b1 Let_def fst_conv f m sum.case b2(1) prod.case is_file_def
        length_append simp_thms if_False refl not_True_eq_False)
  also have "\<dots> = Inr (dir_map env (off + length (local_part e)) es (if is_file e then m(en_Name e \<mapsto> entry_info env off e) else m))"
    by (rule Cons.IH [OF d3 b2(2)]) (use Cons.prems(3,4) len(1) in auto)
  finally show ?case by simp
qed simp

lemma end_record_at:
  assumes "n < 65536" "off < U32"
  shows "length (end_record n sz off) = 22" "u32_at 0 (end_record n sz off @ r) = EOCDMagic" "u16_at 10 (end_record n sz off @ r) = n"
    "u32_at 16 (end_record n sz off @ r) = off"
  using assms by (simp_all add: end_record_def field_simps_at EOCDMagic_def)

lemma Load_zip_file:
  assumes "\<forall>e \<in> set es. entry_ok e" "length es < 65536" "length (local_parts es) < U32"
  shows "ZipArchive_init env (Some (zip_file es)) = Inr (dir_map env 0 es Map.empty)"
proof -
  let ?l = "local_parts es" and ?c = "central_dir 0 es" and ?j = "map (ze_Junk env) [0..<256]"
  let ?r = "end_record (length es) (length ?c) (length ?l)" and ?d = "zip_file es"
  note r = end_record_at [OF assms(2,3), of "length ?c"]
  have n: "length ?d = length ?l + length ?c + 22"
    by (simp add: zip_file_def r(1))
  have d: "drop (length ?l + length ?c) ?d = ?r @ []" "drop (length ?l) ?d = ?c @ ?r"
    by (simp_all add: zip_file_def)
  have s0: "is_seek_end 22 (stream_at ?d 0) = stream_at ?d (length ?l + length ?c)"
    by (simp add: is_seek_end_def n)
  have "dir_loop env (length es) (?r @ drop 22 ?j, stream_at ?d (length ?l)) Map.empty = Inr (dir_map env 0 es Map.empty)"
    by (rule dir_loop_at [OF d(2)]) (use assms r(1) in simp_all)
  then show ?thesis
    by (simp add: ZipArchive_init_def is_open_def Load_def s0 buff_read_at [OF d(1) r(1)] r(2,3,4) is_seek_def)
qed

section \<open>Members\<close>

lemma dir_map_append: "dir_map env off (xs @ ys) m = dir_map env (off + length (local_parts xs)) ys (dir_map env off xs m)"
  by (induction xs arbitrary: off m) (simp_all add: local_parts_def add.assoc)

lemma dir_map_other: "\<forall>e \<in> set es. is_file e \<longrightarrow> en_Name e \<noteq> name \<Longrightarrow> dir_map env off es m name = m name"
  by (induction es arbitrary: off m) auto

lemma dir_map_found:
  assumes "is_file e" "\<forall>g \<in> set ys. is_file g \<longrightarrow> en_Name g \<noteq> en_Name e"
  shows "dir_map env 0 (xs @ e # ys) m (en_Name e) = Some (entry_info env (length (local_parts xs)) e)"
  using assms by (simp add: dir_map_append dir_map_other)

text \<open>The stream of a member that has read \<open>k\<close> bytes of its data, which begin at \<open>p\<close>.\<close>

definition member_at :: "file_info \<Rightarrow> string \<Rightarrow> nat \<Rightarrow> nat \<Rightarrow> zip_stream" where
  "member_at i d p k = \<lparr>zs_Info = i, zs_InS = stream_at d (p + k), zs_CompPos = k\<rparr>"

lemma Stream_Read_at:
  assumes "drop p d = w @ r" "fi_CompressedSize i = length w" "length w < U32" "k \<le> length w"
  shows "Stream_Read junk n (member_at i d p k) = (take n (drop k w), member_at i d p (k + min n (length w - k)))"
proof -
  have "drop (p + k) d = drop k w @ r"
    using assms(1,4) by (metis add.commute append_eq_conv_conj drop_append drop_drop length_0_conv diff_is_0_eq drop0)
  then have "is_read (min n (length w - k)) (stream_at d (p + k)) = (take n (drop k w), stream_at d (p + (k + min n (length w - k))))"
    using take_take [of n "length w - k" "drop k w"] by (simp add: is_read_def Let_def)
  then show ?thesis
    using assms(2,3,4) by (cases "k = length w") (simp_all add: Stream_Read_def member_at_def Let_def u32_simps)
qed

lemma Stream_init_at:
  assumes "entry_ok e" "drop off d = local_part e @ r"
  shows "\<exists>p. Stream_init env (entry_info env' off e) (Some d) = Inr (member_at (entry_info env' off e) d p 0) \<and> drop p d = en_Data e @ r"
proof -
  let ?h = "LE 4 0x04034b50 @ entry_common e @ LE 2 (length (en_LocalExtra e))"
    and ?j = "map (ze_Junk env) [0..<30]" and ?p = "off + 30 + length (en_Name e @ en_LocalExtra e)"
  have h: "length ?h = 30" "u32_at 0 ?h = LFHMagic" "u16_at 26 ?h = length (en_Name e)" "u16_at 28 ?h = length (en_LocalExtra e)"
    using assms(1) by (simp_all add: entry_ok_def entry_common_def field_simps_at LFHMagic_def)
  have d: "drop off d = ?h @ (en_Name e @ en_LocalExtra e) @ en_Data e @ r"
    using assms(2) by (simp add: local_part_def)
  have "drop ?p d = en_Data e @ r"
    using drop_behind [OF drop_behind [OF d, unfolded h(1)]] .
  moreover have "buff_read 30 (?j, stream_at d off) = (?h, stream_at d (off + 30))"
    using buff_read_at [OF d h(1), of ?j] by simp
  ultimately show ?thesis
    by (intro exI [of _ ?p])
      (simp add: Stream_init_def is_open_def is_seek_def entry_info_def is_skip_def h(2-4) member_at_def add.assoc del: append.simps append_assoc)
qed

lemma member_stream:
  assumes "entry_ok e" "es = xs @ e # ys"
  shows "\<exists>p r. Stream_init env (entry_info env' (length (local_parts xs)) e) (Some (zip_file es))
      = Inr (member_at (entry_info env' (length (local_parts xs)) e) (zip_file es) p 0) \<and> drop p (zip_file es) = en_Data e @ r"
proof -
  have "\<exists>r. drop (length (local_parts xs)) (zip_file es) = local_part e @ r"
    by (simp add: zip_file_def assms(2) local_parts_def)
  then show ?thesis
    using Stream_init_at [OF assms(1)] by metis
qed

lemma member_length: "es = xs @ e # ys \<Longrightarrow> length (en_Data e) \<le> length (local_parts es)"
  by (simp add: local_parts_def local_part_def)

text \<open>C19: an archive is read back. Loading a file in the format of archives, with any number of members
  below 65536, names of any length, extra fields and comments, gives a table in which a member is found
  under its name, with the fields of its entry, the stream opened for it gives exactly its data, and
  nothing else is found; of several members with one name the last counts, and directories are left out.\<close>

theorem archive_read_back:
  assumes "\<forall>e \<in> set es. entry_ok e" "length es < 65536" "length (local_parts es) < U32"
  shows "\<exists>m. ZipArchive_init env (Some (zip_file es)) = Inr m
    \<and> (\<forall>name. (\<forall>e \<in> set es. is_file e \<longrightarrow> en_Name e \<noteq> name) \<longrightarrow> Archive_Get m name = None)
    \<and> (\<forall>xs e ys. es = xs @ e # ys \<longrightarrow> is_file e \<longrightarrow> (\<forall>g \<in> set ys. is_file g \<longrightarrow> en_Name g \<noteq> en_Name e) \<longrightarrow>
        (\<exists>i s. Archive_Get m (en_Name e) = Some i \<and> i = entry_info env (length (local_parts xs)) e
          \<and> GetStream env (Some (zip_file es)) (Some i) False = Inr s \<and> fst (Stream_Read junk (length (en_Data e)) s) = en_Data e))"
proof (intro exI [of _ "dir_map env 0 es Map.empty"] conjI allI impI)
  show "ZipArchive_init env (Some (zip_file es)) = Inr (dir_map env 0 es Map.empty)"
    using assms by (rule Load_zip_file)
  show "Archive_Get (dir_map env 0 es Map.empty) name = None" if "\<forall>e \<in> set es. is_file e \<longrightarrow> en_Name e \<noteq> name" for name
    using dir_map_other [OF that] by (simp add: Archive_Get_def)
next
  fix xs e ys
  assume e: "es = xs @ e # ys" "is_file e" "\<forall>g \<in> set ys. is_file g \<longrightarrow> en_Name g \<noteq> en_Name e"
  let ?i = "entry_info env (length (local_parts xs)) e"
  have ok: "entry_ok e" using assms(1) e(1) by simp
  obtain p r where p: "Stream_init env ?i (Some (zip_file es)) = Inr (member_at ?i (zip_file es) p 0)" "drop p (zip_file es) = en_Data e @ r"
    using member_stream [OF ok e(1)] by blast
  have "fst (Stream_Read junk (length (en_Data e)) (member_at ?i (zip_file es) p 0)) = en_Data e"
    using Stream_Read_at [OF p(2), of ?i 0] member_length [OF e(1)] assms(3) by (simp add: entry_info_def)
  then show "\<exists>i s. Archive_Get (dir_map env 0 es Map.empty) (en_Name e) = Some i \<and> i = ?i
      \<and> GetStream env (Some (zip_file es)) (Some i) False = Inr s \<and> fst (Stream_Read junk (length (en_Data e)) s) = en_Data e"
    using dir_map_found [OF e(2,3), of env xs Map.empty] p(1) e(1) by (auto simp: Archive_Get_def GetStream_def)
qed

section \<open>A sample archive\<close>

definition sample_zip_env :: zip_env where
  "sample_zip_env = \<lparr>ze_MkTime = \<lambda>t. tm_year t, ze_TmJunk = (0, 0, 0), ze_Junk = \<lambda>_. NUL\<rparr>"

definition sample_member :: "bool \<Rightarrow> string \<Rightarrow> zip_entry" where
  "sample_member deflated d = \<lparr>en_Name = ''a.txt'', en_Flags = 0, en_Deflated = deflated, en_Time = 0, en_Date = 33, en_CRC = 7, en_Data = d,
     en_Size = 20, en_LocalExtra = ''x'', en_Extra = ''yz'', en_Comment = ''c'', en_Attr = 0\<rparr>"

lemma sample_member_ok: "entry_ok (sample_member z d)" "is_file (sample_member z d)" "en_Name (sample_member z d) = ''a.txt''"
    "en_Data (sample_member z d) = d" "en_Deflated (sample_member z d) = z" "length (local_parts [sample_member z d]) = 36 + length d"
  by (simp_all add: sample_member_def entry_ok_def is_file_def local_parts_def local_part_def entry_common_def)

theorem archive_read_back_witness:
  "\<exists>m i s. ZipArchive_init sample_zip_env (Some (zip_file [sample_member True ''data''])) = Inr m \<and> Archive_Get m ''a.txt'' = Some i
    \<and> GetStream sample_zip_env (Some (zip_file [sample_member True ''data''])) (Some i) False = Inr s
    \<and> fst (Stream_Read (\<lambda>_. NUL) (length ''data'') s) = ''data''"
proof -
  let ?e = "sample_member True ''data''"
  have e: "[?e] = [] @ ?e # []" "is_file ?e" "\<And>g. g \<in> set [] \<Longrightarrow> is_file g \<Longrightarrow> en_Name g \<noteq> en_Name ?e"
    by (simp_all add: sample_member_ok)
  have "\<forall>e \<in> set [?e]. entry_ok e" "length [?e] < 65536" "length (local_parts [?e]) < U32"
    by (simp_all add: sample_member_ok)
  from archive_read_back [OF this, of sample_zip_env "\<lambda>_. NUL"] obtain m where
      m: "ZipArchive_init sample_zip_env (Some (zip_file [?e])) = Inr m" and f: "\<forall>xs e ys. [?e] = xs @ e # ys \<longrightarrow> is_file e \<longrightarrow>
        (\<forall>g \<in> set ys. is_file g \<longrightarrow> en_Name g \<noteq> en_Name e) \<longrightarrow>
        (\<exists>i s. Archive_Get m (en_Name e) = Some i \<and> i = entry_info sample_zip_env (length (local_parts xs)) e
          \<and> GetStream sample_zip_env (Some (zip_file [?e])) (Some i) False = Inr s
          \<and> fst (Stream_Read (\<lambda>_. NUL) (length (en_Data e)) s) = en_Data e)"
    by (elim exE conjE)
  show ?thesis
    using m f [rule_format, OF e] unfolding sample_member_ok by blast
qed

end
