(* ===== verification/ZipSource.thy ===== *)
theory ZipSource
  imports ZipArchive
begin

text \<open>
  The response source for the members of an archive, ZipRespSource.cpp: a deflated member is sent
  as a gzip stream, with a header in front of the stored data and a footer with the check sum and
  the size behind them; a stored member is sent as it is. The read function is the loop over the
  states of the stream.
\<close>

section \<open>The response\<close>

datatype CONTENTSTATE = CS_HEADER | CS_BODY | CS_BODYONLY | CS_FOOTER

record zip_body =
  zr_SourceS :: zip_stream
  zr_CState :: CONTENTSTATE
  zr_CStatePos :: nat

definition GZipHeaderA :: string where
  "GZipHeaderA = map char_of [31, 139, 8, 0, 0, 0, 0, 0, 2, 255 :: nat]"

definition GzipFooterA :: "file_info \<Rightarrow> string" where
  "GzipFooterA i = LE 4 (fi_CRC32 i) @ LE 4 (fi_UncompressedSize i)"

fun state_rank :: "CONTENTSTATE \<Rightarrow> nat" where
  "state_rank CS_HEADER = 3"
| "state_rank CS_BODY = 2"
| "state_rank CS_BODYONLY = 2"
| "state_rank CS_FOOTER = 1"

text \<open>The loop with the room left and what the target holds before it. \<open>None\<close> is a copy from behind the
  end of the header or the footer.\<close>

function zip_read_loop :: "(nat \<Rightarrow> char) \<Rightarrow> string \<Rightarrow> nat \<Rightarrow> string \<Rightarrow> zip_body \<Rightarrow> (string \<times> bool \<times> zip_body) option" where
  "zip_read_loop junk footer rem out b =
     (if rem = 0 then Some (out, False, b)
      else case zr_CState b of
        CS_BODY \<Rightarrow>
          (case Stream_Read junk rem (zr_SourceS b) of
             (got, s') \<Rightarrow>
               zip_read_loop junk footer (rem - length got) (out @ got)
                 (if length got < rem then b\<lparr>zr_SourceS := s', zr_CState := CS_FOOTER, zr_CStatePos := 0\<rparr> else b\<lparr>zr_SourceS := s'\<rparr>))
      | CS_BODYONLY \<Rightarrow>
          (case Stream_Read junk rem (zr_SourceS b) of
             (got, s') \<Rightarrow>
               if length got < rem then Some (out, True, b\<lparr>zr_SourceS := s'\<rparr>)
               else zip_read_loop junk footer (rem - length got) (out @ got) (b\<lparr>zr_SourceS := s'\<rparr>))
      | CS_HEADER \<Rightarrow>
          if zr_CStatePos b > length GZipHeaderA then None
          else if rem \<ge> length GZipHeaderA - zr_CStatePos b
          then let n = length GZipHeaderA - zr_CStatePos b
               in zip_read_loop junk footer (rem - n) (out @ take n GZipHeaderA) (b\<lparr>zr_CState := CS_BODY, zr_CStatePos := 0\<rparr>)
          else let pos = zr_CStatePos b + rem
               in if pos + rem > length GZipHeaderA then None
                  else zip_read_loop junk footer 0 (out @ seg GZipHeaderA pos rem) (b\<lparr>zr_CStatePos := pos\<rparr>)
      | CS_FOOTER \<Rightarrow>
          if zr_CStatePos b > length footer then None
          else let n = min rem (length footer - zr_CStatePos b);
                   out' = out @ seg footer (zr_CStatePos b) n;
                   b' = b\<lparr>zr_CStatePos := zr_CStatePos b + n\<rparr>
               in if zr_CStatePos b' = length footer then Some (out', True, b')
                  else zip_read_loop junk footer (rem - n) out' b')"
  by auto
termination
  by (relation "measures [\<lambda>(_, _, _, _, b). state_rank (zr_CState b), \<lambda>(_, _, rem, _, _). rem]") (auto simp: not_less)

declare zip_read_loop.simps [simp del]

definition Zip_Read :: "(nat \<Rightarrow> char) \<Rightarrow> string \<Rightarrow> zip_body \<Rightarrow> nat \<Rightarrow> (string \<times> bool \<times> zip_body) option" where
  "Zip_Read junk footer b maxLength = zip_read_loop junk footer maxLength [] b"

definition Zip_Read_unmodified :: "unit \<Rightarrow> nat \<Rightarrow> (string \<times> bool \<times> unit) option" where
  "Zip_Read_unmodified u maxLength = Some ([], True, u)"

definition Zip_GetExtraHeader :: "string \<Rightarrow> bool \<Rightarrow> nat \<Rightarrow> (string \<times> string) option" where
  "Zip_GetExtraHeader lastModified gzip i =
     (if i = 0 then Some (GetHeaderName HN_LAST_MODIFIED, lastModified)
      else if i = 1 then Some (GetHeaderName HN_CONTENT_ENCODING, if gzip then ''gzip'' else ''identity'')
      else None)"

text \<open>The constructor and the virtual functions of the response; \<open>format\<close> is \<open>FormatDateTime\<close>. The state
  position of a stored member is not set.\<close>

definition Zip_Response :: "(int \<Rightarrow> string) \<Rightarrow> (nat \<Rightarrow> char) \<Rightarrow> zip_stream \<Rightarrow> string \<Rightarrow> int \<Rightarrow> response" where
  "Zip_Response format junk archS mime ifModifiedSince =
     (let i = zs_Info archS; deflated = (fi_Compression i = CM_DEFLATE)
      in if fi_LastModTime i > ifModifiedSince
         then \<lparr>rp_ResponseCode = RC_OK, rp_ContentType = mime, rp_Charset = None,
                rp_Length = fi_CompressedSize i + (if deflated then length GZipHeaderA + length (GzipFooterA i) else 0),
                rp_ExtraHeaders = map (Zip_GetExtraHeader (format (fi_LastModTime i)) deflated) [0..<2],
                rp_Read = reader_of (Zip_Read junk (GzipFooterA i))
                  \<lparr>zr_SourceS = archS, zr_CState = (if deflated then CS_HEADER else CS_BODYONLY), zr_CStatePos = 0\<rparr>,
                rp_Upgrade = None\<rparr>
         else \<lparr>rp_ResponseCode = RC_NOTMODIFIED, rp_ContentType = mime, rp_Charset = None, rp_Length = 0,
                rp_ExtraHeaders = map (Zip_GetExtraHeader (format (fi_LastModTime i)) False) [0..<2],
                rp_Read = reader_of Zip_Read_unmodified (), rp_Upgrade = None\<rparr>)"

section \<open>The source\<close>

definition Zip_GetMimeType :: "string \<Rightarrow> string" where
  "Zip_GetMimeType fileName =
     (if CHR ''.'' \<in> set fileName then GetMimeType (CHR ''.'' # rev (takeWhile (\<lambda>c. c \<noteq> CHR ''.'') (rev fileName)))
      else UnknownMimeType)"

text \<open>\<open>Create\<close> on a loaded archive, with the content the archive file has at the time of the request.\<close>

definition Zip_Create :: "zip_env \<Rightarrow> (int \<Rightarrow> string) \<Rightarrow> (tm \<Rightarrow> int) \<Rightarrow> string option \<Rightarrow> (string \<rightharpoonup> file_info) \<Rightarrow> request \<Rightarrow> created" where
  "Zip_Create env format timegm content myArch rq =
     (case Archive_Get myArch (if rq_Resource rq \<noteq> [] then drop 1 (rq_Resource rq) else rq_Resource rq) of
        None \<Rightarrow> fs_error rq RC_NOTFOUND
      | Some targetFI \<Rightarrow>
          (case if_modified_since timegm (rq_HeaderA rq) of
             None \<Rightarrow> CreatedNull
           | Some since \<Rightarrow>
               (case GetStream env content (Some targetFI) False of
                  Inl e \<Rightarrow> fs_error rq RC_NOTFOUND
                | Inr s \<Rightarrow> Created (Zip_Response format (ze_Junk env) s (Zip_GetMimeType (rq_Resource rq)) since))))"

section \<open>Reading a member\<close>

lemma loop_zero: "zip_read_loop junk footer 0 out b = Some (out, False, b)"
  by (subst zip_read_loop.simps) simp

text \<open>The three states as the text they still have to give.\<close>

abbreviation body_at :: "file_info \<Rightarrow> string \<Rightarrow> nat \<Rightarrow> nat \<Rightarrow> CONTENTSTATE \<Rightarrow> nat \<Rightarrow> zip_body" where
  "body_at i d p k st pos \<equiv> \<lparr>zr_SourceS = member_at i d p k, zr_CState = st, zr_CStatePos = pos\<rparr>"

lemma footer_loop:
  assumes "pos < length footer" "0 < rem"
  shows "zip_read_loop junk footer rem out (body_at i d p k CS_FOOTER pos) =
    Some (out @ take rem (drop pos footer), length footer - pos \<le> rem, body_at i d p k CS_FOOTER (pos + min rem (length footer - pos)))"
proof (cases "rem < length footer - pos")
  case True
  then have "min rem (length footer - pos) = rem" "pos + rem \<noteq> length footer" "\<not> length footer < pos" "\<not> length footer - pos \<le> rem"
    by auto
  then show ?thesis
    using assms(2) by (subst zip_read_loop.simps) (simp add: Let_def seg_def loop_zero)
next
  case False
  then have "min rem (length footer - pos) = length footer - pos" "\<not> length footer < pos" "pos + (length footer - pos) = length footer"
      "length footer - pos \<le> rem"
    using assms(1) by auto
  then show ?thesis
    using assms(2) by (subst zip_read_loop.simps) (simp add: Let_def seg_def)
qed

lemma body_loop:
  assumes "drop p d = w @ r" "fi_CompressedSize i = length w" "length w < U32" "k \<le> length w" "0 < rem" "footer \<noteq> []"
  shows "zip_read_loop junk footer rem out (body_at i d p k CS_BODY 0) =
    Some (out @ take rem (drop k w @ footer), length w - k + length footer \<le> rem,
      if rem \<le> length w - k then body_at i d p (k + rem) CS_BODY 0
      else body_at i d p (length w) CS_FOOTER (min (rem - (length w - k)) (length footer)))"
proof (cases "rem \<le> length w - k")
  case True
  then show ?thesis
    using assms(4-6) Stream_Read_at [OF assms(1-4), of junk rem]
    by (cases footer) (simp_all add: zip_read_loop.simps [of _ _ rem] loop_zero)
next
  case False
  let ?n = "length w - k"
  have n: "take rem (drop k w) = drop k w" "min rem ?n = ?n" "k + ?n = length w" "length (drop k w) = ?n"
    using False assms(4) by simp_all
  have "zip_read_loop junk footer rem out (body_at i d p k CS_BODY 0) =
      zip_read_loop junk footer (rem - ?n) (out @ drop k w) (body_at i d p (length w) CS_FOOTER 0)"
    using Stream_Read_at [OF assms(1-4), of junk rem] False assms(5) unfolding n
    by (simp add: zip_read_loop.simps [of _ _ rem])
  then show ?thesis
    using footer_loop [of 0 footer "rem - ?n" junk "out @ drop k w" i d p "length w"] False assms(6) n(1) by auto
qed

lemma length_GZipHeaderA: "length GZipHeaderA = 10"
  by (simp add: GZipHeaderA_def)

lemma header_loop:
  assumes "10 \<le> rem"
  shows "zip_read_loop junk footer rem out (body_at i d p k CS_HEADER 0) =
    zip_read_loop junk footer (rem - 10) (out @ GZipHeaderA) (body_at i d p k CS_BODY 0)"
  using assms by (subst zip_read_loop.simps) (simp add: length_GZipHeaderA Let_def)

lemma length_footer: "length (GzipFooterA i) = 8"
  by (simp add: GzipFooterA_def)

text \<open>The state in which the text \<open>s\<close>, a suffix of the whole stream, is still to come.\<close>

definition gzip_state :: "file_info \<Rightarrow> string \<Rightarrow> nat \<Rightarrow> string \<Rightarrow> string \<Rightarrow> zip_body" where
  "gzip_state i d p w s =
     (if length s = length w + 18 then body_at i d p 0 CS_HEADER 0
      else if 8 \<le> length s then body_at i d p (length w + 8 - length s) CS_BODY 0
      else body_at i d p (length w) CS_FOOTER (8 - length s))"

lemma gzip_state_body:
  assumes "length s = length w + 8 - n"
  shows "gzip_state i d p w s = (if n \<le> length w then body_at i d p n CS_BODY 0
    else body_at i d p (length w) CS_FOOTER (min (n - length w) 8))"
proof (cases "n \<le> length w")
  case True
  then have "8 \<le> length s" "length s \<noteq> length w + 18" "length w + 8 - length s = n"
    using assms by linarith+
  then show ?thesis
    using True by (simp add: gzip_state_def)
next
  case False
  then have "length s < 8" "8 - length s = min (n - length w) 8"
    using assms by linarith+
  then show ?thesis
    using False by (simp add: gzip_state_def)
qed

definition gzip_text :: "file_info \<Rightarrow> string \<Rightarrow> string" where
  "gzip_text i w = GZipHeaderA @ w @ GzipFooterA i"

lemma length_gzip_text: "length (gzip_text i w) = length w + 18"
  by (simp add: gzip_text_def length_GZipHeaderA length_footer)

lemma gzip_read:
  assumes "drop p d = w @ r" "fi_CompressedSize i = length w" "length w < U32" "10 \<le> m" "s = drop j (gzip_text i w)" "j = 0 \<or> 10 \<le> j" "s \<noteq> []"
  shows "Zip_Read junk (GzipFooterA i) (gzip_state i d p w s) m = Some (take m s, length s \<le> m, gzip_state i d p w (drop m s))"
proof -
  let ?f = "GzipFooterA i"
  have f: "?f \<noteq> []" "length ?f = 8" using length_footer [of i] by auto
  have len: "length s = length w + 18 - j"
    by (simp add: assms(5) gzip_text_def length_GZipHeaderA f(2))
  consider "j = 0" | "10 \<le> j" "8 \<le> length s" | "length s < 8" "10 \<le> j"
    using assms(6) len by linarith
  then show ?thesis
  proof cases
    case 1
    then have s: "s = GZipHeaderA @ w @ ?f"
      by (simp add: assms(5) gzip_text_def)
    have n: "length (drop m s) = length w + 8 - (m - 10)" "take m s = GZipHeaderA @ take (m - 10) (w @ ?f)"
        "(length s \<le> m) = (length w + 8 \<le> m - 10)" "gzip_state i d p w s = body_at i d p 0 CS_HEADER 0"
      using assms(4) by (auto simp: s length_GZipHeaderA f(2) gzip_state_def)
    have h: "Zip_Read junk ?f (gzip_state i d p w s) m = zip_read_loop junk ?f (m - 10) GZipHeaderA (body_at i d p 0 CS_BODY 0)"
      using header_loop [OF assms(4), of junk ?f "[]"] by (simp add: Zip_Read_def n(4))
    show ?thesis
    proof (cases "m = 10")
      case True
      then show ?thesis
        unfolding h n(2,3) gzip_state_body [OF n(1)] by (simp add: loop_zero)
    next
      case False
      then have m: "0 < m - 10" using assms(4) by simp
      show ?thesis
        unfolding h n(2,3) gzip_state_body [OF n(1)] body_loop [OF assms(1-3) le0 m f(1)] f(2) by simp
    qed
  next
    case 2
    let ?k = "j - 10"
    have s: "s = drop ?k w @ ?f" "?k \<le> length w"
      using 2 len by (simp_all add: assms(5) gzip_text_def length_GZipHeaderA)
    have n: "length s = length w + 8 - ?k" "length (drop m s) = length w + 8 - (?k + m)" "(length s \<le> m) = (length w - ?k + 8 \<le> m)"
        "(m \<le> length w - ?k) = (?k + m \<le> length w)" "m - (length w - ?k) = ?k + m - length w" "0 < m"
      using 2(1) len assms(4) s(2) by (simp, simp, linarith, linarith, linarith, linarith)
    show ?thesis
      unfolding Zip_Read_def gzip_state_body [OF n(1)] gzip_state_body [OF n(2)]
      using body_loop [OF assms(1-3) s(2) n(6) f(1), of junk "[]"] s by (simp add: f(2) n(3-5))
  next
    case 3
    moreover have "0 < length s" using assms(7) by simp
    ultimately have "8 - length s = j - 10 - length w"
      using len by linarith
    moreover have "s = drop (j - 10 - length w) ?f"
      using 3 len by (simp add: assms(5) gzip_text_def length_GZipHeaderA)
    ultimately have s: "s = drop (8 - length s) ?f" by simp
    have "Zip_Read junk ?f (gzip_state i d p w s) m = Some (take m (drop (8 - length s) ?f), 8 - (8 - length s) \<le> m,
        body_at i d p (length w) CS_FOOTER (8 - length s + min m (8 - (8 - length s))))"
      using footer_loop [of "8 - length s" ?f m junk "[]" i d p "length w"] 3(1) assms(4,7) f(2)
      by (simp add: Zip_Read_def gzip_state_def)
    also have "\<dots> = Some (take m s, length s \<le> m, gzip_state i d p w (drop m s))"
      using 3(1) s [symmetric] by (auto simp: gzip_state_def min_def)
    finally show ?thesis .
  qed
qed

text \<open>A deflated member keeps the contract of a body for buffers that hold the gzip header.\<close>

definition gzip_rest :: "file_info \<Rightarrow> string \<Rightarrow> nat \<Rightarrow> string \<Rightarrow> string \<Rightarrow> string \<Rightarrow> bool" where
  "gzip_rest i d p w r s \<longleftrightarrow> drop p d = w @ r \<and> fi_CompressedSize i = length w \<and> length w < U32
     \<and> (\<exists>j. s = drop j (gzip_text i w) \<and> (j = 0 \<or> 10 \<le> j))"

interpretation gzip_body: body_source "Zip_Read junk (GzipFooterA i)" "gzip_rest i d p w r" "gzip_state i d p w" 10 for junk i d p w r
proof unfold_locales
  fix s :: string and m :: nat
  assume s: "gzip_rest i d p w r s" and m: "10 \<le> m"
  then show "s \<noteq> [] \<Longrightarrow> Zip_Read junk (GzipFooterA i) (gzip_state i d p w s) m = Some (take m s, length s \<le> m, gzip_state i d p w (drop m s))"
    by (auto simp only: gzip_rest_def intro!: gzip_read)
  obtain j where "s = drop j (gzip_text i w)"
    using s by (auto simp: gzip_rest_def)
  then have "drop m s = drop (m + j) (gzip_text i w)" "10 \<le> m + j" using m by simp_all
  then show "gzip_rest i d p w r (drop m s)"
    using s unfolding gzip_rest_def by blast
qed simp

lemma gzip_start: "body_at i d p 0 CS_HEADER 0 = gzip_state i d p w (gzip_text i w)"
  by (simp add: gzip_state_def length_gzip_text)

text \<open>A stored member gives whole buffers only.\<close>

lemma stored_loop:
  assumes "drop p d = w @ r" "fi_CompressedSize i = length w" "length w < U32" "k \<le> length w" "0 < rem"
  shows "zip_read_loop junk footer rem [] (body_at i d p k CS_BODYONLY 0) =
    (if rem \<le> length w - k then Some (take rem (drop k w), False, body_at i d p (k + rem) CS_BODYONLY 0)
     else Some ([], True, body_at i d p (length w) CS_BODYONLY 0))"
  using assms Stream_Read_at [OF assms(1-4), of junk rem]
  by (auto simp: zip_read_loop.simps [of _ _ rem] loop_zero min_def)

lemma body_parts_nonempty: "body_parts fuel m rd = Some ps \<Longrightarrow> ps \<noteq> []"
  by (cases fuel) (auto split: option.splits prod.splits if_splits)

lemma stored_parts:
  assumes "drop p d = w @ r" "fi_CompressedSize i = length w" "length w < U32" "0 < m"
  shows "k \<le> length w \<Longrightarrow> length w - k < fuel \<Longrightarrow>
    \<exists>ps. body_parts fuel m (reader_of (Zip_Read junk footer) (body_at i d p k CS_BODYONLY 0)) = Some ps
      \<and> concat ps = take ((length w - k) div m * m) (drop k w) \<and> last ps = []"
proof (induction fuel arbitrary: k)
  case (Suc fuel)
  note R = stored_loop [OF assms(1-3) Suc.prems(1) assms(4), of junk footer, folded Zip_Read_def]
  show ?case
  proof (cases "m \<le> length w - k")
    case True
    then obtain ps where ps: "body_parts fuel m (reader_of (Zip_Read junk footer) (body_at i d p (k + m) CS_BODYONLY 0)) = Some ps"
        "concat ps = take ((length w - (k + m)) div m * m) (drop (k + m) w)" "last ps = []"
      using Suc.IH [of "k + m"] Suc.prems assms(4) by fastforce
    have "(length w - k) div m = Suc ((length w - (k + m)) div m)"
      using True assms(4) by (subst div_if) (simp add: diff_diff_add)
    then have "take ((length w - k) div m * m) (drop k w) = take m (drop k w) @ concat ps"
      by (simp add: ps(2) take_add add.commute)
    then show ?thesis
      using R True ps(1,3) body_parts_nonempty [OF ps(1)] by (intro exI [of _ "take m (drop k w) # ps"]) auto
  next
    case False
    then show ?thesis
      using R by (intro exI [of _ "[[]]"]) simp
  qed
qed simp

section \<open>Members of an archive\<close>

lemma Zip_Create_member:
  assumes "\<forall>e \<in> set es. entry_ok e" "length es < 65536" "length (local_parts es) < U32" "ZipArchive_init env (Some (zip_file es)) = Inr m"
    "es = xs @ e # ys" "is_file e" "\<forall>g \<in> set ys. is_file g \<longrightarrow> en_Name g \<noteq> en_Name e"
    "rq_Resource rq = CHR ''/'' # en_Name e" "if_modified_since timegm (rq_HeaderA rq) = Some since" "i = entry_info env (length (local_parts xs)) e"
  shows "\<exists>p r. Zip_Create env format timegm (Some (zip_file es)) m rq =
      Created (Zip_Response format (ze_Junk env) (member_at i (zip_file es) p 0) (Zip_GetMimeType (rq_Resource rq)) since)
    \<and> drop p (zip_file es) = en_Data e @ r"
proof -
  have "entry_ok e" using assms(1,5) by simp
  then obtain p r where p: "Stream_init env i (Some (zip_file es)) = Inr (member_at i (zip_file es) p 0)" "drop p (zip_file es) = en_Data e @ r"
    using member_stream [of e es xs ys env env] assms(5,10) by blast
  have "m = dir_map env 0 es Map.empty"
    using Load_zip_file [OF assms(1-3), of env] assms(4) by simp
  then have "Archive_Get m (en_Name e) = Some i"
    using dir_map_found [OF assms(6,7), of env xs Map.empty] assms(5,10) by (simp add: Archive_Get_def)
  then show ?thesis
    using p assms(8,9) by (intro exI [of _ p] exI [of _ r]) (simp add: Zip_Create_def GetStream_def)
qed

lemma zs_Info_member [simp]: "zs_Info (member_at i d p k) = i"
  by (simp add: member_at_def)

lemma two_headers: "map f [0..<2] = [f 0, f (1 :: nat)]"
  by (simp add: numeral_2_eq_2)

text \<open>C21: a deflated member is sent as gzip. A request for a member of an archive in the archive format,
  newer than the time the client gives, is answered with status 200, the content encoding gzip, and the
  gzip stream of the member: the header, its deflated data byte for byte, its check sum and its size,
  with the announced length, for every length of the data and however it falls into the write buffers.\<close>

theorem member_sent_gzip:
  assumes "\<forall>e \<in> set es. entry_ok e" "length es < 65536" "length (local_parts es) < U32" "ZipArchive_init env (Some (zip_file es)) = Inr m"
    "es = xs @ e # ys" "is_file e" "\<forall>g \<in> set ys. is_file g \<longrightarrow> en_Name g \<noteq> en_Name e"
    "rq_Resource rq = CHR ''/'' # en_Name e" "if_modified_since timegm (rq_HeaderA rq) = Some since"
    "since < ze_MkTime env (FileModTime (ze_TmJunk env) (en_Time e) (en_Date e))" "en_Deflated e" "length (en_Data e) + 18 \<le> ce_Fuel cenv"
  shows "\<exists>r t. Zip_Create env format timegm (Some (zip_file es)) m rq = Created r \<and> rp_ResponseCode r = 200
    \<and> rp_ExtraHeaders r = [Some (''last-modified'', t), Some (''content-encoding'', ''gzip'')]
    \<and> response_wire cenv count cors r = Some (head_text cenv count cors r @ GZipHeaderA @ en_Data e @ LE 4 (en_CRC e) @ LE 4 (en_Size e))"
proof -
  let ?i = "entry_info env (length (local_parts xs)) e" and ?d = "zip_file es"
  obtain p q where c: "Zip_Create env format timegm (Some ?d) m rq =
      Created (Zip_Response format (ze_Junk env) (member_at ?i ?d p 0) (Zip_GetMimeType (rq_Resource rq)) since)"
      "drop p ?d = en_Data e @ q"
    using Zip_Create_member [OF assms(1-9) refl] by blast
  let ?r = "Zip_Response format (ze_Junk env) (member_at ?i ?d p 0) (Zip_GetMimeType (rq_Resource rq)) since"
  have i: "fi_CompressedSize ?i = length (en_Data e)" "length (en_Data e) < U32"
    using member_length [OF assms(5)] assms(3) by (simp_all add: entry_info_def)
  have r: "rp_ResponseCode ?r = 200" "rp_Length ?r = length (en_Data e) + 18"
      "rp_Read ?r = reader_of (Zip_Read (ze_Junk env) (GzipFooterA ?i)) (body_at ?i ?d p 0 CS_HEADER 0)"
      "rp_ExtraHeaders ?r = [Some (''last-modified'', format (fi_LastModTime ?i)), Some (''content-encoding'', ''gzip'')]"
    using assms(10,11)
    by (simp_all add: Zip_Response_def Let_def entry_info_def RC_defs length_GZipHeaderA length_footer two_headers Zip_GetExtraHeader_def)
  have "gzip_rest ?i ?d p (en_Data e) q (gzip_text ?i (en_Data e))"
    unfolding gzip_rest_def using c(2) i by (intro conjI exI [of _ 0]) simp_all
  moreover have "gzip_text ?i (en_Data e) \<noteq> []"
    using length_gzip_text [of ?i "en_Data e"] by auto
  ultimately have "response_wire cenv count cors ?r = Some (head_text cenv count cors ?r @ gzip_text ?i (en_Data e))"
    using gzip_body.sent [of ?r "ze_Junk env" ?i ?d p "en_Data e" "gzip_text ?i (en_Data e)" q cenv count cors] r(2,3) i(2) assms(12)
    by (simp add: gzip_start [of _ _ _ "en_Data e"] length_gzip_text NO_LENGTH_def HTTP_WriteBuffSize_def)
  then show ?thesis
    using c(1) r(1,4) by (auto simp: gzip_text_def GzipFooterA_def entry_info_def)
qed

text \<open>C35: a stored member is cut. Its response announces the length of its data, but what is read from it
  is only the part that fills whole write buffers: the read behind the last whole buffer stores the rest of
  the data and reports that nothing was read. A member below 24576 bytes is sent with no content at all.\<close>

theorem stored_member_cut:
  assumes "\<forall>e \<in> set es. entry_ok e" "length es < 65536" "length (local_parts es) < U32" "ZipArchive_init env (Some (zip_file es)) = Inr m"
    "es = xs @ e # ys" "is_file e" "\<forall>g \<in> set ys. is_file g \<longrightarrow> en_Name g \<noteq> en_Name e"
    "rq_Resource rq = CHR ''/'' # en_Name e" "if_modified_since timegm (rq_HeaderA rq) = Some since"
    "since < ze_MkTime env (FileModTime (ze_TmJunk env) (en_Time e) (en_Date e))" "\<not> en_Deflated e" "length (en_Data e) < ce_Fuel cenv"
  shows "\<exists>r ps. Zip_Create env format timegm (Some (zip_file es)) m rq = Created r \<and> rp_Length r = length (en_Data e)
    \<and> body_parts (ce_Fuel cenv) 24576 (rp_Read r) = Some ps
    \<and> concat ps = take (length (en_Data e) div 24576 * 24576) (en_Data e)"
proof -
  let ?i = "entry_info env (length (local_parts xs)) e" and ?d = "zip_file es"
  obtain p q where c: "Zip_Create env format timegm (Some ?d) m rq =
      Created (Zip_Response format (ze_Junk env) (member_at ?i ?d p 0) (Zip_GetMimeType (rq_Resource rq)) since)"
      "drop p ?d = en_Data e @ q"
    using Zip_Create_member [OF assms(1-9) refl] by blast
  let ?r = "Zip_Response format (ze_Junk env) (member_at ?i ?d p 0) (Zip_GetMimeType (rq_Resource rq)) since"
  have i: "fi_CompressedSize ?i = length (en_Data e)" "length (en_Data e) < U32"
    using member_length [OF assms(5)] assms(3) by (simp_all add: entry_info_def)
  have r: "rp_Length ?r = length (en_Data e)"
      "rp_Read ?r = reader_of (Zip_Read (ze_Junk env) (GzipFooterA ?i)) (body_at ?i ?d p 0 CS_BODYONLY 0)"
    using assms(10,11) by (simp_all add: Zip_Response_def Let_def entry_info_def)
  show ?thesis
    using stored_parts [OF c(2) i, of 24576 0 "ce_Fuel cenv"] assms(12) c(1) r by auto
qed

definition sample_zip_request :: request where
  "sample_zip_request = \<lparr>rq_Method = METHOD_GET, rq_Resource = ''/a.txt'', rq_Query = qp_init 0 (upload_init 0 0), rq_HeaderA = [], rq_Content = None\<rparr>"

lemma sample_zip_facts:
  "rq_Resource sample_zip_request = CHR ''/'' # en_Name (sample_member z d)" "if_modified_since (\<lambda>_. 0) (rq_HeaderA sample_zip_request) = Some 0"
  "0 < ze_MkTime sample_zip_env (FileModTime (ze_TmJunk sample_zip_env) (en_Time (sample_member z d)) (en_Date (sample_member z d)))"
  "length d < 24576 \<Longrightarrow> ZipArchive_init sample_zip_env (Some (zip_file [sample_member z d])) =
    Inr (dir_map sample_zip_env 0 [sample_member z d] Map.empty)"
  using Load_zip_file [of "[sample_member z d]" sample_zip_env] sample_member_ok(1,6) [of z d]
  by (simp_all add: sample_zip_request_def sample_zip_env_def FileModTime_def sample_member_def del: dir_map.simps)

theorem member_sent_gzip_witness:
  "\<exists>m r. ZipArchive_init sample_zip_env (Some (zip_file [sample_member True ''data''])) = Inr m
    \<and> Zip_Create sample_zip_env (\<lambda>_. []) (\<lambda>_. 0) (Some (zip_file [sample_member True ''data''])) m sample_zip_request = Created r
    \<and> response_wire (sample_env\<lparr>ce_Fuel := 100\<rparr>) 0 True r = Some (head_text (sample_env\<lparr>ce_Fuel := 100\<rparr>) 0 True r @ GZipHeaderA @ ''data'' @ LE 4 7 @ LE 4 20)"
proof -
  have f: "\<forall>e \<in> set [sample_member True ''data'']. entry_ok e" "length [sample_member True ''data''] < 65536"
      "length (local_parts [sample_member True ''data'']) < U32" "[sample_member True ''data''] = [] @ sample_member True ''data'' # []"
      "\<forall>g \<in> set []. is_file g \<longrightarrow> en_Name g \<noteq> en_Name (sample_member True ''data'')"
      "length (en_Data (sample_member True ''data'')) + 18 \<le> ce_Fuel (sample_env\<lparr>ce_Fuel := 100\<rparr>)" "length ''data'' < 24576"
    by (simp_all add: sample_member_ok sample_env_def)
  obtain r where "Zip_Create sample_zip_env (\<lambda>_. []) (\<lambda>_. 0) (Some (zip_file [sample_member True ''data'']))
        (dir_map sample_zip_env 0 [sample_member True ''data''] Map.empty) sample_zip_request = Created r"
      "response_wire (sample_env\<lparr>ce_Fuel := 100\<rparr>) 0 True r = Some (head_text (sample_env\<lparr>ce_Fuel := 100\<rparr>) 0 True r @ GZipHeaderA @ en_Data (sample_member True ''data'')
        @ LE 4 (en_CRC (sample_member True ''data'')) @ LE 4 (en_Size (sample_member True ''data'')))"
    using member_sent_gzip [OF f(1-3) sample_zip_facts(4) [OF f(7)] f(4) sample_member_ok(2) f(5) sample_zip_facts(1,2,3) _ f(6),
        of "\<lambda>_. []" 0 True] sample_member_ok(5) by blast
  moreover have "en_Data (sample_member True ''data'') = ''data''" "en_CRC (sample_member True ''data'') = 7" "en_Size (sample_member True ''data'') = 20"
    by (simp_all add: sample_member_def)
  ultimately show ?thesis
    using sample_zip_facts(4) [OF f(7), of True] by metis
qed

theorem stored_member_cut_witness:
  "\<exists>m r ps. ZipArchive_init sample_zip_env (Some (zip_file [sample_member False ''data''])) = Inr m
    \<and> Zip_Create sample_zip_env (\<lambda>_. []) (\<lambda>_. 0) (Some (zip_file [sample_member False ''data''])) m sample_zip_request = Created r
    \<and> rp_Length r = 4 \<and> body_parts (ce_Fuel (sample_env\<lparr>ce_Fuel := 100\<rparr>)) 24576 (rp_Read r) = Some ps \<and> concat ps = []"
proof -
  have f: "\<forall>e \<in> set [sample_member False ''data'']. entry_ok e" "length [sample_member False ''data''] < 65536"
      "length (local_parts [sample_member False ''data'']) < U32" "[sample_member False ''data''] = [] @ sample_member False ''data'' # []"
      "\<forall>g \<in> set []. is_file g \<longrightarrow> en_Name g \<noteq> en_Name (sample_member False ''data'')" "\<not> en_Deflated (sample_member False ''data'')"
      "length (en_Data (sample_member False ''data'')) < ce_Fuel (sample_env\<lparr>ce_Fuel := 100\<rparr>)" "length ''data'' < 24576"
    by (simp_all add: sample_member_ok sample_env_def)
  obtain r ps where c: "Zip_Create sample_zip_env (\<lambda>_. []) (\<lambda>_. 0) (Some (zip_file [sample_member False ''data'']))
        (dir_map sample_zip_env 0 [sample_member False ''data''] Map.empty) sample_zip_request = Created r"
      "body_parts (ce_Fuel (sample_env\<lparr>ce_Fuel := 100\<rparr>)) 24576 (rp_Read r) = Some ps"
      and d: "rp_Length r = length (en_Data (sample_member False ''data''))"
      "concat ps = take (length (en_Data (sample_member False ''data'')) div 24576 * 24576) (en_Data (sample_member False ''data''))"
    using stored_member_cut [OF f(1-3) sample_zip_facts(4) [OF f(8)] f(4) sample_member_ok(2) f(5) sample_zip_facts(1,2,3) f(6,7), of "\<lambda>_. []"]
    by blast
  note d
  moreover have "length (en_Data (sample_member False ''data'')) = 4"
    by (simp add: sample_member_def)
  ultimately have "rp_Length r = 4" "concat ps = []" by simp_all
  then show ?thesis
    using sample_zip_facts(4) [OF f(8), of False] c by blast
qed

end
