(* ===== verification/ServerLogs.thy ===== *)
theory ServerLogs
  imports Responses
begin

text \<open>
  The log that writes to a stream, OStreamServerLog.cpp: one entry per connection, the lines it prints,
  and what becomes of an entry when a connection is upgraded. The time, the text of a transfer speed
  (it depends on double arithmetic) and whether an insertion rehashes the map are parameters.
\<close>

section \<open>The log\<close>

record conn_data =
  cd_SourceAddr :: string
  cd_WSTarget :: string
  cd_IsWebSocket :: bool

definition no_conn_data :: conn_data where
  "no_conn_data = \<lparr>cd_SourceAddr = [], cd_WSTarget = [], cd_IsWebSocket = False\<rparr>"

record ostream_log =
  ol_ConnMap :: "nat \<rightharpoonup> conn_data"
  ol_TargetS :: string

definition endl :: string where "endl = [CHR 0x0A]"

fun GetMethodName :: "METHOD \<Rightarrow> string" where
  "GetMethodName METHOD_GET = ''GET ''"
| "GetMethodName METHOD_POST = ''POST''"
| "GetMethodName METHOD_HEAD = ''HEAD''"
| "GetMethodName _ = ''-''"

text \<open>The entry \<open>ConnMap[Connection]\<close>, made if there is none.\<close>

definition holder_of :: "nat \<Rightarrow> ostream_log \<Rightarrow> conn_data" where
  "holder_of c l = (case ol_ConnMap l c of None \<Rightarrow> no_conn_data | Some d \<Rightarrow> d)"

definition print :: "string \<Rightarrow> ostream_log \<Rightarrow> ostream_log" where
  "print s l = l\<lparr>ol_TargetS := ol_TargetS l @ s\<rparr>"

definition address_text :: "nat \<Rightarrow> string" where
  "address_text a = dec (drop_bit 24 a) @ ''.'' @ dec (drop_bit 16 a AND 0xFF) @ ''.'' @ dec (drop_bit 8 a AND 0xFF) @ ''.'' @ dec (a AND 0xFF)"

text \<open>\<open>None\<close> is an address text longer than 15 characters, of which a negative number of blanks would be
  appended, or than the buffer.\<close>

definition Log_OnConnection :: "nat \<Rightarrow> nat \<Rightarrow> bool \<Rightarrow> ostream_log \<Rightarrow> ostream_log option" where
  "Log_OnConnection conn sourceAddr isAllowed l =
     (if isAllowed
      then let addr = address_text sourceAddr
           in if length addr > 4 * 3 + 3 then None
              else Some (l\<lparr>ol_ConnMap := (ol_ConnMap l)(conn \<mapsto>
                (holder_of conn l)\<lparr>cd_SourceAddr := addr @ replicate (4 * 3 + 3 - length addr) (CHR '' '')\<rparr>)\<rparr>)
      else Some l)"

definition Log_OnConnectionFinished :: "string \<Rightarrow> nat \<Rightarrow> ostream_log \<Rightarrow> ostream_log" where
  "Log_OnConnectionFinished now conn l =
     (case ol_ConnMap l conn of
        None \<Rightarrow> l
      | Some d \<Rightarrow>
          let l1 = (if cd_IsWebSocket d then print (now @ cd_SourceAddr d @ '' WSC  '' @ cd_WSTarget d @ endl) l else l)
          in l1\<lparr>ol_ConnMap := (ol_ConnMap l1)(conn := None)\<rparr>)"

text \<open>\<open>speed n t\<close> is what \<open>PrintTransferSpeed\<close> prints for a length and a time. If the insertion of the
  upgraded connection rehashes the map, the iterator erased afterwards is not valid any more: \<open>None\<close>.\<close>

definition Log_OnRequest :: "string \<Rightarrow> (nat \<Rightarrow> 't \<Rightarrow> string) \<Rightarrow> bool \<Rightarrow> nat \<Rightarrow> METHOD \<Rightarrow> string \<Rightarrow> nat \<Rightarrow> nat \<Rightarrow> nat \<Rightarrow> 't \<Rightarrow> 't
    \<Rightarrow> nat option \<Rightarrow> ostream_log \<Rightarrow> ostream_log option" where
  "Log_OnRequest now speed rehash conn method resource contentLength respCode respLength reqTime respTime upgradeConn l =
     (case ol_ConnMap l conn of
        None \<Rightarrow> Some l
      | Some d \<Rightarrow>
          let l1 = print (now @ cd_SourceAddr d @ '' '' @ GetMethodName method @ '' '' @ resource @ '' ('' @ dec contentLength @ ''; ''
                @ speed contentLength reqTime @ ''): '' @ dec respCode @ '' ('' @ dec respLength @ ''; '' @ speed respLength respTime @ '')''
                @ endl) l
          in case upgradeConn of
               Some w \<Rightarrow>
                 if cd_IsWebSocket d
                 then if rehash then None else Some (l1\<lparr>ol_ConnMap := (ol_ConnMap l1)(w \<mapsto> d, conn := None)\<rparr>)
                 else Some l1
             | None \<Rightarrow> Some l1)"

definition Log_OnWebSocket :: "string \<Rightarrow> nat \<Rightarrow> string \<Rightarrow> bool \<Rightarrow> string option \<Rightarrow> string option \<Rightarrow> ostream_log \<Rightarrow> ostream_log" where
  "Log_OnWebSocket now conn resource isSuccess origin subProtocol l =
     (if isSuccess
      then let d = holder_of conn l;
               l1 = print (now @ cd_SourceAddr d @ '' WS   '' @ (case origin of Some s \<Rightarrow> s | None \<Rightarrow> []) @ '': ''
                 @ (case subProtocol of Some s \<Rightarrow> s | None \<Rightarrow> ''-'') @ endl) l
           in l1\<lparr>ol_ConnMap := (ol_ConnMap l1)(conn \<mapsto> d\<lparr>cd_WSTarget := resource, cd_IsWebSocket := True\<rparr>)\<rparr>
      else l)"

text \<open>\<open>PrintNow\<close> with the text of \<open>strftime\<close>, if the local time is known.\<close>

definition PrintNow :: "string option \<Rightarrow> string" where
  "PrintNow localTime = (case localTime of Some t \<Rightarrow> t | None \<Rightarrow> ''???  '')"

section \<open>Lemmas\<close>

lemma length_dec_byte: "n < 256 \<Longrightarrow> length (dec n) \<le> 3"
proof -
  assume "n < 256"
  then consider "n < 10" | "10 \<le> n" "n div 10 < 10" | "10 \<le> n div 10" "n div 10 div 10 < 10"
    by linarith
  then show ?thesis
    by cases (simp_all add: dec.simps)
qed

lemma address_text_length:
  assumes "a < U32"
  shows "length (address_text a) \<le> 15"
proof -
  have "drop_bit 24 a < 256"
    using assms by (simp add: drop_bit_eq_div div_less_iff_less_mult)
  moreover have "b AND 0xFF < 256" for b :: nat
  proof -
    have "b AND 0xFF = take_bit 8 b"
      by (simp add: take_bit_eq_mask mask_eq_exp_minus_1)
    then show ?thesis
      using take_bit_nat_less_exp [of 8 b] by simp
  qed
  ultimately have "length (dec (drop_bit 24 a)) \<le> 3" "length (dec (drop_bit 16 a AND 0xFF)) \<le> 3" "length (dec (drop_bit 8 a AND 0xFF)) \<le> 3"
      "length (dec (a AND 0xFF)) \<le> 3"
    by (simp_all add: length_dec_byte)
  then show ?thesis
    by (simp add: address_text_def)
qed

section \<open>Properties\<close>

text \<open>Note: the address column of the log. For every IPv4 address the four numbers fit the buffer of 20
  characters, the entry of the connection holds them with blanks up to exactly 15 characters, and nothing
  is undefined; a refused connection gets no entry.\<close>

theorem address_column:
  assumes "a < U32"
  shows "length (address_text a) < 20 \<and>
    (\<exists>l'. Log_OnConnection c a True l = Some l' \<and> (\<exists>d k. ol_ConnMap l' c = Some d
       \<and> cd_SourceAddr d = address_text a @ replicate k (CHR '' '') \<and> length (cd_SourceAddr d) = 15)) \<and>
    Log_OnConnection c a False l = Some l"
  using address_text_length [OF assms] by (simp add: Log_OnConnection_def Let_def)

theorem address_column_witness:
  "length (address_text 2130706433) < 20 \<and> Log_OnConnection 1 2130706433 True \<lparr>ol_ConnMap = Map.empty, ol_TargetS = []\<rparr> \<noteq> None"
  using address_column [of 2130706433 1 "\<lparr>ol_ConnMap = Map.empty, ol_TargetS = []\<rparr>"] by auto

text \<open>The log of a connection that is upgraded to a WebSocket.\<close>

lemma upgraded_entry:
  assumes "ol_ConnMap l c = Some d" "c \<noteq> w"
  shows "\<exists>l'. Log_OnRequest now speed False c m res n code len t1 t2 (Some w) (Log_OnWebSocket now c res True org sp l) = Some l'
    \<and> ol_ConnMap l' = (ol_ConnMap l)(w \<mapsto> d\<lparr>cd_WSTarget := res, cd_IsWebSocket := True\<rparr>, c := None)"
  using assms
  by (auto simp: Log_OnRequest_def Log_OnWebSocket_def holder_of_def print_def Let_def intro!: exI)

text \<open>Note: the log of a WebSocket. When an accepted connection \<open>c\<close> is upgraded to \<open>w\<close>, its entry moves from
  \<open>c\<close> to \<open>w\<close>, with the address it came from, and the end of \<open>w\<close> prints one more line, with that address
  and the resource, and removes the entry, so the map is again what it was before the client came.\<close>

theorem websocket_logged:
  assumes "ol_ConnMap l c = None" "ol_ConnMap l w = None" "c \<noteq> w" "a < U32" "Log_OnConnection c a True l = Some l1"
    "Log_OnRequest now speed False c m res n code len t1 t2 (Some w) (Log_OnWebSocket now c res True org sp l1) = Some l2"
  shows "Log_OnConnectionFinished now c l2 = l2 \<and> ol_ConnMap (Log_OnConnectionFinished now w l2) = ol_ConnMap l \<and>
    (\<exists>k. ol_TargetS (Log_OnConnectionFinished now w l2) =
      ol_TargetS l2 @ now @ (address_text a @ replicate k (CHR '' '')) @ '' WSC  '' @ res @ endl)"
proof -
  let ?k = "15 - length (address_text a)" and ?d = "\<lambda>addr. \<lparr>cd_SourceAddr = addr, cd_WSTarget = res, cd_IsWebSocket = True\<rparr>"
  let ?addr = "address_text a @ replicate ?k (CHR '' '')"
  have l1: "ol_ConnMap l1 = (ol_ConnMap l)(c \<mapsto> no_conn_data\<lparr>cd_SourceAddr := ?addr\<rparr>)"
    using assms(1,5) address_text_length [OF assms(4)] by (auto simp: Log_OnConnection_def Let_def holder_of_def)
  have "ol_ConnMap l2 = (ol_ConnMap l1)(w \<mapsto> (no_conn_data\<lparr>cd_SourceAddr := ?addr\<rparr>)\<lparr>cd_WSTarget := res, cd_IsWebSocket := True\<rparr>, c := None)"
    using upgraded_entry [of l1 c "no_conn_data\<lparr>cd_SourceAddr := ?addr\<rparr>" w now speed m res n code len t1 t2 org sp] assms(3,6) l1 by simp
  then have m: "ol_ConnMap l2 = (ol_ConnMap l)(w \<mapsto> ?d ?addr, c := None)"
    using l1 assms(3) by (simp add: no_conn_data_def fun_upd_twist)
  show ?thesis
    using assms(1-3) by (auto simp: Log_OnConnectionFinished_def m print_def Let_def fun_eq_iff)
qed

theorem websocket_logged_witness:
  "\<exists>l2. ol_ConnMap (Log_OnConnectionFinished ''T '' 2 l2) = Map.empty \<and> ol_ConnMap l2 2 \<noteq> None"
proof -
  let ?l = "\<lparr>ol_ConnMap = Map.empty, ol_TargetS = []\<rparr>"
  obtain l1 where l1: "Log_OnConnection 1 2130706433 True ?l = Some l1"
    using address_column [of 2130706433 1 ?l] by auto
  have e: "ol_ConnMap l1 1 \<noteq> None"
    using l1 by (auto simp: Log_OnConnection_def Let_def split: if_splits)
  then obtain l2 where l2: "Log_OnRequest ''T '' (\<lambda>n t. []) False 1 METHOD_GET ''/echo'' 0 101 0 () () (Some 2)
      (Log_OnWebSocket ''T '' 1 ''/echo'' True None None l1) = Some l2" "ol_ConnMap l2 2 \<noteq> None"
    using upgraded_entry [of l1 1 _ 2] by force
  then show ?thesis
    using websocket_logged [OF _ _ _ _ l1 l2(1)] by auto
qed

end
