(* ===== verification/HttpServer.thy ===== *)
theory HttpServer
  imports WSHandshake WSHandler
begin

text \<open>
  The server, Server.cpp: its list of connections, the connection object waiting for the next
  accept, the counters, the handlers of the acceptor and the timer, and starting and stopping.
  \<open>None\<close> as a result is the end of the process: a null pointer used, or an exception that leaves
  the event loop. The locale is what the timer needs of a connection (ConnectionBase.h).
\<close>

section \<open>State\<close>

text \<open>A connection in the list: an HTTP connection with what it was given at creation and the WebSocket connection
  it was upgraded to, which lives from then on, or a WebSocket connection of a handler that is in the list itself.\<close>

datatype connection = HttpConn conn_env conn "wsc option" | WsConn nat wsc

datatype address = V4 nat | V6 nat

text \<open>\<open>OnConnection\<close> of the log.\<close>

datatype server_log = LogConnection nat bool

text \<open>The objects the server owns are named by numbers: the filter (\<open>None\<close> is \<open>DefaultConnFilter\<close>), the
  response source (\<open>None\<close> is null), the log (\<open>None\<close> is \<open>DefaultServerLog\<close>); \<open>sv_Deleted\<close> lists the
  deleted ones. \<open>sv_Accepting\<close> and \<open>sv_Waiting\<close> tell whether an accept and a wait are outstanding,
  and \<open>sv_Created\<close> counts the connection objects.\<close>

record server =
  sv_RunTh :: bool
  sv_MyConnF :: "nat option"
  sv_MyRespSource :: "nat option"
  sv_MyLog :: "nat option"
  sv_MyName :: string
  sv_ConnCount :: nat
  sv_TotalConnCount :: nat
  sv_TotalRespCount :: nat
  sv_BaseRespCount :: nat
  sv_ConnLst :: "connection list"
  sv_NextConn :: "(conn_env \<times> conn) option"
  sv_IsRunning :: bool
  sv_CorsRS :: bool
  sv_ConnConf :: conn_config
  sv_FUConf :: "nat \<times> nat"
  sv_Accepting :: bool
  sv_Waiting :: bool
  sv_Created :: nat
  sv_Deleted :: "nat list"
  sv_Log :: "server_log list"

text \<open>The world of the server: the decision of a filter, the behaviour of a response source, and for each
  connection object what else its environment is and what its client sends.\<close>

record server_env =
  se_Filter :: "nat \<Rightarrow> address \<Rightarrow> bool"
  se_Source :: "nat \<Rightarrow> nat \<Rightarrow> request \<Rightarrow> created"
  se_Conn :: "nat \<Rightarrow> conn_env"
  se_Input :: "nat \<Rightarrow> string list"
  se_Junk :: "nat \<Rightarrow> byte"

definition StepDurationSeconds :: nat where "StepDurationSeconds = 1"

definition server_init :: server where
  "server_init = \<lparr>sv_RunTh = False, sv_MyConnF = None, sv_MyRespSource = None, sv_MyLog = None, sv_MyName = ''EmbeddedHTTPd'',
     sv_ConnCount = 0, sv_TotalConnCount = 0, sv_TotalRespCount = 0, sv_BaseRespCount = 0, sv_ConnLst = [], sv_NextConn = None,
     sv_IsRunning = False, sv_CorsRS = False, sv_ConnConf = default_config, sv_FUConf = (UINTMAX - 1, UINTMAX - 1),
     sv_Accepting = False, sv_Waiting = False, sv_Created = 0, sv_Deleted = [], sv_Log = []\<rparr>"

section \<open>Settings\<close>

definition delete_object :: "nat option \<Rightarrow> server \<Rightarrow> server" where
  "delete_object p s = (case p of None \<Rightarrow> s | Some x \<Rightarrow> s\<lparr>sv_Deleted := sv_Deleted s @ [x]\<rparr>)"

definition SetCORS :: "bool \<Rightarrow> server \<Rightarrow> server" where
  "SetCORS enable s = s\<lparr>sv_CorsRS := enable\<rparr>"

definition SetConnectionFilter :: "nat option \<Rightarrow> server \<Rightarrow> server" where
  "SetConnectionFilter newCF s =
     (case newCF of
        Some f \<Rightarrow> (delete_object (sv_MyConnF s) s)\<lparr>sv_MyConnF := Some f\<rparr>
      | None \<Rightarrow> s\<lparr>sv_MyConnF := None\<rparr>)"

definition SetResponseSource :: "nat option \<Rightarrow> server \<Rightarrow> server" where
  "SetResponseSource newRS s = (delete_object (sv_MyRespSource s) s)\<lparr>sv_MyRespSource := newRS\<rparr>"

definition SetServerLog :: "nat option \<Rightarrow> server \<Rightarrow> server" where
  "SetServerLog newLog s =
     (case newLog of
        Some l \<Rightarrow> (delete_object (sv_MyLog s) s)\<lparr>sv_MyLog := Some l\<rparr>
      | None \<Rightarrow> s\<lparr>sv_MyLog := None\<rparr>)"

definition SetName :: "string \<Rightarrow> server \<Rightarrow> server" where
  "SetName name s = s\<lparr>sv_MyName := name\<rparr>"

definition SetConfig :: "conn_config \<Rightarrow> nat \<times> nat \<Rightarrow> server \<Rightarrow> server" where
  "SetConfig connConf fuConf s = s\<lparr>sv_ConnConf := connConf, sv_FUConf := fuConf\<rparr>"

section \<open>Accepting\<close>

text \<open>A new \<open>Connection\<close> object.\<close>

definition new_connection :: "server_env \<Rightarrow> server \<Rightarrow> conn_env \<times> conn" where
  "new_connection se s =
     (let e = (se_Conn se (sv_Created s))\<lparr>ce_CORS := sv_CorsRS s, ce_ServerName := sv_MyName s, ce_Conf := sv_ConnConf s\<rparr>
      in (e, conn_init e (upload_init (fst (sv_FUConf s)) (snd (sv_FUConf s))) (ce_Counter e) (se_Input se (sv_Created s))))"

definition RestartAccept :: "server_env \<Rightarrow> server \<Rightarrow> server" where
  "RestartAccept se s =
     (if sv_IsRunning s
      then let s1 = (if sv_NextConn s = None
                     then s\<lparr>sv_NextConn := Some (new_connection se s), sv_Created := Suc (sv_Created s)\<rparr> else s)
           in s1\<lparr>sv_Accepting := True\<rparr>
      else s)"

definition RestartTimer :: "server \<Rightarrow> server" where
  "RestartTimer s = (if sv_IsRunning s then s\<lparr>sv_Waiting := True\<rparr> else s)"

text \<open>\<open>to_v4\<close> throws for another address.\<close>

fun to_v4 :: "address \<Rightarrow> nat option" where
  "to_v4 (V4 a) = Some a"
| "to_v4 (V6 a) = None"

definition conn_allowed :: "server_env \<Rightarrow> server \<Rightarrow> address \<Rightarrow> bool" where
  "conn_allowed se s a = (case sv_MyConnF s of None \<Rightarrow> True | Some f \<Rightarrow> se_Filter se f a)"

text \<open>The source \<open>Start\<close> hands to the connection; a null pointer is used only when a response is created.\<close>

definition source_create :: "server_env \<Rightarrow> nat option \<Rightarrow> nat \<Rightarrow> request \<Rightarrow> created" where
  "source_create se src = (case src of Some x \<Rightarrow> se_Source se x | None \<Rightarrow> (\<lambda>_ _. CreatedNull))"

text \<open>The handler of an accept: the address of the peer, or \<open>None\<close> for an error.\<close>

definition OnAccept :: "server_env \<Rightarrow> address option \<Rightarrow> server \<Rightarrow> server option" where
  "OnAccept se peer s =
     (let s0 = s\<lparr>sv_Accepting := False\<rparr>
      in case peer of
           None \<Rightarrow> Some (RestartAccept se s0)
         | Some a \<Rightarrow>
             Option.bind (to_v4 a) (\<lambda>v4. Option.bind (sv_NextConn s0) (\<lambda>(e, c).
               if conn_allowed se s0 a
               then Some (RestartAccept se (s0\<lparr>sv_Log := sv_Log s0 @ [LogConnection v4 True],
                   sv_TotalConnCount := u32_add (sv_TotalConnCount s0) 1,
                   sv_ConnLst := sv_ConnLst s0 @ [HttpConn (e\<lparr>ce_Create := source_create se (sv_MyRespSource s0)\<rparr>) (StartConnection c) None],
                   sv_NextConn := None\<rparr>))
               else Some (RestartAccept se (s0\<lparr>sv_Log := sv_Log s0 @ [LogConnection v4 False], sv_NextConn := None\<rparr>)))))"

section \<open>The timer\<close>

text \<open>\<open>IResponse::Upgrade\<close> at the end of a response: the constructor of the WebSocket connection takes over
  the socket and starts reading.\<close>

definition Upgrade :: "(nat \<Rightarrow> byte) \<Rightarrow> conn \<Rightarrow> wsc option" where
  "Upgrade junk c = (case cn_NextConn c of None \<Rightarrow> None | Some h \<Rightarrow> Some (ws_init junk))"

text \<open>The call of \<open>OnStep\<close>. An HTTP connection releases its successor, in the state that has reached by then.\<close>

definition conn_step :: "nat \<Rightarrow> connection \<Rightarrow> (bool \<times> connection option) \<times> connection" where
  "conn_step d x = (case x of
      HttpConn e c nx \<Rightarrow> (case HttpOnStep (ce_Conf e) d c of ((keep, next), c') \<Rightarrow>
        ((keep, Option.bind next (\<lambda>h. map_option (WsConn h) nx)), HttpConn e c' (if next = None then nx else None)))
    | WsConn h w \<Rightarrow> (case OnStep d w of (keep, w') \<Rightarrow> ((keep, None), WsConn h w')))"

text \<open>\<open>ConnectionBase::GetResponseCount\<close>; a WebSocket connection does not count.\<close>

definition GetResponseCount :: "connection \<Rightarrow> nat" where
  "GetResponseCount x = (case x of HttpConn e c nx \<Rightarrow> cn_ResponseCount c | WsConn h w \<Rightarrow> 0)"

text \<open>The loop of \<open>OnTimer\<close> with the connections kept so far, their successors, and \<open>ActiveConnCount\<close>,
  \<open>CurrRespCount\<close> and \<open>BaseRespCount\<close>.\<close>

fun timer_loop :: "('c \<Rightarrow> (bool \<times> 'c option) \<times> 'c) \<Rightarrow> ('c \<Rightarrow> nat) \<Rightarrow> 'c list \<Rightarrow> 'c list \<times> 'c list \<times> nat \<times> nat \<times> nat
    \<Rightarrow> 'c list \<times> 'c list \<times> nat \<times> nat \<times> nat" where
  "timer_loop stp cnt [] st = st"
| "timer_loop stp cnt (x # xs) (kept, nexts, active, cur, base) =
     (case stp x of ((keep, next), x') \<Rightarrow>
        timer_loop stp cnt xs
          (if keep then (kept @ [x'], nexts @ (case next of None \<Rightarrow> [] | Some y \<Rightarrow> [y]), u32_add active 1, u32_add cur (cnt x'), base)
           else (kept, nexts @ (case next of None \<Rightarrow> [] | Some y \<Rightarrow> [y]), active, cur, u32_add base (cnt x'))))"

text \<open>The handler of the timer; the flag is the error.\<close>

definition OnTimer :: "bool \<Rightarrow> server \<Rightarrow> server" where
  "OnTimer err s =
     (let s0 = s\<lparr>sv_Waiting := False\<rparr>
      in if err then s0
         else (case timer_loop (conn_step StepDurationSeconds) GetResponseCount (sv_ConnLst s0) ([], [], 0, 0, sv_BaseRespCount s0) of
                 (kept, nexts, active, cur, base) \<Rightarrow>
                   RestartTimer (s0\<lparr>sv_ConnLst := kept @ nexts, sv_ConnCount := active, sv_BaseRespCount := base,
                     sv_TotalRespCount := u32_add base cur\<rparr>)))"

section \<open>Starting and stopping\<close>

definition Run :: "server_env \<Rightarrow> server \<Rightarrow> (bool \<times> server) option" where
  "Run se s =
     (if \<not> sv_RunTh s
      then Option.bind (sv_MyRespSource s) (\<lambda>_.
        Some (True, (RestartTimer (RestartAccept se (s\<lparr>sv_IsRunning := True\<rparr>)))\<lparr>sv_RunTh := True\<rparr>))
      else Some (False, s))"

definition conn_stop :: "(nat \<Rightarrow> byte) \<Rightarrow> connection \<Rightarrow> connection option" where
  "conn_stop junk x = (case x of
      HttpConn e c nx \<Rightarrow> Some (HttpConn e (StopConnection c) nx)
    | WsConn h w \<Rightarrow> map_option (WsConn h) (Stop junk w))"

fun stop_all :: "(nat \<Rightarrow> byte) \<Rightarrow> connection list \<Rightarrow> connection list option" where
  "stop_all junk [] = Some []"
| "stop_all junk (x # xs) = Option.bind (conn_stop junk x) (\<lambda>y. map_option ((#) y) (stop_all junk xs))"

text \<open>The handler \<open>Stop\<close> posts to the event loop. Closing the acceptor and cancelling the timer make
  their handlers run with an error, unless they have completed already.\<close>

definition StopInternal :: "(nat \<Rightarrow> byte) \<Rightarrow> server \<Rightarrow> server option" where
  "StopInternal junk s = map_option (\<lambda>cs. s\<lparr>sv_IsRunning := False, sv_ConnLst := cs\<rparr>) (stop_all junk (sv_ConnLst s))"

text \<open>The rest of \<open>Stop\<close>, when the thread has ended: the connections are deleted, and the one waiting
  for an accept is stopped and deleted without a test for null.\<close>

definition StopFinish :: "server \<Rightarrow> server option" where
  "StopFinish s =
     (case sv_NextConn s of
        None \<Rightarrow> None
      | Some _ \<Rightarrow> Some (s\<lparr>sv_RunTh := False, sv_ConnLst := [], sv_NextConn := None\<rparr>))"

text \<open>What the event loop still does between the call of \<open>Stop\<close> and its end.\<close>

datatype server_event = Accepted address | AcceptError | Timer bool | StopPosted

fun handle_event :: "server_env \<Rightarrow> server_event \<Rightarrow> server \<Rightarrow> server option" where
  "handle_event se (Accepted a) s = OnAccept se (Some a) s"
| "handle_event se AcceptError s = OnAccept se None s"
| "handle_event se (Timer err) s = Some (OnTimer err s)"
| "handle_event se StopPosted s = StopInternal (se_Junk se) s"

fun handle_events :: "server_env \<Rightarrow> server_event list \<Rightarrow> server \<Rightarrow> server option" where
  "handle_events se [] s = Some s"
| "handle_events se (e # es) s = Option.bind (handle_event se e s) (handle_events se es)"

text \<open>\<open>Stop\<close> with the events its thread handles before it ends; the result is whether the time was
  enough, which only the caller's clock decides.\<close>

definition StopServer :: "server_env \<Rightarrow> server_event list \<Rightarrow> bool \<Rightarrow> server \<Rightarrow> (bool \<times> server) option" where
  "StopServer se events inTime s =
     (if sv_RunTh s
      then Option.bind (handle_events se events s) (\<lambda>s1. map_option (\<lambda>s2. (inTime, s2)) (StopFinish s1))
      else Some (True, s))"

definition DestroyServer :: "server_env \<Rightarrow> server_event list \<Rightarrow> server \<Rightarrow> server option" where
  "DestroyServer se events s =
     map_option (\<lambda>(_, s1). delete_object (sv_MyLog s1) (delete_object (sv_MyConnF s1) (delete_object (sv_MyRespSource s1) s1)))
       (StopServer se events False s)"


section \<open>What a timer step does to the list\<close>

definition survivors :: "('c \<Rightarrow> (bool \<times> 'c option) \<times> 'c) \<Rightarrow> 'c list \<Rightarrow> 'c list" where
  "survivors stp xs = map (\<lambda>x. snd (stp x)) (filter (\<lambda>x. fst (fst (stp x))) xs)"

definition removed :: "('c \<Rightarrow> (bool \<times> 'c option) \<times> 'c) \<Rightarrow> 'c list \<Rightarrow> 'c list" where
  "removed stp xs = map (\<lambda>x. snd (stp x)) (filter (\<lambda>x. \<not> fst (fst (stp x))) xs)"

definition successors :: "('c \<Rightarrow> (bool \<times> 'c option) \<times> 'c) \<Rightarrow> 'c list \<Rightarrow> 'c list" where
  "successors stp xs = concat (map (\<lambda>x. case snd (fst (stp x)) of None \<Rightarrow> [] | Some y \<Rightarrow> [y]) xs)"

lemma timer_lists_append:
  "survivors stp (xs @ ys) = survivors stp xs @ survivors stp ys" "successors stp (xs @ ys) = successors stp xs @ successors stp ys"
  "removed stp (xs @ ys) = removed stp xs @ removed stp ys"
  by (simp_all add: survivors_def successors_def removed_def)

lemma timer_lists_Cons:
  "survivors stp (x # xs) = (if fst (fst (stp x)) then [snd (stp x)] else []) @ survivors stp xs"
  "successors stp (x # xs) = (case snd (fst (stp x)) of None \<Rightarrow> [] | Some y \<Rightarrow> [y]) @ successors stp xs"
  "removed stp (x # xs) = (if fst (fst (stp x)) then [] else [snd (stp x)]) @ removed stp xs"
  "survivors stp [] = []" "successors stp [] = []" "removed stp [] = []"
  by (simp_all add: survivors_def successors_def removed_def)

lemma timer_loop_spec:
  assumes "active < U32" "cur < U32" "base < U32"
  shows "timer_loop stp cnt xs (kept, nexts, active, cur, base) =
    (kept @ survivors stp xs, nexts @ successors stp xs, (active + length (survivors stp xs)) mod U32,
     (cur + sum_list (map cnt (survivors stp xs))) mod U32, (base + sum_list (map cnt (removed stp xs))) mod U32)"
  using assms
proof (induction xs arbitrary: kept nexts active cur base)
  case (Cons x xs)
  obtain keep nxt x' where x: "stp x = ((keep, nxt), x')"
    by (metis prod.collapse)
  have m: "(m mod U32 + n) mod U32 = (m + n) mod U32" "m mod U32 < U32" for m n :: nat
    by (simp_all add: mod_add_left_eq)
  show ?case
    using Cons.IH [of "u32_add active 1" "u32_add cur (cnt x')" base "kept @ [x']"] Cons.IH [of active cur "u32_add base (cnt x')" kept] Cons.prems
    by (auto simp: x timer_lists_Cons u32_add_def m add.assoc)
qed (simp add: timer_lists_Cons)

section \<open>The connection interface\<close>

text \<open>What the response counters rely on: a step does not count a response, and a successor starts with
  none.\<close>

locale connection_base =
  fixes stp :: "'c \<Rightarrow> (bool \<times> 'c option) \<times> 'c" and cnt :: "'c \<Rightarrow> nat"
  assumes step_count: "cnt (snd (stp x)) = cnt x"
    and next_count: "snd (fst (stp x)) = Some y \<Longrightarrow> cnt y = 0"
begin

lemma counts_kept: "sum_list (map cnt (survivors stp xs)) + sum_list (map cnt (removed stp xs)) = sum_list (map cnt xs)"
  by (induction xs) (auto simp: timer_lists_Cons step_count)

lemma successors_count: "sum_list (map cnt (successors stp xs)) = 0"
  by (induction xs) (auto simp: timer_lists_Cons next_count split: option.split)

end

lemma HttpOnStep_count: "cn_ResponseCount (snd (HttpOnStep conf d c)) = cn_ResponseCount c"
  by (simp add: HttpOnStep_def Let_def split: option.split)

interpretation cb: connection_base "conn_step d" GetResponseCount for d
proof unfold_locales
  fix x y
  show "GetResponseCount (snd (conn_step d x)) = GetResponseCount x"
  proof (cases x)
    case (HttpConn e c nx)
    then show ?thesis
      by (cases "HttpOnStep (ce_Conf e) d c") (use HttpOnStep_count [of "ce_Conf e" d c] in \<open>auto simp: conn_step_def GetResponseCount_def\<close>)
  qed (simp add: conn_step_def GetResponseCount_def split: prod.split)
  show "snd (fst (conn_step d x)) = Some y \<Longrightarrow> GetResponseCount y = 0"
    by (auto simp: conn_step_def GetResponseCount_def Option.bind_eq_Some_conv split: connection.splits prod.splits)
qed

text \<open>The step of the server's timer.\<close>

abbreviation tick :: "connection \<Rightarrow> (bool \<times> connection option) \<times> connection" where
  "tick \<equiv> conn_step StepDurationSeconds"

lemma OnTimer_spec:
  assumes "sv_BaseRespCount s < U32"
  shows "OnTimer False s = RestartTimer (s\<lparr>sv_Waiting := False,
    sv_ConnLst := survivors tick (sv_ConnLst s) @ successors tick (sv_ConnLst s),
    sv_ConnCount := length (survivors tick (sv_ConnLst s)) mod U32,
    sv_BaseRespCount := (sv_BaseRespCount s + sum_list (map GetResponseCount (removed tick (sv_ConnLst s)))) mod U32,
    sv_TotalRespCount := (sv_BaseRespCount s + sum_list (map GetResponseCount (sv_ConnLst s))) mod U32\<rparr>)"
proof -
  let ?c = "\<lambda>xs. sum_list (map GetResponseCount xs)"
  have "((sv_BaseRespCount s + ?c (removed tick (sv_ConnLst s))) mod U32 + ?c (survivors tick (sv_ConnLst s)) mod U32) mod U32
      = (sv_BaseRespCount s + (?c (survivors tick (sv_ConnLst s)) + ?c (removed tick (sv_ConnLst s)))) mod U32"
    by (simp only: mod_add_eq ac_simps)
  then show ?thesis
    using assms by (simp add: OnTimer_def Let_def timer_loop_spec cb.counts_kept u32_add_def)
qed

lemma RestartTimer_keeps [simp]:
  "sv_ConnLst (RestartTimer s) = sv_ConnLst s" "sv_BaseRespCount (RestartTimer s) = sv_BaseRespCount s"
  "sv_TotalRespCount (RestartTimer s) = sv_TotalRespCount s" "sv_ConnCount (RestartTimer s) = sv_ConnCount s"
  "sv_IsRunning (RestartTimer s) = sv_IsRunning s" "sv_NextConn (RestartTimer s) = sv_NextConn s"
  "sv_Accepting (RestartTimer s) = sv_Accepting s" "sv_Log (RestartTimer s) = sv_Log s" "sv_TotalConnCount (RestartTimer s) = sv_TotalConnCount s"
  by (simp_all add: RestartTimer_def)


section \<open>The running server\<close>

text \<open>When the event loop can call a handler. A wait fails only when it is cancelled, which
  \<open>StopInternal\<close> alone does.\<close>

fun event_ready :: "server_event \<Rightarrow> server \<Rightarrow> bool" where
  "event_ready (Accepted a) s = sv_Accepting s"
| "event_ready AcceptError s = sv_Accepting s"
| "event_ready (Timer err) s = (sv_Waiting s \<and> (err \<longrightarrow> \<not> sv_IsRunning s))"
| "event_ready StopPosted s = True"

text \<open>A step: a handler of the server, the coroutine of an HTTP connection, which creates the successor when it
  upgrades, an operation of a WebSocket connection, in the list or not yet, or a setting the application changes.\<close>

inductive server_step :: "server_env \<Rightarrow> server \<Rightarrow> server \<Rightarrow> bool" for se where
  handler: "event_ready ev s \<Longrightarrow> handle_event se ev s = Some s' \<Longrightarrow> server_step se s s'"
| http: "sv_ConnLst s = xs @ HttpConn e c nx # ys \<Longrightarrow> \<not> cn_IsDeletable c \<Longrightarrow> ProtocolHandler e fuel c = Some c' \<Longrightarrow>
    server_step se s (s\<lparr>sv_ConnLst := xs @ HttpConn e c' (Upgrade (se_Junk se) c') # ys\<rparr>)"
| upgraded: "sv_ConnLst s = xs @ HttpConn e c (Some w) # ys \<Longrightarrow> ws_step (se_Junk se) w w' \<Longrightarrow>
    server_step se s (s\<lparr>sv_ConnLst := xs @ HttpConn e c (Some w') # ys\<rparr>)"
| ws: "sv_ConnLst s = xs @ WsConn h w # ys \<Longrightarrow> ws_step (se_Junk se) w w' \<Longrightarrow>
    server_step se s (s\<lparr>sv_ConnLst := xs @ WsConn h w' # ys\<rparr>)"
| cors: "server_step se s (SetCORS b s)"
| conn_filter: "server_step se s (SetConnectionFilter f s)"
| source: "server_step se s (SetResponseSource r s)"
| log: "server_step se s (SetServerLog l s)"
| name: "server_step se s (SetName n s)"
| config: "server_step se s (SetConfig cf fu s)"

text \<open>The states of a server that was set up, started once, and not yet joined by \<open>Stop\<close>.\<close>

inductive server_reach :: "server_env \<Rightarrow> server \<Rightarrow> bool" for se where
  start: "Run se (server_init\<lparr>sv_MyConnF := f, sv_MyRespSource := r, sv_MyLog := l, sv_MyName := n, sv_ConnConf := cf, sv_FUConf := fu,
    sv_CorsRS := b\<rparr>) = Some (True, s) \<Longrightarrow> server_reach se s"
| step: "server_reach se s \<Longrightarrow> server_step se s s' \<Longrightarrow> server_reach se s'"

inductive_cases server_stepE: "server_step se s s'"

definition accepted_log :: "server_log list \<Rightarrow> nat" where
  "accepted_log ls = length (filter (\<lambda>l. case l of LogConnection a ok \<Rightarrow> ok) ls)"

definition server_inv :: "server \<Rightarrow> bool" where
  "server_inv s \<longleftrightarrow> sv_RunTh s \<and> (sv_IsRunning s \<longrightarrow> sv_Accepting s \<and> sv_Waiting s \<and> sv_NextConn s \<noteq> None) \<and>
     sv_TotalConnCount s = accepted_log (sv_Log s) mod U32 \<and>
     sv_Created s = length (sv_Log s) + (case sv_NextConn s of None \<Rightarrow> 0 | Some _ \<Rightarrow> 1)"

lemma accepted_log_simps [simp]: "accepted_log [] = 0" "accepted_log (ls @ [LogConnection a ok]) = accepted_log ls + (if ok then 1 else 0)"
  by (simp_all add: accepted_log_def)

lemma Run_inv:
  assumes "Run se (server_init\<lparr>sv_MyConnF := f, sv_MyRespSource := r, sv_MyLog := l, sv_MyName := n, sv_ConnConf := cf, sv_FUConf := fu,
    sv_CorsRS := b\<rparr>) = Some (True, s)"
  shows "server_inv s"
  using assms by (auto simp: Run_def server_init_def server_inv_def RestartAccept_def RestartTimer_def Let_def Option.bind_eq_Some_conv)

lemma settings_inv [simp]:
  "server_inv (SetCORS b s) = server_inv s" "server_inv (SetConnectionFilter f s) = server_inv s"
  "server_inv (SetResponseSource r s) = server_inv s" "server_inv (SetServerLog l s) = server_inv s"
  "server_inv (SetName n s) = server_inv s" "server_inv (SetConfig cf fu s) = server_inv s"
  "server_inv (s\<lparr>sv_ConnLst := xs\<rparr>) = server_inv s"
  by (simp_all add: server_inv_def SetCORS_def SetConnectionFilter_def SetResponseSource_def SetServerLog_def SetName_def SetConfig_def
    delete_object_def split: option.split)

lemma OnAccept_inv:
  assumes "server_inv s" "OnAccept se p s = Some s'"
  shows "server_inv s'"
  using assms
  by (auto simp: OnAccept_def server_inv_def RestartAccept_def Let_def u32_add_def Option.bind_eq_Some_conv mod_Suc_eq
    split: option.splits if_splits)

lemma OnTimer_inv:
  assumes "server_inv s" "event_ready (Timer err) s"
  shows "server_inv (OnTimer err s)"
  using assms by (auto simp: OnTimer_def server_inv_def RestartTimer_def Let_def split: prod.splits)

lemma StopInternal_inv:
  assumes "server_inv s" "StopInternal junk s = Some s'"
  shows "server_inv s'"
  using assms by (auto simp: StopInternal_def server_inv_def)

lemma handle_event_inv:
  assumes i: "server_inv s" and r: "event_ready ev s" and h: "handle_event se ev s = Some s'"
  shows "server_inv s'"
proof (cases ev)
  case (Timer err)
  with h have "s' = OnTimer err s" by simp
  with OnTimer_inv [OF i] r Timer show ?thesis by blast
next
  case (Accepted a)
  with h have "OnAccept se (Some a) s = Some s'" by simp
  with i show ?thesis by (rule OnAccept_inv)
next
  case AcceptError
  with h have "OnAccept se None s = Some s'" by simp
  with i show ?thesis by (rule OnAccept_inv)
next
  case StopPosted
  with h have "StopInternal (se_Junk se) s = Some s'" by simp
  with i show ?thesis by (rule StopInternal_inv)
qed

lemma server_step_inv:
  assumes "server_step se s s'" "server_inv s"
  shows "server_inv s'"
  using assms by (cases rule: server_step.cases) (auto intro: handle_event_inv)

lemma server_reach_inv: "server_reach se s \<Longrightarrow> server_inv s"
  by (induction rule: server_reach.induct) (auto intro: Run_inv server_step_inv)

lemma OnAccept_defined:
  assumes "sv_NextConn s \<noteq> None"
  shows "OnAccept se (Some (V4 a)) s \<noteq> None" "OnAccept se (Some (V6 a)) s = None"
  using assms by (auto simp: OnAccept_def Let_def)

text \<open>C15: a running server keeps serving. In every state it can reach, whatever its clients send, its
  handlers, its connections and the application's settings do, one accept and one timer wait are
  outstanding with a connection object ready for the accept, the next IPv4 client is accepted without
  a fault, and the server is still running after it.\<close>

theorem running_server_listens:
  assumes "server_reach se s" "sv_IsRunning s"
  shows "sv_Accepting s \<and> sv_Waiting s \<and> sv_NextConn s \<noteq> None \<and>
    (\<exists>s'. handle_event se (Accepted (V4 a)) s = Some s' \<and> server_reach se s' \<and> sv_IsRunning s' \<and> sv_Accepting s')"
proof -
  have i: "sv_Accepting s \<and> sv_Waiting s \<and> sv_NextConn s \<noteq> None"
    using server_reach_inv [OF assms(1)] assms(2) by (simp add: server_inv_def)
  then obtain s' where s': "handle_event se (Accepted (V4 a)) s = Some s'"
    using OnAccept_defined(1) [of s se a] by auto
  then have "server_step se s s'"
    using i by (auto intro: server_step.handler [of "Accepted (V4 a)"])
  with assms(1) have "server_reach se s'" by (rule server_reach.step)
  moreover have "sv_IsRunning s'" "sv_Accepting s'"
    using s' assms(2) by (auto simp: OnAccept_def RestartAccept_def Let_def Option.bind_eq_Some_conv split: if_splits option.splits)
  ultimately show ?thesis using i s' by blast
qed

text \<open>C30: the books of the server. In every reachable state \<open>TotalConnCount\<close> is the number of admitted
  connections the log was told of, modulo \<open>2 ^ 32\<close>, and every connection object ever created was handed to
  a client, refused, or waits for the next accept.\<close>

theorem connections_accounted:
  assumes "server_reach se s"
  shows "sv_TotalConnCount s = accepted_log (sv_Log s) mod U32 \<and>
    sv_Created s = length (sv_Log s) + (case sv_NextConn s of None \<Rightarrow> 0 | Some _ \<Rightarrow> 1)"
  using server_reach_inv [OF assms] by (simp add: server_inv_def)


lemma OnAccept_admitted:
  assumes "OnAccept se (Some (V4 a)) s = Some s'" "conn_allowed se s (V4 a)"
  shows "sv_Log s' = sv_Log s @ [LogConnection a True]" "sv_IsRunning s' = sv_IsRunning s"
    "\<exists>e c. sv_NextConn s = Some (e, c) \<and>
      sv_ConnLst s' = sv_ConnLst s @ [HttpConn (e\<lparr>ce_Create := source_create se (sv_MyRespSource s)\<rparr>) (StartConnection c) None]"
  using assms by (auto simp: OnAccept_def conn_allowed_def Let_def Option.bind_eq_Some_conv RestartAccept_def split: option.splits if_splits)

section \<open>A sample server\<close>

definition sample_server_env :: server_env where
  "sample_server_env = \<lparr>se_Filter = \<lambda>_ _. True, se_Source = \<lambda>_. ce_Create sample_env, se_Conn = \<lambda>_. sample_env,
     se_Input = \<lambda>_. [''GET / HTTP/1.1''], se_Junk = \<lambda>_. 0\<rparr>"

definition sample_setup :: server where
  "sample_setup = server_init\<lparr>sv_MyConnF := None, sv_MyRespSource := Some 3, sv_MyLog := None, sv_MyName := ''MiniWebSrv'',
     sv_ConnConf := default_config, sv_FUConf := (0, 0), sv_CorsRS := False\<rparr>"

definition sample_server :: server where
  "sample_server = the (map_option snd (Run sample_server_env sample_setup))"

lemma sample_run: "Run sample_server_env sample_setup = Some (True, sample_server)"
  by (simp add: sample_server_def Run_def sample_setup_def server_init_def)

lemma sample_reach: "server_reach sample_server_env sample_server"
  using sample_run unfolding sample_setup_def by (rule server_reach.start)

lemma sample_fields [simp]: "sv_IsRunning sample_server" "sv_ConnLst sample_server = []" "sv_Log sample_server = []"
  by (simp_all add: sample_server_def Run_def sample_setup_def server_init_def RestartAccept_def RestartTimer_def Let_def)

theorem running_server_listens_witness:
  "\<exists>s'. handle_event sample_server_env (Accepted (V4 2130706433)) sample_server = Some s' \<and> sv_Accepting s'"
  using running_server_listens [OF sample_reach sample_fields(1), of 2130706433] by blast

text \<open>The sample server with one client.\<close>

definition sample_client :: server where
  "sample_client = the (OnAccept sample_server_env (Some (V4 2130706433)) sample_server)"

lemma sample_admitted: "OnAccept sample_server_env (Some (V4 2130706433)) sample_server = Some sample_client"
  using OnAccept_defined(1) [of sample_server sample_server_env 2130706433] server_reach_inv [OF sample_reach]
  by (auto simp: sample_client_def server_inv_def)

lemma sample_client_reach: "server_reach sample_server_env sample_client"
proof (rule server_reach.step [OF sample_reach])
  show "server_step sample_server_env sample_server sample_client"
    using sample_admitted server_reach_inv [OF sample_reach]
    by (intro server_step.handler [of "Accepted (V4 2130706433)"]) (simp_all add: server_inv_def)
qed

lemma sample_client_log: "sv_Log sample_client = [LogConnection 2130706433 True]" "sv_IsRunning sample_client"
  using OnAccept_admitted [OF sample_admitted] by (simp_all add: conn_allowed_def sample_server_env_def split: option.split)

theorem connections_accounted_witness: "sv_TotalConnCount sample_client = 1 \<and> sv_Created sample_client \<ge> 1"
  using connections_accounted [OF sample_client_reach] by (simp add: sample_client_log accepted_log_def)

section \<open>Stopping\<close>

lemma handle_late_accept:
  assumes "sv_NextConn s \<noteq> None" "stop_all (se_Junk se) (sv_ConnLst s) = Some cs"
  shows "\<exists>s'. handle_events se [StopPosted, Accepted (V4 a)] s = Some s' \<and> sv_NextConn s' = None"
  using assms by (auto simp: StopInternal_def OnAccept_def RestartAccept_def Let_def)

text \<open>After the posted handler the server only accepts what had been accepted already: the connection object that
  waits is taken by at most one accept, and none is created.\<close>

definition stopping :: "server \<Rightarrow> server \<Rightarrow> bool" where
  "stopping s1 s \<longleftrightarrow> \<not> sv_IsRunning s \<and> (sv_Log s = sv_Log s1 \<and> sv_NextConn s \<noteq> None
     \<or> (\<exists>a ok. sv_Log s = sv_Log s1 @ [LogConnection a ok]) \<and> sv_NextConn s = None \<and> \<not> sv_Accepting s)"

lemma stopping_settings [simp]:
  "stopping s1 (SetCORS b s) = stopping s1 s" "stopping s1 (SetConnectionFilter f s) = stopping s1 s"
  "stopping s1 (SetResponseSource r s) = stopping s1 s" "stopping s1 (SetServerLog l s) = stopping s1 s"
  "stopping s1 (SetName n s) = stopping s1 s" "stopping s1 (SetConfig cf fu s) = stopping s1 s"
  "stopping s1 (s\<lparr>sv_ConnLst := xs\<rparr>) = stopping s1 s"
  by (simp_all add: stopping_def SetCORS_def SetConnectionFilter_def SetResponseSource_def SetServerLog_def SetName_def SetConfig_def
    delete_object_def split: option.split)

lemma stopping_event:
  assumes "stopping s1 s" "event_ready ev s" "handle_event se ev s = Some s'"
  shows "stopping s1 s'"
  using assms
  by (cases ev) (auto simp: stopping_def OnAccept_def RestartAccept_def OnTimer_def RestartTimer_def StopInternal_def Let_def
      Option.bind_eq_Some_conv split: if_splits prod.splits)

lemma stopping_step: "server_step se s s' \<Longrightarrow> stopping s1 s \<Longrightarrow> stopping s1 s'"
  by (cases rule: server_step.cases) (auto intro: stopping_event)

lemma stopping_steps: "(server_step se)\<^sup>*\<^sup>* s s' \<Longrightarrow> stopping s1 s \<Longrightarrow> stopping s1 s'"
  by (induction rule: rtranclp_induct) (auto intro: stopping_step)

text \<open>C29: stopping a running server. Whatever handlers, connections and settings run between the handler that
  \<open>Stop\<close> posts and the end of the event loop, in any order, at most one accept is still handled, one that
  had completed already. It takes the connection object that waited, none is created for it any more, and
  \<open>Stop\<close> then uses a null pointer; if there is no such accept \<open>Stop\<close> ends with an empty list and no
  connection object left. Both can happen in every running state.\<close>

theorem late_accept:
  assumes "server_reach se s" "sv_IsRunning s" "handle_event se StopPosted s = Some s1" "(server_step se)\<^sup>*\<^sup>* s1 s2"
  shows "\<not> sv_IsRunning s2 \<and>
    (if sv_Log s2 = sv_Log s1
     then \<exists>s3. StopFinish s2 = Some s3 \<and> sv_ConnLst s3 = [] \<and> sv_NextConn s3 = None \<and> \<not> sv_RunTh s3
     else (\<exists>a ok. sv_Log s2 = sv_Log s1 @ [LogConnection a ok]) \<and> StopFinish s2 = None) \<and>
    StopServer se [StopPosted, Accepted (V4 a)] inTime s = None \<and>
    (\<exists>s3. StopServer se [StopPosted, AcceptError, Timer True] inTime s = Some (inTime, s3))"
proof -
  have i: "sv_RunTh s" "sv_NextConn s \<noteq> None"
    using server_reach_inv [OF assms(1)] assms(2) by (simp_all add: server_inv_def)
  obtain cs where cs: "stop_all (se_Junk se) (sv_ConnLst s) = Some cs" "s1 = s\<lparr>sv_IsRunning := False, sv_ConnLst := cs\<rparr>"
    using assms(3) by (auto simp: StopInternal_def)
  have "stopping s1 s1"
    using cs(2) i(2) by (simp add: stopping_def)
  then have st: "stopping s1 s2"
    by (rule stopping_steps [OF assms(4)])
  obtain s' where "handle_events se [StopPosted, Accepted (V4 a)] s = Some s'" "sv_NextConn s' = None"
    using handle_late_accept [OF i(2) cs(1)] by blast
  then have "StopServer se [StopPosted, Accepted (V4 a)] inTime s = None"
    using i(1) by (simp add: StopServer_def StopFinish_def del: handle_events.simps)
  moreover have "\<exists>s3. StopServer se [StopPosted, AcceptError, Timer True] inTime s = Some (inTime, s3)"
    using i cs(1) by (auto simp: StopServer_def StopFinish_def StopInternal_def OnAccept_def RestartAccept_def OnTimer_def Let_def)
  moreover have "if sv_Log s2 = sv_Log s1
     then \<exists>s3. StopFinish s2 = Some s3 \<and> sv_ConnLst s3 = [] \<and> sv_NextConn s3 = None \<and> \<not> sv_RunTh s3
     else (\<exists>a ok. sv_Log s2 = sv_Log s1 @ [LogConnection a ok]) \<and> StopFinish s2 = None"
    using st by (auto simp: stopping_def StopFinish_def)
  ultimately show ?thesis
    using st by (simp add: stopping_def)
qed

theorem late_accept_witness:
  "\<exists>s1. handle_event sample_server_env StopPosted sample_server = Some s1 \<and> (\<exists>s3. StopFinish s1 = Some s3 \<and> sv_ConnLst s3 = [])
    \<and> StopServer sample_server_env [StopPosted, Accepted (V4 1)] True sample_server = None"
proof -
  obtain s1 where s1: "handle_event sample_server_env StopPosted sample_server = Some s1"
    by (simp add: StopInternal_def)
  then show ?thesis
    using late_accept [OF sample_reach sample_fields(1) s1 rtranclp.rtrancl_refl, of 1 True] by auto
qed

section \<open>The timer and the connections\<close>

text \<open>C27: the timer and the counters. After a step of the timer the list holds the connections that asked
  to be kept, in their order and behind them their successors, \<open>ConnCount\<close> is the number of the kept
  ones, \<open>TotalRespCount\<close> counts the responses of all connections there were, removed ones included,
  and the responses of a removed connection are never lost: the sum of \<open>BaseRespCount\<close> and the counts
  in the list is the same before and after, modulo \<open>2 ^ 32\<close>.\<close>

theorem responses_conserved:
  assumes "sv_BaseRespCount s < U32" "s' = OnTimer False s"
  shows "sv_ConnLst s' = survivors tick (sv_ConnLst s) @ successors tick (sv_ConnLst s) \<and>
    sv_ConnCount s' = length (survivors tick (sv_ConnLst s)) mod U32 \<and>
    sv_TotalRespCount s' = (sv_BaseRespCount s + sum_list (map GetResponseCount (sv_ConnLst s))) mod U32 \<and>
    (sv_BaseRespCount s' + sum_list (map GetResponseCount (sv_ConnLst s'))) mod U32 =
      (sv_BaseRespCount s + sum_list (map GetResponseCount (sv_ConnLst s))) mod U32"
proof -
  let ?c = "\<lambda>xs. sum_list (map GetResponseCount xs)"
  have "((sv_BaseRespCount s + ?c (removed tick (sv_ConnLst s))) mod U32
        + (?c (survivors tick (sv_ConnLst s)) + ?c (successors tick (sv_ConnLst s)))) mod U32
      = (sv_BaseRespCount s + (?c (survivors tick (sv_ConnLst s)) + ?c (removed tick (sv_ConnLst s)))) mod U32"
    by (simp only: mod_add_left_eq mod_add_right_eq cb.successors_count ac_simps add_0_right add_0_left)
  then show ?thesis
    by (simp add: assms(2) OnTimer_spec [OF assms(1)] cb.counts_kept)
qed

theorem responses_conserved_witness:
  "sv_TotalRespCount (OnTimer False (server_init\<lparr>sv_BaseRespCount := U32 - 1,
    sv_ConnLst := [HttpConn sample_env ((conn_init sample_env (upload_init 0 0) 0 [])\<lparr>cn_ResponseCount := 3\<rparr>) None]\<rparr>)) = 2"
  using responses_conserved [of "server_init\<lparr>sv_BaseRespCount := U32 - 1,
    sv_ConnLst := [HttpConn sample_env ((conn_init sample_env (upload_init 0 0) 0 [])\<lparr>cn_ResponseCount := 3\<rparr>) None]\<rparr>"]
  by (simp add: GetResponseCount_def)

lemma HttpOnStep_successor:
  assumes "cn_NextConn c = Some h" "cn_IsDeletable c" "0 < d" "cc_MaxSilentTime conf + d < U32"
  shows "HttpOnStep conf d c = ((False, Some h), c\<lparr>cn_NextConn := None, cn_SilentTime := cc_MaxSilentTime conf + d, cn_Open := False\<rparr>)"
  using assms by (simp add: HttpOnStep_def Let_def u32_add_def)

section \<open>Successors\<close>

text \<open>A successor exists exactly while its connection has not released it; its state is one that a new WebSocket
  connection can reach.\<close>

definition next_ok :: "(nat \<Rightarrow> byte) \<Rightarrow> connection \<Rightarrow> bool" where
  "next_ok junk x \<longleftrightarrow> (case x of
      HttpConn e c nx \<Rightarrow> (case cn_NextConn c of None \<Rightarrow> nx = None | Some h \<Rightarrow> \<exists>w. nx = Some w \<and> (ws_step junk)\<^sup>*\<^sup>* (ws_init junk) w)
    | WsConn h w \<Rightarrow> True)"

definition list_inv :: "(nat \<Rightarrow> byte) \<Rightarrow> server \<Rightarrow> bool" where
  "list_inv junk s \<longleftrightarrow> (\<forall>x \<in> set (sv_ConnLst s). next_ok junk x) \<and> sv_BaseRespCount s < U32
     \<and> (\<forall>e c. sv_NextConn s = Some (e, c) \<longrightarrow> cn_NextConn c = None)"

lemma list_inv_settings [simp]:
  "list_inv junk (SetCORS b s) = list_inv junk s" "list_inv junk (SetConnectionFilter f s) = list_inv junk s"
  "list_inv junk (SetResponseSource r s) = list_inv junk s" "list_inv junk (SetServerLog l s) = list_inv junk s"
  "list_inv junk (SetName n s) = list_inv junk s" "list_inv junk (SetConfig cf fu s) = list_inv junk s"
  by (simp_all add: list_inv_def SetCORS_def SetConnectionFilter_def SetResponseSource_def SetServerLog_def SetName_def SetConfig_def
    delete_object_def split: option.split)

lemma new_connection_next: "new_connection se s = (e, c) \<Longrightarrow> cn_NextConn c = None"
  by (auto simp: new_connection_def conn_init_def Let_def)

lemma RestartAccept_list: "list_inv junk s \<Longrightarrow> list_inv junk (RestartAccept se s)"
  by (auto simp: list_inv_def RestartAccept_def Let_def dest: new_connection_next)

lemma OnAccept_list:
  assumes "list_inv junk s" "OnAccept se p s = Some s'"
  shows "list_inv junk s'"
proof -
  have s0: "list_inv junk (s\<lparr>sv_Accepting := False\<rparr>)"
    using assms(1) by (simp add: list_inv_def)
  have new: "list_inv junk (s\<lparr>sv_Accepting := False, sv_Log := l, sv_TotalConnCount := n,
      sv_ConnLst := sv_ConnLst s @ [HttpConn e' (StartConnection c) None], sv_NextConn := None\<rparr>)"
    if "sv_NextConn s = Some (e, c)" for l n e e' c
    using assms(1) that by (auto simp: list_inv_def next_ok_def StartConnection_def)
  have refused: "list_inv junk (s\<lparr>sv_Accepting := False, sv_Log := l, sv_NextConn := None\<rparr>)" for l
    using assms(1) by (simp add: list_inv_def)
  show ?thesis
    using assms(2) RestartAccept_list [OF s0, where se = se] RestartAccept_list [OF new, where se = se] RestartAccept_list [OF refused, where se = se]
    by (auto simp: OnAccept_def Let_def Option.bind_eq_Some_conv split: option.splits if_splits)
qed

lemma tick_next_ok:
  assumes "next_ok junk x"
  shows "next_ok junk (snd (tick x))" "snd (fst (tick x)) = Some y \<Longrightarrow> next_ok junk y"
  using assms
  by (auto simp: next_ok_def conn_step_def HttpOnStep_def Let_def Option.bind_eq_Some_conv split: connection.splits prod.splits option.splits if_splits)

lemma ticks_next_ok:
  assumes "\<forall>x \<in> set xs. next_ok junk x"
  shows "\<forall>x \<in> set (survivors tick xs) \<union> set (successors tick xs). next_ok junk x"
  using assms by (induction xs) (auto simp: timer_lists_Cons tick_next_ok(1) dest: tick_next_ok(2) tick_next_ok(2) [OF _ sym] split: option.splits if_splits)

lemma OnTimer_list:
  assumes "list_inv junk s"
  shows "list_inv junk (OnTimer err s)"
proof (cases err)
  case False
  have b: "sv_BaseRespCount s < U32" and x: "\<forall>x \<in> set (sv_ConnLst s). next_ok junk x"
    using assms by (simp_all add: list_inv_def)
  then show ?thesis
    using assms ticks_next_ok [OF x] False by (auto simp: OnTimer_spec [OF b] list_inv_def)
qed (use assms in \<open>simp add: OnTimer_def list_inv_def Let_def\<close>)

lemma stop_all_next: "stop_all junk xs = Some ys \<Longrightarrow> \<forall>x \<in> set xs. next_ok junk x \<Longrightarrow> \<forall>y \<in> set ys. next_ok junk y"
  by (induction xs arbitrary: ys)
    (auto simp: Option.bind_eq_Some_conv conn_stop_def next_ok_def StopConnection_def split: connection.splits)

lemma handle_event_list:
  assumes "list_inv (se_Junk se) s" "handle_event se ev s = Some s'"
  shows "list_inv (se_Junk se) s'"
proof (cases ev)
  case StopPosted
  then obtain cs where cs: "stop_all (se_Junk se) (sv_ConnLst s) = Some cs" "s' = s\<lparr>sv_IsRunning := False, sv_ConnLst := cs\<rparr>"
    using assms(2) by (auto simp: StopInternal_def)
  have "\<forall>y \<in> set cs. next_ok (se_Junk se) y"
    by (rule stop_all_next [OF cs(1)]) (use assms(1) in \<open>simp add: list_inv_def\<close>)
  then show ?thesis
    using assms(1) cs(2) by (simp add: list_inv_def)
qed (use assms OnAccept_list OnTimer_list in auto)

lemma list_inv_replace:
  assumes "list_inv junk s" "sv_ConnLst s = xs @ x # ys" "next_ok junk y"
  shows "list_inv junk (s\<lparr>sv_ConnLst := xs @ y # ys\<rparr>)"
  using assms by (simp add: list_inv_def)

lemma server_step_list:
  assumes "server_step se s s'" "list_inv (se_Junk se) s"
  shows "list_inv (se_Junk se) s'"
  using assms
proof (cases rule: server_step.cases)
  case (http xs e c nx ys fuel c')
  have "next_ok (se_Junk se) (HttpConn e c' (Upgrade (se_Junk se) c'))"
    by (simp add: next_ok_def Upgrade_def split: option.split)
  then show ?thesis
    using list_inv_replace [OF assms(2) http(2)] http(1) by simp
next
  case (upgraded xs e c w ys w')
  have "next_ok (se_Junk se) (HttpConn e c (Some w))"
    using assms(2) upgraded(2) by (simp add: list_inv_def)
  then have "next_ok (se_Junk se) (HttpConn e c (Some w'))"
    using upgraded(3) by (auto simp: next_ok_def split: option.splits)
  then show ?thesis
    using list_inv_replace [OF assms(2) upgraded(2)] upgraded(1) by simp
next
  case (ws xs h w ys w')
  have "next_ok (se_Junk se) (WsConn h w')"
    by (simp add: next_ok_def)
  then show ?thesis
    using list_inv_replace [OF assms(2) ws(2)] ws(1) by simp
qed (auto intro: handle_event_list)

lemma list_inv_running:
  "list_inv junk s \<Longrightarrow> list_inv junk ((RestartTimer (RestartAccept se (s\<lparr>sv_IsRunning := True\<rparr>)))\<lparr>sv_RunTh := True\<rparr>)"
  using RestartAccept_list [of junk "s\<lparr>sv_IsRunning := True\<rparr>" se] by (simp add: list_inv_def)

lemma Run_list:
  assumes "Run se (server_init\<lparr>sv_MyConnF := f, sv_MyRespSource := r, sv_MyLog := l, sv_MyName := n, sv_ConnConf := cf, sv_FUConf := fu,
    sv_CorsRS := b\<rparr>) = Some (True, s)"
  shows "list_inv (se_Junk se) s"
proof -
  let ?s = "server_init\<lparr>sv_MyConnF := f, sv_MyRespSource := r, sv_MyLog := l, sv_MyName := n, sv_ConnConf := cf, sv_FUConf := fu, sv_CorsRS := b\<rparr>"
  have "s = (RestartTimer (RestartAccept se (?s\<lparr>sv_IsRunning := True\<rparr>)))\<lparr>sv_RunTh := True\<rparr>"
    using assms unfolding Run_def by (simp add: Option.bind_eq_Some_conv split: if_splits)
  moreover have "list_inv (se_Junk se) ?s"
    by (simp add: list_inv_def server_init_def)
  ultimately show ?thesis
    using list_inv_running by metis
qed

lemma server_reach_list: "server_reach se s \<Longrightarrow> list_inv (se_Junk se) s"
  by (induction rule: server_reach.induct) (auto intro: Run_list server_step_list)

text \<open>C31: a WebSocket connection takes over. The successor that an HTTP connection created when it was upgraded
  lives on beside it, and at the next step of the timer after the coroutine has ended the HTTP connection is
  removed from the list and the successor is in it, behind all kept connections, as the connection of the
  handler the response named, and in the state it has reached by then from that of a new WebSocket
  connection; every other connection keeps its place.\<close>

theorem websocket_takes_over:
  assumes "server_reach se s" "sv_ConnLst s = xs @ HttpConn e c nx # ys" "cn_NextConn c = Some h" "cn_IsDeletable c"
    "cc_MaxSilentTime (ce_Conf e) + 1 < U32"
  shows "\<exists>w. nx = Some w \<and> (ws_step (se_Junk se))\<^sup>*\<^sup>* (ws_init (se_Junk se)) w \<and>
    sv_ConnLst (OnTimer False s) = survivors tick (xs @ ys) @ successors tick xs @ WsConn h w # successors tick ys"
proof -
  have i: "sv_BaseRespCount s < U32" "next_ok (se_Junk se) (HttpConn e c nx)"
    using server_reach_list [OF assms(1)] assms(2) by (simp_all add: list_inv_def)
  then obtain w where w: "nx = Some w" "(ws_step (se_Junk se))\<^sup>*\<^sup>* (ws_init (se_Junk se)) w"
    using assms(3) by (auto simp: next_ok_def)
  have "tick (HttpConn e c nx) = ((False, Some (WsConn h w)),
      HttpConn e (c\<lparr>cn_NextConn := None, cn_SilentTime := cc_MaxSilentTime (ce_Conf e) + 1, cn_Open := False\<rparr>) None)"
    using HttpOnStep_successor [OF assms(3,4), of StepDurationSeconds "ce_Conf e"] assms(5) w(1)
    by (simp add: conn_step_def StepDurationSeconds_def)
  then show ?thesis
    using assms(2) i(1) w by (simp add: OnTimer_spec timer_lists_append timer_lists_Cons)
qed

text \<open>A server with one client that asks for the upgrade.\<close>

definition upgrade_server_env :: server_env where
  "upgrade_server_env = \<lparr>se_Filter = \<lambda>_ _. True, se_Source = \<lambda>_. ce_Create ws_env_http, se_Conn = \<lambda>_. ws_env_http,
     se_Input = \<lambda>_. [request_text plain_char sample_upgrade], se_Junk = \<lambda>_. 0\<rparr>"

lemma upgrade_server:
  "\<exists>s c. server_reach upgrade_server_env s \<and> sv_ConnLst s = [HttpConn ws_env_http c (Some (ws_init (\<lambda>_. 0)))]
    \<and> cn_NextConn c = Some 7 \<and> cn_IsDeletable c"
proof -
  let ?se = upgrade_server_env and ?t = "request_text plain_char sample_upgrade"
  let ?set = "server_init\<lparr>sv_MyConnF := None, sv_MyRespSource := Some 3, sv_MyLog := None, sv_MyName := ''S'',
      sv_ConnConf := default_config, sv_FUConf := (0, 0), sv_CorsRS := False\<rparr>"
  obtain s0 where s0: "Run ?se ?set = Some (True, s0)"
    by (simp add: Run_def server_init_def)
  let ?c = "conn_init ws_env_http (upload_init 0 0) 0 [?t]"
  have env: "ws_env_http\<lparr>ce_CORS := False, ce_ServerName := ''S'', ce_Conf := default_config\<rparr> = ws_env_http"
      "ws_env_http\<lparr>ce_Create := ce_Create ws_env_http\<rparr> = ws_env_http" "ce_Counter ws_env_http = 0"
    by (simp_all add: ws_env_http_def sample_env_def)
  have f: "sv_NextConn s0 = Some (ws_env_http, ?c)" "sv_ConnLst s0 = []" "sv_MyConnF s0 = None" "sv_MyRespSource s0 = Some 3" "sv_Accepting s0"
    using s0 env(1,3) by (auto simp: Run_def server_init_def RestartAccept_def RestartTimer_def Let_def new_connection_def upgrade_server_env_def)
  have r0: "server_reach ?se s0"
    using s0 by (rule server_reach.start)
  obtain s1 where s1: "OnAccept ?se (Some (V4 1)) s0 = Some s1"
    using OnAccept_defined(1) [of s0 ?se 1] f(1) by auto
  have l1: "sv_ConnLst s1 = [HttpConn ws_env_http (StartConnection ?c) None]"
    using OnAccept_admitted [OF s1] f env(2) by (auto simp: conn_allowed_def source_create_def upgrade_server_env_def)
  have r1: "server_reach ?se s1"
    using r0 by (rule server_reach.step) (rule server_step.handler [of "Accepted (V4 1)"], use f(5) s1 in simp_all)
  have B: "between (?t @ []) (StartConnection ?c)"
  proof -
    have "[] \<notin> set [?t]" "length (concat [?t]) \<le> HTTP_ReadBuffSize"
      by (simp_all add: request_text_def request_line_def sample_upgrade_def CRLF_def fm_text_def header_line_def HTTP_ReadBuffSize_def)
    from between_init [OF this, of ws_env_http "upload_init 0 0" 0] show ?thesis
      by (simp add: between_def StartConnection_def)
  qed
  have w: "\<forall>n. ce_WriteOk ws_env_http n" "ce_Fuel ws_env_http \<noteq> 0" "\<forall>n rq. ce_Create ws_env_http n rq = fst (WS_Create sample_ws rq)"
    by (simp_all add: ws_env_http_def sample_env_def)
  have r: "request_ok plain_char sample_upgrade" "hr_Method sample_upgrade = ''GET''"
    by (simp_all add: request_ok_def sample_upgrade_def plain_char_def fm_line_ok_def value_ok_def)
  have h: "\<forall>q. we_CreateMsgHandler sample_ws (hr_Path sample_upgrade) q [''chat'', ''echo''] (ws_origin (map line_header (hr_Headers sample_upgrade)))
      = (Some 7, [''echo''])" "we_sha1 sample_ws x \<noteq> []" for x
    by (simp_all add: sample_ws_def Echo_CreateMsgHandler_def)
  obtain c' where c': "protocol_loop ws_env_http 1 (StartConnection ?c) = Ret () c'" "cn_NextConn c' = Some 7"
    using upgrade_served [OF w r sample_upgrade_ok h B sample_accept_head, of 0] unfolding One_nat_def by blast
  let ?d = "c'\<lparr>cn_Open := False, cn_IsDeletable := True\<rparr>"
  have P: "ProtocolHandler ws_env_http 1 (StartConnection ?c) = Some ?d"
    using c'(1) by (simp add: ProtocolHandler_def del: protocol_loop.simps)
  have "server_step ?se s1 (s1\<lparr>sv_ConnLst := [] @ HttpConn ws_env_http ?d (Upgrade (se_Junk ?se) ?d) # []\<rparr>)"
    by (rule server_step.http [OF _ _ P]) (use l1 in \<open>simp_all add: StartConnection_def\<close>)
  with r1 have "server_reach ?se (s1\<lparr>sv_ConnLst := [HttpConn ws_env_http ?d (Some (ws_init (\<lambda>_. 0)))]\<rparr>)"
    using c'(2) by (auto intro: server_reach.step simp: Upgrade_def upgrade_server_env_def)
  then show ?thesis
    using c'(2) by (intro exI [of _ "s1\<lparr>sv_ConnLst := [HttpConn ws_env_http ?d (Some (ws_init (\<lambda>_. 0)))]\<rparr>"] exI [of _ ?d]) simp
qed

theorem websocket_takes_over_witness:
  "\<exists>s. server_reach upgrade_server_env s \<and> sv_ConnLst (OnTimer False s) = [WsConn 7 (ws_init (\<lambda>_. 0))]"
proof -
  obtain s c where s: "server_reach upgrade_server_env s" "sv_ConnLst s = [] @ HttpConn ws_env_http c (Some (ws_init (\<lambda>_. 0))) # []"
      "cn_NextConn c = Some 7" "cn_IsDeletable c"
    using upgrade_server by auto
  have "cc_MaxSilentTime (ce_Conf ws_env_http) + 1 < U32"
    by (simp add: ws_env_http_def sample_env_def default_config_def)
  from websocket_takes_over [OF s this] show ?thesis
    using s(1) by (auto simp: timer_lists_Cons)
qed

section \<open>Idle connections\<close>

text \<open>What still happens to a connection when its socket has been closed: the coroutine of an HTTP connection that
  waits for a request ends, and the outstanding write and read of a WebSocket connection complete with an error.\<close>

definition after_close :: "(nat \<Rightarrow> byte) \<Rightarrow> connection \<Rightarrow> connection" where
  "after_close junk x = (case x of
      HttpConn e c nx \<Rightarrow>
        if cn_Open c \<or> cn_IsDeletable c then x
        else (case ProtocolHandler e 1 c of None \<Rightarrow> x | Some c' \<Rightarrow> HttpConn e c' (Upgrade junk c'))
    | WsConn h w \<Rightarrow>
        if SockClose \<notin> set (ws_Calls w) then x
        else let w1 = (if IsSafeState SAFE_WRITE w then w else OnWrite True w)
             in (if IsSafeState SAFE_READ w1 then WsConn h w1 else (case OnRead junk None w1 of None \<Rightarrow> x | Some w2 \<Rightarrow> WsConn h w2)))"

text \<open>A second in which no client sends anything.\<close>

definition silent_second :: "server_env \<Rightarrow> server \<Rightarrow> server" where
  "silent_second se s = (OnTimer False s)\<lparr>sv_ConnLst := map (after_close (se_Junk se)) (sv_ConnLst (OnTimer False s))\<rparr>"

text \<open>A connection that waits for its client, or has ended, and will be beyond its limit in \<open>n\<close> seconds.\<close>

definition safe_states :: "32 word set" where
  "safe_states = {0, SAFE_READ, SAFE_WRITE, SAFE_ALL}"

definition idle_for :: "nat \<Rightarrow> connection \<Rightarrow> bool" where
  "idle_for n x \<longleftrightarrow> (case x of
      HttpConn e c nx \<Rightarrow> cn_NextConn c = None \<and> (cn_IsDeletable c \<or> between [] c)
        \<and> cc_MaxSilentTime (ce_Conf e) < cn_SilentTime c + n \<and> cn_SilentTime c + n + 1 < U32
    | WsConn h w \<Rightarrow> ws_SafeStates w \<in> safe_states \<and> MaxSilentTime < ws_SilentTime w + n \<and> ws_SilentTime w + n + 1 < U32)"

text \<open>It is gone after \<open>k + 1\<close> seconds: one that still waits is closed one second before.\<close>

definition fading :: "nat \<Rightarrow> connection \<Rightarrow> bool" where
  "fading k x \<longleftrightarrow> (case x of
      HttpConn e c nx \<Rightarrow> cn_NextConn c = None \<and> cn_SilentTime c + k + 1 < U32
        \<and> (if cn_IsDeletable c then cc_MaxSilentTime (ce_Conf e) < cn_SilentTime c + k + 1
           else between [] c \<and> 0 < k \<and> cc_MaxSilentTime (ce_Conf e) < cn_SilentTime c + k)
    | WsConn h w \<Rightarrow> ws_SafeStates w \<in> safe_states \<and> ws_SilentTime w + k + 1 < U32
        \<and> (ws_SafeStates w = SAFE_ALL \<and> MaxSilentTime < ws_SilentTime w + k + 1 \<or> 0 < k \<and> MaxSilentTime < ws_SilentTime w + k))"

lemma idle_fading: "idle_for n x \<Longrightarrow> 0 < n \<Longrightarrow> fading n x"
  by (auto simp: idle_for_def fading_def split: connection.splits)

text \<open>The coroutine of an HTTP connection without a request.\<close>

lemma waiting_ends:
  assumes "between [] c" "cn_NextConn c = None"
  shows "\<exists>c'. ProtocolHandler e 1 c = Some c' \<and> cn_IsDeletable c' \<and> cn_NextConn c' = None \<and> cn_SilentTime c' = cn_SilentTime c"
proof -
  let ?c = "ResetRequestData e c"
  have "between [] ?c"
    by (rule ResetRequestData_keeps(1) [OF assms(1)])
  from HeaderHandler_end [OF this] have "protocol_loop e 1 c = Throw ?c \<or> protocol_loop e 1 c = Ret () ?c"
    unfolding One_nat_def by auto
  then show ?thesis
    using assms(2) by (auto simp: ProtocolHandler_def ResetRequestData_def simp del: protocol_loop.simps)
qed

lemma errors_complete:
  assumes "ws_SafeStates w \<in> safe_states" "SockClose \<in> set (ws_Calls w)"
  shows "\<exists>w'. after_close junk (WsConn h w) = WsConn h w' \<and> ws_SafeStates w' = SAFE_ALL \<and> ws_SilentTime w' = ws_SilentTime w
    \<and> (ws_step junk)\<^sup>*\<^sup>* w w'"
proof -
  let ?w1 = "if IsSafeState SAFE_WRITE w then w else OnWrite True w"
  let ?w2 = "if IsSafeState SAFE_READ ?w1 then ?w1 else close_handler (cr_code CR_CONN_ERROR) (SetSafeState SAFE_READ ?w1)"
  have "after_close junk (WsConn h w) = WsConn h ?w2"
    using assms(2) by (simp add: after_close_def Let_def OnRead.simps(2))
  moreover have "ws_SafeStates ?w2 = SAFE_ALL \<and> ws_SilentTime ?w2 = ws_SilentTime w"
    using assms(1)
    by (auto simp: safe_states_def IsSafeState_def OnWrite_def SetSafeState_def close_handler_def ws_call_def SAFE_READ_def SAFE_WRITE_def SAFE_ALL_def Let_def)
  moreover have "(ws_step junk)\<^sup>*\<^sup>* w ?w1"
    using ws_step.written [of junk w True] by (auto intro: r_into_rtranclp)
  moreover have "(ws_step junk)\<^sup>*\<^sup>* ?w1 ?w2"
    using ws_step.read [OF OnRead.simps(2), of junk] by (auto intro: r_into_rtranclp)
  ultimately show ?thesis
    by (intro exI [of _ ?w2]) (blast intro: rtranclp_trans)
qed

lemma OnStep_facts:
  "ws_SafeStates (snd (OnStep d w)) = ws_SafeStates w" "ws_SilentTime (snd (OnStep d w)) = u32_add (ws_SilentTime w) d"
  "u32_add (ws_SilentTime w) d > MaxSilentTime \<Longrightarrow> fst (OnStep d w) = (ws_SafeStates w \<noteq> SAFE_ALL) \<and> SockClose \<in> set (ws_Calls (snd (OnStep d w)))"
  by (simp_all add: OnStep_def Let_def close_handler_def ws_call_def)

text \<open>One second.\<close>

lemma fading_http:
  assumes "fading k (HttpConn e c nx)"
  shows "snd (fst (tick (HttpConn e c nx))) = None"
    "fst (fst (tick (HttpConn e c nx))) \<Longrightarrow> 0 < k \<and> fading (k - 1) (after_close junk (snd (tick (HttpConn e c nx))))"
proof -
  let ?t = "cn_SilentTime c + 1" and ?M = "cc_MaxSilentTime (ce_Conf e)"
  have nx: "cn_NextConn c = None" "?t < U32"
    using assms by (simp_all add: fading_def)
  then have t: "u32_add (cn_SilentTime c) 1 = ?t"
    by (simp add: u32_simps)
  let ?c = "c\<lparr>cn_SilentTime := ?t, cn_Open := (cn_Open c \<and> ?t \<le> ?M)\<rparr>"
  have T: "tick (HttpConn e c nx) = ((\<not> (?t > ?M \<and> cn_IsDeletable c), None), HttpConn e ?c nx)"
    using nx(1) t by (auto simp: conn_step_def HttpOnStep_def StepDurationSeconds_def Let_def)
  then show "snd (fst (tick (HttpConn e c nx))) = None" by simp
  assume kept: "fst (fst (tick (HttpConn e c nx)))"
  show "0 < k \<and> fading (k - 1) (after_close junk (snd (tick (HttpConn e c nx))))"
  proof (cases "cn_IsDeletable c")
    case True
    then have "?t \<le> ?M" "?M < cn_SilentTime c + k + 1"
      using kept T assms by (simp_all add: fading_def)
    then show ?thesis
      using T True nx(1) assms by (auto simp: after_close_def fading_def)
  next
    case False
    then have f: "between [] c" "0 < k" "?M < cn_SilentTime c + k" "cn_SilentTime c + k + 1 < U32"
      using assms by (simp_all add: fading_def)
    then have B: "between [] ?c"
      by (simp add: between_def)
    show ?thesis
    proof (cases "cn_Open ?c")
      case True
      then have "after_close junk (HttpConn e ?c nx) = HttpConn e ?c nx" "?t \<le> ?M"
        by (simp_all add: after_close_def)
      moreover from this(2) f(3) have "1 < k" by linarith
      ultimately show ?thesis
        unfolding T snd_conv using False f B nx(1) by (simp add: fading_def)
    next
      case closed: False
      obtain c' where c': "ProtocolHandler e 1 ?c = Some c'" "cn_IsDeletable c'" "cn_NextConn c' = None" "cn_SilentTime c' = ?t"
        using waiting_ends [OF B, of e] nx(1) by auto
      have "after_close junk (HttpConn e ?c nx) = HttpConn e c' None"
        using closed False c'(1,3) by (auto simp: after_close_def Upgrade_def)
      then show ?thesis
        unfolding T snd_conv using f c' by (simp add: fading_def)
    qed
  qed
qed

lemma fading_ws:
  assumes "fading k (WsConn h w)"
  shows "snd (fst (tick (WsConn h w))) = None"
    "fst (fst (tick (WsConn h w))) \<Longrightarrow> 0 < k \<and> fading (k - 1) (after_close junk (snd (tick (WsConn h w))))"
proof -
  let ?w = "snd (OnStep 1 w)" and ?t = "ws_SilentTime w + 1"
  have t: "u32_add (ws_SilentTime w) 1 = ?t"
    using assms by (simp add: fading_def u32_simps)
  have T: "tick (WsConn h w) = ((fst (OnStep 1 w), None), WsConn h ?w)"
    by (simp add: conn_step_def StepDurationSeconds_def split: prod.split)
  then show "snd (fst (tick (WsConn h w))) = None" by simp
  assume kept: "fst (fst (tick (WsConn h w)))"
  have f: "ws_SafeStates ?w \<in> safe_states" "ws_SafeStates ?w = ws_SafeStates w" "ws_SilentTime ?w = ?t"
      "ws_SilentTime w + k + 1 < U32" "ws_SafeStates w = SAFE_ALL \<and> MaxSilentTime < ws_SilentTime w + k + 1 \<or> 0 < k \<and> MaxSilentTime < ws_SilentTime w + k"
    using assms OnStep_facts(1,2) [of 1 w] t by (simp_all add: fading_def)
  have late: "ws_SafeStates w \<noteq> SAFE_ALL \<and> SockClose \<in> set (ws_Calls ?w)" if "?t > MaxSilentTime"
    using OnStep_facts(3) [of w 1] that kept unfolding T t by simp
  have k: "0 < k"
    using f(5) late by (cases "?t > MaxSilentTime") auto
  show "0 < k \<and> fading (k - 1) (after_close junk (snd (tick (WsConn h w))))"
  proof (cases "SockClose \<in> set (ws_Calls ?w)")
    case True
    obtain w' where "after_close junk (WsConn h ?w) = WsConn h w'" "ws_SafeStates w' = SAFE_ALL" "ws_SilentTime w' = ?t"
      using errors_complete [OF f(1) True, of junk h] f(3) by auto
    moreover have "SAFE_ALL \<in> safe_states"
      by (simp add: safe_states_def)
    moreover have "MaxSilentTime < ?t + (k - 1) + 1"
      using f(5) k by auto
    ultimately show ?thesis
      unfolding T snd_conv using k f(4) by (simp add: fading_def)
  next
    case False
    have "?t \<le> MaxSilentTime"
      by (rule ccontr) (use late False in simp)
    moreover have "after_close junk (WsConn h ?w) = WsConn h ?w"
      using False by (simp add: after_close_def)
    moreover have "ws_SafeStates w = SAFE_ALL \<and> MaxSilentTime < ?t + (k - 1) + 1 \<or> 0 < k - 1 \<and> MaxSilentTime < ?t + (k - 1)"
      using f(5) k \<open>?t \<le> MaxSilentTime\<close> by auto
    ultimately show ?thesis
      unfolding T snd_conv using k f by (simp add: fading_def)
  qed
qed

lemma fading_second:
  assumes "\<forall>x \<in> set xs. fading k x"
  shows "successors tick xs = []" "\<forall>x \<in> set (map (after_close junk) (survivors tick xs)). fading (k - 1) x" "k = 0 \<Longrightarrow> survivors tick xs = []"
proof -
  have one: "snd (fst (tick x)) = None" "fst (fst (tick x)) \<Longrightarrow> 0 < k \<and> fading (k - 1) (after_close junk (snd (tick x)))" if "fading k x" for x
    using that fading_http [of k] fading_ws [of k] by (cases x; simp)+
  show "successors tick xs = []" "\<forall>x \<in> set (map (after_close junk) (survivors tick xs)). fading (k - 1) x"
    using assms by (induction xs) (auto simp: timer_lists_Cons one(1) dest: one(2))
  have "\<not> fst (fst (tick x))" if "fading k x" "k = 0" for x
    using one(2) that by blast
  then show "k = 0 \<Longrightarrow> survivors tick xs = []"
    using assms by (induction xs) (auto simp: timer_lists_Cons)
qed

lemma idle_drains:
  "\<forall>x \<in> set (sv_ConnLst s). fading k x \<Longrightarrow> sv_BaseRespCount s < U32 \<Longrightarrow> sv_ConnLst (((silent_second se) ^^ Suc k) s) = []"
proof (induction k arbitrary: s)
  case 0
  then show ?case
    using fading_second [of "sv_ConnLst s" 0] by (simp add: silent_second_def OnTimer_spec)
next
  case (Suc k)
  have "\<forall>x \<in> set (sv_ConnLst (silent_second se s)). fading k x" "sv_BaseRespCount (silent_second se s) < U32"
    using Suc.prems fading_second(1) [OF Suc.prems(1)] fading_second(2) [OF Suc.prems(1), of "se_Junk se"]
    by (simp_all add: silent_second_def OnTimer_spec)
  then show ?case
    using Suc.IH [of "silent_second se s"] unfolding funpow_Suc_right [of "Suc k"] o_apply by blast
qed

text \<open>A silent second is a run of the server.\<close>

definition closes :: "(nat \<Rightarrow> byte) \<Rightarrow> connection \<Rightarrow> bool" where
  "closes junk x \<longleftrightarrow> (case x of HttpConn e c nx \<Rightarrow> True | WsConn h w \<Rightarrow> ws_SafeStates w \<in> safe_states)"

lemma ws_steps_run:
  "(ws_step (se_Junk se))\<^sup>*\<^sup>* w w' \<Longrightarrow> (server_step se)\<^sup>*\<^sup>* (s\<lparr>sv_ConnLst := xs @ WsConn h w # ys\<rparr>) (s\<lparr>sv_ConnLst := xs @ WsConn h w' # ys\<rparr>)"
proof (induction rule: rtranclp_induct)
  case (step w1 w2)
  have "server_step se (s\<lparr>sv_ConnLst := xs @ WsConn h w1 # ys\<rparr>) ((s\<lparr>sv_ConnLst := xs @ WsConn h w1 # ys\<rparr>)\<lparr>sv_ConnLst := xs @ WsConn h w2 # ys\<rparr>)"
    by (rule server_step.ws [OF _ step(2)]) simp
  with step.IH show ?case
    by (auto intro: rtranclp.rtrancl_into_rtrancl)
qed simp

lemma after_close_run:
  assumes "closes (se_Junk se) x"
  shows "(server_step se)\<^sup>*\<^sup>* (s\<lparr>sv_ConnLst := xs @ x # ys\<rparr>) (s\<lparr>sv_ConnLst := xs @ after_close (se_Junk se) x # ys\<rparr>)"
proof (cases x)
  case (HttpConn e c nx)
  show ?thesis
  proof (cases "cn_Open c \<or> cn_IsDeletable c \<or> ProtocolHandler e 1 c = None")
    case False
    then obtain c' where c': "ProtocolHandler e 1 c = Some c'" "\<not> cn_IsDeletable c" "\<not> cn_Open c" by auto
    have "server_step se (s\<lparr>sv_ConnLst := xs @ x # ys\<rparr>) ((s\<lparr>sv_ConnLst := xs @ x # ys\<rparr>)\<lparr>sv_ConnLst := xs @ HttpConn e c' (Upgrade (se_Junk se) c') # ys\<rparr>)"
      by (rule server_step.http [OF _ c'(2,1)]) (simp add: HttpConn)
    then show ?thesis
      using c' by (simp add: after_close_def HttpConn r_into_rtranclp)
  qed (auto simp: after_close_def HttpConn)
next
  case (WsConn h w)
  show ?thesis
  proof (cases "SockClose \<in> set (ws_Calls w)")
    case True
    have "ws_SafeStates w \<in> safe_states"
      using assms by (simp add: closes_def WsConn)
    from errors_complete [OF this True, of "se_Junk se" h] show ?thesis
      unfolding WsConn using ws_steps_run by auto
  qed (simp add: after_close_def WsConn)
qed

lemma after_closes_run:
  "\<forall>x \<in> set ys. closes (se_Junk se) x \<Longrightarrow> (server_step se)\<^sup>*\<^sup>* (s\<lparr>sv_ConnLst := xs @ ys\<rparr>) (s\<lparr>sv_ConnLst := xs @ map (after_close (se_Junk se)) ys\<rparr>)"
proof (induction ys arbitrary: xs)
  case (Cons y ys)
  have "(server_step se)\<^sup>*\<^sup>* (s\<lparr>sv_ConnLst := xs @ y # ys\<rparr>) (s\<lparr>sv_ConnLst := xs @ after_close (se_Junk se) y # ys\<rparr>)"
    by (rule after_close_run) (use Cons.prems in simp)
  moreover have "(server_step se)\<^sup>*\<^sup>* (s\<lparr>sv_ConnLst := (xs @ [after_close (se_Junk se) y]) @ ys\<rparr>)
      (s\<lparr>sv_ConnLst := (xs @ [after_close (se_Junk se) y]) @ map (after_close (se_Junk se)) ys\<rparr>)"
    by (rule Cons.IH) (use Cons.prems in simp)
  ultimately show ?case by simp
qed simp

lemma silent_second_run:
  assumes "sv_IsRunning s" "sv_Waiting s" "sv_BaseRespCount s < U32" "\<forall>x \<in> set (sv_ConnLst s). fading k x"
  shows "(server_step se)\<^sup>*\<^sup>* s (silent_second se s)" "sv_IsRunning (silent_second se s)" "sv_Waiting (silent_second se s)"
    "sv_BaseRespCount (silent_second se s) < U32" "\<forall>x \<in> set (sv_ConnLst (silent_second se s)). fading (k - 1) x"
proof -
  have T: "server_step se s (OnTimer False s)"
    by (rule server_step.handler [of "Timer False"]) (use assms(1,2) in simp_all)
  note F = fading_second [OF assms(4)]
  have closes: "closes (se_Junk se) (snd (tick x))" if "fading k x" for x
    using that by (cases x) (simp_all add: closes_def conn_step_def fading_def case_prod_unfold OnStep_facts(1))
  then have "\<forall>x \<in> set (sv_ConnLst (OnTimer False s)). closes (se_Junk se) x"
    using assms(3,4) F(1) by (auto simp: OnTimer_spec survivors_def)
  from after_closes_run [OF this, where s = "OnTimer False s" and xs = "[]"] T show "(server_step se)\<^sup>*\<^sup>* s (silent_second se s)"
    by (simp add: silent_second_def converse_rtranclp_into_rtranclp)
  show "sv_IsRunning (silent_second se s)" "sv_Waiting (silent_second se s)" "sv_BaseRespCount (silent_second se s) < U32"
      "\<forall>x \<in> set (sv_ConnLst (silent_second se s)). fading (k - 1) x"
    using assms F by (simp_all add: silent_second_def OnTimer_spec RestartTimer_def)
qed

lemma silent_seconds_run:
  "sv_IsRunning s \<Longrightarrow> sv_Waiting s \<Longrightarrow> sv_BaseRespCount s < U32 \<Longrightarrow> \<forall>x \<in> set (sv_ConnLst s). fading k x \<Longrightarrow>
    (server_step se)\<^sup>*\<^sup>* s (((silent_second se) ^^ n) s)"
proof (induction n arbitrary: s k)
  case (Suc n)
  note R = silent_second_run [OF Suc.prems, of se]
  from Suc.IH [OF R(2-5)] R(1) show ?case
    unfolding funpow_Suc_right o_apply by (blast intro: rtranclp_trans)
qed simp

text \<open>C33: idle clients are let go. In a reachable state of a running server let every connection be an HTTP
  connection that waits for its client or has ended without a successor, or a WebSocket connection, and
  let each be beyond its limit within \<open>n\<close> seconds. If no client sends anything the list is empty
  one second after that: an ended connection goes at its limit, one that still waits is closed there, its
  outstanding operations end with an error, and it goes a second later. The seconds are a run of the server.\<close>

theorem idle_connections_removed:
  assumes "server_reach se s" "sv_IsRunning s" "\<forall>x \<in> set (sv_ConnLst s). idle_for n x" "0 < n"
  shows "sv_ConnLst (((silent_second se) ^^ Suc n) s) = [] \<and> (server_step se)\<^sup>*\<^sup>* s (((silent_second se) ^^ Suc n) s)"
proof -
  have i: "sv_Waiting s" "sv_BaseRespCount s < U32"
    using server_reach_inv [OF assms(1)] server_reach_list [OF assms(1)] assms(2) by (simp_all add: server_inv_def list_inv_def)
  have f: "\<forall>x \<in> set (sv_ConnLst s). fading n x"
    using assms(3,4) idle_fading by blast
  show ?thesis
    using idle_drains [OF f i(2)] silent_seconds_run [OF assms(2) i f] by blast
qed

text \<open>The sample server with a client that sends nothing.\<close>

definition silent_server_env :: server_env where
  "silent_server_env = sample_server_env\<lparr>se_Input := \<lambda>_. []\<rparr>"

lemma silent_client:
  "\<exists>s e. server_reach silent_server_env s \<and> sv_IsRunning s \<and> ce_Conf e = default_config
    \<and> sv_ConnLst s = [HttpConn e (StartConnection (conn_init sample_env (upload_init 0 0) 0 [])) None]"
proof -
  let ?se = silent_server_env and ?c = "conn_init sample_env (upload_init 0 0) 0 []"
  let ?set = "server_init\<lparr>sv_MyConnF := None, sv_MyRespSource := Some 3, sv_MyLog := None, sv_MyName := ''S'',
      sv_ConnConf := default_config, sv_FUConf := (0, 0), sv_CorsRS := False\<rparr>"
  obtain s0 where s0: "Run ?se ?set = Some (True, s0)"
    by (simp add: Run_def server_init_def)
  have env: "sample_env\<lparr>ce_CORS := False, ce_ServerName := ''S'', ce_Conf := default_config\<rparr> = sample_env" "ce_Counter sample_env = 0"
    by (simp_all add: sample_env_def)
  have f: "sv_NextConn s0 = Some (sample_env, ?c)" "sv_ConnLst s0 = []" "sv_MyConnF s0 = None" "sv_Accepting s0" "sv_IsRunning s0"
    using s0 env by (auto simp: Run_def server_init_def RestartAccept_def RestartTimer_def Let_def new_connection_def silent_server_env_def sample_server_env_def)
  have r0: "server_reach ?se s0"
    using s0 by (rule server_reach.start)
  obtain s1 where s1: "OnAccept ?se (Some (V4 1)) s0 = Some s1"
    using OnAccept_defined(1) [of s0 ?se 1] f(1) by auto
  have "server_reach ?se s1"
    using r0 by (rule server_reach.step) (rule server_step.handler [of "Accepted (V4 1)"], use f(4) s1 in simp_all)
  moreover have "sv_ConnLst s1 = [HttpConn (sample_env\<lparr>ce_Create := source_create ?se (sv_MyRespSource s0)\<rparr>) (StartConnection ?c) None]" "sv_IsRunning s1"
    using OnAccept_admitted [OF s1] f by (auto simp: conn_allowed_def)
  moreover have "ce_Conf (sample_env\<lparr>ce_Create := source_create ?se (sv_MyRespSource s0)\<rparr>) = default_config"
    by (simp add: sample_env_def)
  ultimately show ?thesis by blast
qed

theorem idle_connections_removed_witness:
  "\<exists>s x. server_reach silent_server_env s \<and> sv_ConnLst s = [x] \<and> sv_ConnLst (((silent_second silent_server_env) ^^ 32) s) = []"
proof -
  obtain s e where s: "server_reach silent_server_env s" "sv_IsRunning s" "ce_Conf e = default_config"
      "sv_ConnLst s = [HttpConn e (StartConnection (conn_init sample_env (upload_init 0 0) 0 [])) None]"
    using silent_client by blast
  have "between [] (StartConnection (conn_init sample_env (upload_init 0 0) 0 []))"
    using between_init [of "[]" sample_env "upload_init 0 0" 0] by (simp add: between_def StartConnection_def)
  then have "\<forall>x \<in> set (sv_ConnLst s). idle_for 31 x"
    by (simp add: s(3,4) idle_for_def) (simp add: StartConnection_def conn_init_def default_config_def)
  from idle_connections_removed [OF s(1,2) this] s(1,4) show ?thesis
    by (simp del: funpow.simps) blast
qed

end
