(* ===== verification/Application.thy ===== *)
theory Application
  imports CoroSource ZipSource ServerLogs HttpServer "HOL-Library.List_Lexorder" "HOL-Library.Char_ord"
begin

text \<open>
  The program around the library, MiniWebSrv.cpp: the source that echoes the parameters of a form, the
  coroutine of the test page, the routes of the site and the start of the server; and the two
  connection filters.
\<close>

section \<open>Connection filters\<close>

definition AllowAll :: "address \<Rightarrow> bool" where
  "AllowAll a = True"

text \<open>The filter with \<open>address::is_loopback\<close> of asio.\<close>

definition LoopbackOnly :: "(address \<Rightarrow> bool) \<Rightarrow> address \<Rightarrow> bool" where
  "LoopbackOnly is_loopback a = is_loopback a"

section \<open>The form test\<close>

text \<open>The state of the response is what its stream still has to give. \<open>Read\<close> reports the end when it has
  read something.\<close>

definition SStream_Read :: "string \<Rightarrow> nat \<Rightarrow> (string \<times> bool \<times> string) option" where
  "SStream_Read s maxLength = (let got = take maxLength s in Some (got, got \<noteq> [], drop maxLength s))"

definition SStreamResp :: "string \<Rightarrow> response" where
  "SStreamResp s = \<lparr>rp_ResponseCode = RC_OK, rp_ContentType = ''text/plain'', rp_Charset = Some ''utf-8'', rp_Length = length s,
     rp_ExtraHeaders = [], rp_Read = reader_of SStream_Read s, rp_Upgrade = None\<rparr>"

definition nl :: string where "nl = [CHR 0x0A]"

fun method_line :: "METHOD \<Rightarrow> string" where
  "method_line METHOD_GET = ''GET.'' @ nl"
| "method_line METHOD_POST = ''POST.'' @ nl"
| "method_line METHOD_HEAD = ''HEAD.'' @ nl"
| "method_line _ = ''(unknown).'' @ nl"

text \<open>The entries of a \<open>std::map\<close> in its order.\<close>

definition map_entries :: "(string \<rightharpoonup> 'a) \<Rightarrow> (string \<times> 'a) list" where
  "map_entries m = map (\<lambda>k. (k, the (m k))) (sorted_list_of_set (dom m))"

definition quoted :: "string \<Rightarrow> string" where
  "quoted s = [CHR 0x22] @ s @ [CHR 0x22]"

definition param_line :: "string \<times> string \<Rightarrow> string" where
  "param_line = (\<lambda>(k, v). k @ '': '' @ quoted v @ nl)"

definition file_line :: "string \<Rightarrow> uploaded_file \<Rightarrow> nat \<Rightarrow> string" where
  "file_line k f sz = k @ '': OrigFileName: '' @ quoted (uf_OrigFileName f) @ '', Path: '' @ quoted (uf_Path f) @ '', MimeType: ''
     @ quoted (uf_MimeType f) @ '', [Size]: '' @ dec sz @ nl"

text \<open>The lines of the files, or the exception of \<open>file_size\<close>.\<close>

fun file_lines :: "(string \<Rightarrow> (string \<times> string) + nat) \<Rightarrow> (string \<times> uploaded_file) list \<Rightarrow> (string \<times> string) + string" where
  "file_lines sizes [] = Inr []"
| "file_lines sizes ((k, f) # fs) =
     (case sizes (uf_Path f) of
        Inl e \<Rightarrow> Inl e
      | Inr sz \<Rightarrow> (case file_lines sizes fs of Inl e \<Rightarrow> Inl e | Inr s \<Rightarrow> Inr (file_line k f sz @ s)))"

text \<open>\<open>boost::filesystem::file_size\<close> of a temporary file of the request; \<open>err\<close> is the exception for one that is not there.\<close>

definition file_size :: "(string \<Rightarrow> string \<times> string) \<Rightarrow> (string \<rightharpoonup> string) \<Rightarrow> string \<Rightarrow> (string \<times> string) + nat" where
  "file_size err disk path = (case disk path of None \<Rightarrow> Inl (err path) | Some d \<Rightarrow> Inr (length d))"

definition FormTest_Create :: "(string \<Rightarrow> string \<times> string) \<Rightarrow> request \<Rightarrow> created" where
  "FormTest_Create err rq =
     (case file_lines (file_size err (up_Files (qp_Upload (rq_Query rq)))) (map_entries (qp_FileMap (rq_Query rq))) of
        Inl (t, m) \<Rightarrow> StdException t m
      | Inr fs \<Rightarrow> Created (SStreamResp (''Got method '' @ method_line (rq_Method rq) @ nl @ ''Params:'' @ nl
          @ concat (map param_line (map_entries (qp_ParamMap (rq_Query rq)))) @ nl @ ''Files:'' @ nl @ fs)))"

section \<open>The coroutine test\<close>

text \<open>The loop of the coroutine; the pauses between the writes are left out.\<close>

definition coro_test_step :: "nat \<Rightarrow> nat \<Rightarrow> (string \<times> nat) option" where
  "coro_test_step x maxLength =
     (let responseSize = 9; stepSize = 3
      in if x < responseSize then Some (seg ''abcdefghi'' x (min stepSize (responseSize - x)), x + stepSize) else None)"

definition coro_test :: "request \<Rightarrow> coro_params \<Rightarrow> coro_params \<times> coro" where
  "coro_test rq p =
     (AddResponseHeader ''X-Custom'' ''Custom header value'' (SetContentType ''text/plain'' (SetResponseCode 200 p)), coro_from coro_test_step 0)"

section \<open>The site\<close>

definition static_text :: string where
  "static_text = ''<h1>Static response, resource embedded in executable</h1>''"

text \<open>The routes, with the sources for the archive, the form test, the echo and the files.\<close>

definition site_routes :: "(request \<Rightarrow> created) \<Rightarrow> (request \<Rightarrow> created) \<Rightarrow> (request \<Rightarrow> created) \<Rightarrow> (request \<Rightarrow> created) \<Rightarrow> combiner" where
  "site_routes gallery formtest echo files =
     AddRedirect ''/'' ''/test.html'' True
      (AddRespSource [] files False
       (AddRespSource ''/corotest'' (make_coro_respsource coro_test) False
        (AddRespSource ''/static'' (Static_Create (StaticRespSource_view static_text ''text/html'' (Some ''utf-8'') RC_OK)) True
         (AddRespSource ''/echo'' echo False
          (AddRespSource ''/formtest'' formtest False
           (AddRespSource ''/gallery'' gallery False combiner_init))))))"

text \<open>\<open>main\<close> up to the start; 1 and 2 name the router and the log.\<close>

definition main_start :: "server_env \<Rightarrow> (bool \<times> server) option" where
  "main_start se = Run se (SetServerLog (Some 2) (SetResponseSource (Some 1) (SetName ''MiniWebServer/v0.2.0'' server_init)))"

text \<open>The signals and the console events: the program goes on, or not. The console handler also waits
  until \<open>main\<close> has ended.\<close>

datatype signal = SIGINT | SIGQUIT | OTHER_SIGNAL

definition SigHandler :: "signal \<Rightarrow> bool \<Rightarrow> bool" where
  "SigHandler sig isRunning = (if sig = SIGQUIT \<or> sig = SIGINT then False else isRunning)"

datatype console_event = CTRL_C_EVENT | CTRL_BREAK_EVENT | CTRL_CLOSE_EVENT | CTRL_LOGOFF_EVENT | CTRL_SHUTDOWN_EVENT

fun ConsoleCtrlHandler :: "console_event \<Rightarrow> bool \<Rightarrow> bool" where
  "ConsoleCtrlHandler CTRL_BREAK_EVENT isRunning = isRunning"
| "ConsoleCtrlHandler _ isRunning = False"

text \<open>The loop of \<open>main\<close>, with what arrives while it sleeps; the number of its rounds, or \<open>None\<close> if it is
  still running.\<close>

fun main_wait :: "bool \<Rightarrow> signal list list \<Rightarrow> nat option" where
  "main_wait False arriving = Some 0"
| "main_wait True [] = None"
| "main_wait True (sigs # arriving) = map_option Suc (main_wait (fold SigHandler sigs True) arriving)"

text \<open>The end of \<open>main\<close>: what it prints.\<close>

definition main_stop :: "server_env \<Rightarrow> server_event list \<Rightarrow> bool \<Rightarrow> server \<Rightarrow> (string \<times> server) option" where
  "main_stop se events inTime s =
     map_option (\<lambda>(ok, s'). (if ok then ''Stopped gracefully.'' else ''Stopped forcefully.'', s')) (StopServer se events inTime s)"

section \<open>Properties\<close>

lemma site_holders:
  "cb_HolderA (site_routes g f e fs) =
    [\<lparr>rh_Prefix = ''/gallery'', rh_RespSource = g, rh_ExactMatchOnly = False\<rparr>,
     \<lparr>rh_Prefix = ''/formtest'', rh_RespSource = f, rh_ExactMatchOnly = False\<rparr>,
     \<lparr>rh_Prefix = ''/echo'', rh_RespSource = e, rh_ExactMatchOnly = False\<rparr>,
     \<lparr>rh_Prefix = ''/static'', rh_RespSource = Static_Create (StaticRespSource_view static_text ''text/html'' (Some ''utf-8'') RC_OK), rh_ExactMatchOnly = True\<rparr>,
     \<lparr>rh_Prefix = ''/corotest'', rh_RespSource = make_coro_respsource coro_test, rh_ExactMatchOnly = False\<rparr>,
     \<lparr>rh_Prefix = [], rh_RespSource = fs, rh_ExactMatchOnly = False\<rparr>]"
  "cb_RewMap (site_routes g f e fs) = [''/'' \<mapsto> \<lparr>rw_Target = ''/test.html'', rw_IsRedirect = True, rw_IsPermanentRedirect = True\<rparr>]"
  by (simp_all add: site_routes_def AddRedirect_def AddRespSource_def combiner_init_def)

lemma site_first:
  assumes "rq_Resource rq \<noteq> ''/''" "cb_HolderA (site_routes g f e fs) = hs @ h # hs'" "\<forall>k \<in> set hs. \<forall>r. \<not> serves k (rq_Resource rq) r"
    "serves h (rq_Resource rq) rest"
  shows "Combiner_Create (site_routes g f e fs) rq = rh_RespSource h (rq\<lparr>rq_Resource := rest\<rparr>)"
  using combiner_loop_first [OF assms(3,4), of hs' rq] assms(1,2) by (simp add: Combiner_Create_def site_holders(2))

text \<open>The \<open>n\<close>-th source of the site.\<close>

lemma site_nth:
  "n < 6 \<Longrightarrow> cb_HolderA (site_routes g f e fs) =
    take n (cb_HolderA (site_routes g f e fs)) @ (cb_HolderA (site_routes g f e fs) ! n) # drop (Suc n) (cb_HolderA (site_routes g f e fs))"
  by (rule id_take_nth_drop) (simp add: site_holders)

lemmas site_source = site_first [OF _ site_nth]

text \<open>Note: the routes of the site. The archive, the form test and the echo get the requests below their
  names, with what follows the name; the static page is served for exactly its name; the root is
  redirected; everything else, below the static page's name too, goes to the files unchanged.\<close>

theorem site_routed:
  assumes "rest = [] \<or> hd rest = CHR ''/''"
  shows "(rq_Resource rq = ''/gallery'' @ rest \<longrightarrow> Combiner_Create (site_routes g f e fs) rq = g (rq\<lparr>rq_Resource := rest\<rparr>)) \<and>
    (rq_Resource rq = ''/formtest'' @ rest \<longrightarrow> Combiner_Create (site_routes g f e fs) rq = f (rq\<lparr>rq_Resource := rest\<rparr>)) \<and>
    (rq_Resource rq = ''/echo'' @ rest \<longrightarrow> Combiner_Create (site_routes g f e fs) rq = e (rq\<lparr>rq_Resource := rest\<rparr>)) \<and>
    (rq_Resource rq = ''/static'' \<longrightarrow> Combiner_Create (site_routes g f e fs) rq = Created (StringResponse static_text ''text/html'' (Some ''utf-8'') 200)) \<and>
    (rq_Resource rq = ''/static'' @ rest \<and> rest \<noteq> [] \<longrightarrow> Combiner_Create (site_routes g f e fs) rq = fs rq) \<and>
    (rq_Resource rq = ''/'' \<longrightarrow> Combiner_Create (site_routes g f e fs) rq = Created (RedirectResponse ''/test.html'' True))"
proof (intro conjI impI)
  assume r: "rq_Resource rq = ''/gallery'' @ rest"
  then show "Combiner_Create (site_routes g f e fs) rq = g (rq\<lparr>rq_Resource := rest\<rparr>)"
    using site_source [of rq 0 g f e fs rest] assms by (simp add: site_holders(1) serves_def)
next
  assume r: "rq_Resource rq = ''/formtest'' @ rest"
  then show "Combiner_Create (site_routes g f e fs) rq = f (rq\<lparr>rq_Resource := rest\<rparr>)"
    using site_source [of rq 1 g f e fs rest] assms by (simp add: site_holders(1) serves_def)
next
  assume r: "rq_Resource rq = ''/echo'' @ rest"
  then show "Combiner_Create (site_routes g f e fs) rq = e (rq\<lparr>rq_Resource := rest\<rparr>)"
    using site_source [of rq 2 g f e fs rest] assms by (simp add: site_holders(1) serves_def)
next
  assume r: "rq_Resource rq = ''/static''"
  then show "Combiner_Create (site_routes g f e fs) rq = Created (StringResponse static_text ''text/html'' (Some ''utf-8'') 200)"
    using site_source [of rq 3 g f e fs "[]"] by (simp add: site_holders(1) serves_def Static_Create_def StaticRespSource_view_def RC_OK_def)
next
  assume r: "rq_Resource rq = ''/static'' @ rest \<and> rest \<noteq> []"
  have "Combiner_Create (site_routes g f e fs) rq =
      rh_RespSource (cb_HolderA (site_routes g f e fs) ! 5) (rq\<lparr>rq_Resource := rq_Resource rq\<rparr>)"
    by (rule site_source) (use r assms in \<open>auto simp: site_holders(1) serves_def\<close>)
  then show "Combiner_Create (site_routes g f e fs) rq = fs rq"
    by (simp add: site_holders(1))
next
  assume "rq_Resource rq = ''/''"
  then show "Combiner_Create (site_routes g f e fs) rq = Created (RedirectResponse ''/test.html'' True)"
    by (simp add: Combiner_Create_def site_holders(2))
qed

definition sample_page_request :: "string \<Rightarrow> request" where
  "sample_page_request res = \<lparr>rq_Method = METHOD_GET, rq_Resource = res, rq_Query = qp_init 0 (upload_init 0 0), rq_HeaderA = [], rq_Content = None\<rparr>"

theorem site_routed_witness:
  "Combiner_Create (site_routes (\<lambda>_. CreatedNull) (\<lambda>_. CreatedNull) (\<lambda>rq. StdException (rq_Resource rq) []) (\<lambda>_. OtherException)) (sample_page_request ''/echo/x'')
    = StdException ''/x'' []"
  using site_routed [of "''/x''" "sample_page_request ''/echo/x''" "\<lambda>_. CreatedNull" "\<lambda>_. CreatedNull" "\<lambda>rq. StdException (rq_Resource rq) []" "\<lambda>_. OtherException"]
  by (simp add: sample_page_request_def)

text \<open>The test of the coroutine.\<close>

lemma coro_test_step_at:
  "coro_test_step 0 m = Some (''abc'', 3)" "coro_test_step 3 m = Some (''def'', 6)" "coro_test_step 6 m = Some (''ghi'', 9)" "coro_test_step 9 m = None"
  by (simp_all add: coro_test_step_def seg_def)

lemma coro_test_reads:
  "Coro_Read (Some (coro_from coro_test_step 0)) m = Some (''abc'', False, Some (coro_from coro_test_step 3))"
  "Coro_Read (Some (coro_from coro_test_step 3)) m = Some (''def'', False, Some (coro_from coro_test_step 6))"
  "Coro_Read (Some (coro_from coro_test_step 6)) m = Some (''ghi'', False, Some (coro_from coro_test_step 9))"
  "Coro_Read (Some (coro_from coro_test_step 9)) m = Some ([], True, None)"
  by (simp_all add: Coro_Read_def coro_test_step_at)

text \<open>Note: the test page of the coroutine is sent as three chunks and the final one, with its own header and
  status 200.\<close>

theorem coro_test_sent:
  assumes "4 \<le> ce_Fuel env"
  shows "\<exists>r. make_coro_respsource coro_test rq = Created r \<and> rp_ResponseCode r = 200
    \<and> rp_ExtraHeaders r = [Some (''X-Custom'', ''Custom header value'')]
    \<and> response_wire env count cors r
      = Some (head_text env count cors r @ chunk ''abc'' @ chunk ''def'' @ chunk ''ghi'' @ final_chunk)"
proof -
  have "ce_Fuel env = Suc (Suc (Suc (Suc (ce_Fuel env - 4))))"
    using assms by simp
  moreover define k where "k = ce_Fuel env - 4"
  ultimately have "ce_Fuel env = Suc (Suc (Suc (Suc k)))" by simp
  then have "chunk_parts (ce_Fuel env) (reader_of Coro_Read (Some (coro_from coro_test_step 0))) = Some [''abc'', ''def'', ''ghi'']"
    by (simp add: coro_test_reads HTTP_WriteBuffSize_def ChunkHeaderLen_def ChunkFooterLength_def)
  then show ?thesis
    by (simp add: make_coro_respsource_def Generic_Create_def CoroResponse_def coro_test_def SimpleResponse_def response_wire_def
        SetResponseCode_def SetContentType_def AddResponseHeader_def coro_params_init_def SimpleResponse_init_def NO_LENGTH_def
        SimpleResponse_GetExtraHeader_def)
qed

theorem coro_test_sent_witness:
  "\<exists>r. make_coro_respsource coro_test (sample_page_request ''/corotest'') = Created r \<and> rp_ResponseCode r = 200"
  using coro_test_sent [of "sample_env\<lparr>ce_Fuel := 9\<rparr>" "sample_page_request ''/corotest''" 0 True] by auto

lemma SStream_parts:
  assumes "s \<noteq> []" "fuel \<noteq> 0"
  shows "body_parts fuel HTTP_WriteBuffSize (reader_of SStream_Read s) = Some [take HTTP_WriteBuffSize s]"
  using assms by (cases fuel) (simp_all add: SStream_Read_def Let_def HTTP_WriteBuffSize_def)

lemma SStream_wire:
  assumes "s \<noteq> []" "length s \<le> HTTP_WriteBuffSize" "ce_Fuel env \<noteq> 0" "rp_Read r = reader_of SStream_Read s" "rp_Length r = length s"
    "length s < NO_LENGTH"
  shows "response_wire env count cors r = Some (head_text env count cors r @ s)"
  using SStream_parts [OF assms(1,3)] assms by (intro wire_of_parts [of _ _ "[s]"]) auto

text \<open>Note: a form test below the size of the write buffer is sent whole, with every parameter and file of the
  request in the order of the names. The stream is reported finished as soon as something was read, so of
  a longer text only the first buffer is sent, although the whole length was announced.\<close>

theorem form_test_sent:
  assumes "FormTest_Create err rq = Created r" "ce_Fuel env \<noteq> 0" "rp_Length r < NO_LENGTH"
  shows "\<exists>fs s. file_lines (file_size err (up_Files (qp_Upload (rq_Query rq)))) (map_entries (qp_FileMap (rq_Query rq))) = Inr fs
    \<and> s = ''Got method '' @ method_line (rq_Method rq) @ nl @ ''Params:'' @ nl
        @ concat (map param_line (map_entries (qp_ParamMap (rq_Query rq)))) @ nl @ ''Files:'' @ nl @ fs
    \<and> rp_Length r = length s \<and> body_parts (ce_Fuel env) HTTP_WriteBuffSize (rp_Read r) = Some [take HTTP_WriteBuffSize s]
    \<and> (length s \<le> HTTP_WriteBuffSize \<longrightarrow> response_wire env count cors r = Some (head_text env count cors r @ s))"
proof -
  obtain fs where fs: "file_lines (file_size err (up_Files (qp_Upload (rq_Query rq)))) (map_entries (qp_FileMap (rq_Query rq))) = Inr fs"
    using assms(1) by (auto simp: FormTest_Create_def split: sum.splits)
  let ?s = "''Got method '' @ method_line (rq_Method rq) @ nl @ ''Params:'' @ nl
        @ concat (map param_line (map_entries (qp_ParamMap (rq_Query rq)))) @ nl @ ''Files:'' @ nl @ fs"
  have r: "rp_Length r = length ?s" "rp_Read r = reader_of SStream_Read ?s"
    using assms(1) fs by (auto simp: FormTest_Create_def SStreamResp_def)
  have ne: "?s \<noteq> []" by simp
  have b: "body_parts (ce_Fuel env) HTTP_WriteBuffSize (rp_Read r) = Some [take HTTP_WriteBuffSize ?s]"
    unfolding r(2) by (rule SStream_parts [OF ne assms(2)])
  have "response_wire env count cors r = Some (head_text env count cors r @ ?s)" if "length ?s \<le> HTTP_WriteBuffSize"
    by (rule SStream_wire [OF ne that assms(2) r(2,1)]) (use assms(3) r(1) in simp)
  then show ?thesis
    using fs r(1) b by blast
qed

theorem form_test_sent_witness:
  "\<exists>r. FormTest_Create (\<lambda>_. ([], [])) (sample_page_request ''/formtest'') = Created r
    \<and> body_parts 3 HTTP_WriteBuffSize (rp_Read r) = Some [''Got method GET.'' @ nl @ nl @ ''Params:'' @ nl @ nl @ ''Files:'' @ nl]"
proof -
  have e: "map_entries Map.empty = []"
    by (simp add: map_entries_def)
  have q: "FormTest_Create (\<lambda>_. ([], [])) (sample_page_request ''/formtest'') = Created (SStreamResp (''Got method GET.'' @ nl @ nl @ ''Params:'' @ nl @ nl @ ''Files:'' @ nl))"
    by (simp add: FormTest_Create_def sample_page_request_def qp_init_def e)
  then show ?thesis
    using form_test_sent [OF q, of "sample_env\<lparr>ce_Fuel := 3\<rparr>"]
    by (auto simp: sample_page_request_def qp_init_def e SStreamResp_def NO_LENGTH_def nl_def HTTP_WriteBuffSize_def)
qed

text \<open>C32: a client the filter refuses is never served. With a filter for local clients an IPv4 client that is not
  local is dropped: the list of connections and the count stay as they were, the refusal is logged,
  and a running server accepts the next one. An IPv6 client, refused or not, ends the process instead, as
  the log asks for its IPv4 address.\<close>

theorem refused_client_dropped:
  assumes "sv_MyConnF s = Some f" "se_Filter se f = LoopbackOnly is_loopback" "\<not> is_loopback (V4 a)" "sv_NextConn s \<noteq> None"
  shows "(\<exists>s'. OnAccept se (Some (V4 a)) s = Some s' \<and> sv_ConnLst s' = sv_ConnLst s \<and> sv_TotalConnCount s' = sv_TotalConnCount s
      \<and> sv_Log s' = sv_Log s @ [LogConnection a False] \<and> (sv_IsRunning s \<longrightarrow> sv_Accepting s' \<and> sv_NextConn s' \<noteq> None))
    \<and> OnAccept se (Some (V6 b)) s = None"
  using assms by (auto simp: OnAccept_def conn_allowed_def LoopbackOnly_def RestartAccept_def Let_def)

theorem refused_client_dropped_witness:
  "\<exists>s'. OnAccept (sample_server_env\<lparr>se_Filter := \<lambda>_. LoopbackOnly (\<lambda>_. False)\<rparr>) (Some (V4 7)) (sample_server\<lparr>sv_MyConnF := Some 5\<rparr>) = Some s'
    \<and> sv_ConnLst s' = []"
  using refused_client_dropped [of "sample_server\<lparr>sv_MyConnF := Some 5\<rparr>" 5 "sample_server_env\<lparr>se_Filter := \<lambda>_. LoopbackOnly (\<lambda>_. False)\<rparr>" "\<lambda>_. False" 7]
    server_reach_inv [OF sample_reach] by (auto simp: server_inv_def)

lemma SigHandler_fold: "fold SigHandler sigs b = (b \<and> SIGINT \<notin> set sigs \<and> SIGQUIT \<notin> set sigs)"
  by (induction sigs arbitrary: b) (auto simp: SigHandler_def)

text \<open>Note: the main loop ends exactly with the first round in which an interrupt or a quit signal arrives; no
  other signal ends it.\<close>

theorem main_waits:
  "main_wait True arriving = Some n \<longleftrightarrow> (\<exists>k < length arriving. n = Suc k \<and> {SIGINT, SIGQUIT} \<inter> set (arriving ! k) \<noteq> {}
    \<and> (\<forall>i < k. {SIGINT, SIGQUIT} \<inter> set (arriving ! i) = {}))"
proof (induction arriving arbitrary: n)
  case (Cons sigs arriving)
  show ?case
  proof (cases "{SIGINT, SIGQUIT} \<inter> set sigs = {}")
    case True
    then have "main_wait True (sigs # arriving) = map_option Suc (main_wait True arriving)"
      by (simp add: SigHandler_fold)
    then show ?thesis
      using Cons True by (cases n) (auto simp: Ex_less_Suc2 All_less_Suc2)
  next
    case False
    then have "fold SigHandler sigs True = False"
      by (auto simp: SigHandler_fold)
    then have "main_wait True (sigs # arriving) = Some (Suc 0)"
      by simp
    then show ?thesis
      using False by (auto simp: Ex_less_Suc2 All_less_Suc2)
  qed
qed simp

text \<open>Note: the program. After its start the server is running in a reachable state, so what holds in all
  of these holds for it: the next client is accepted. With the ordinary end of its handlers it stops
  without a connection left and prints that it stopped gracefully.\<close>

theorem main_runs:
  "\<exists>s. main_start se = Some (True, s) \<and> server_reach se s \<and> sv_IsRunning s \<and> sv_Accepting s
    \<and> (\<exists>s'. main_stop se [StopPosted, AcceptError, Timer True] True s = Some (''Stopped gracefully.'', s') \<and> sv_ConnLst s' = [])"
proof -
  let ?s0 = "server_init\<lparr>sv_MyConnF := None, sv_MyRespSource := Some 1, sv_MyLog := Some 2, sv_MyName := ''MiniWebServer/v0.2.0'',
      sv_ConnConf := default_config, sv_FUConf := (UINTMAX - 1, UINTMAX - 1), sv_CorsRS := False\<rparr>"
  have m: "main_start se = Run se ?s0"
    by (simp add: main_start_def SetServerLog_def SetResponseSource_def SetName_def delete_object_def server_init_def)
  obtain s where s: "Run se ?s0 = Some (True, s)"
    by (simp add: Run_def server_init_def)
  then have f: "sv_IsRunning s" "sv_Accepting s" "sv_RunTh s" "sv_NextConn s \<noteq> None" "sv_ConnLst s = []"
    by (auto simp: Run_def server_init_def RestartAccept_def RestartTimer_def Let_def)
  have "server_reach se s"
    using s by (rule server_reach.start)
  moreover have "\<exists>s'. main_stop se [StopPosted, AcceptError, Timer True] True s = Some (''Stopped gracefully.'', s') \<and> sv_ConnLst s' = []"
    using f by (auto simp: main_stop_def StopServer_def StopFinish_def StopInternal_def OnAccept_def RestartAccept_def OnTimer_def Let_def)
  ultimately show ?thesis
    using m s f by auto
qed

end
