(* ===== verification/SiteSession.thy ===== *)
theory SiteSession
  imports Application
begin

text \<open>
  The demonstration program from the socket to the pages: the routes of MiniWebSrv.cpp are a response
  source in the sense of the connection, for the root, the static page and the files, and so what the
  connection sends for bursts of such requests is known byte for byte.
\<close>

section \<open>The pages\<close>

text \<open>A path at or below a name.\<close>

definition below :: "string \<Rightarrow> string \<Rightarrow> bool" where
  "below p res \<longleftrightarrow> take (length p) res = p \<and> (drop (length p) res = [] \<or> hd (drop (length p) res) = CHR ''/'')"

text \<open>The content type, time and content of a regular file below the root that can be read and does not
  change its size.\<close>

definition site_file :: "fs_env \<Rightarrow> string list \<Rightarrow> string \<Rightarrow> (string \<times> int \<times> string) option" where
  "site_file fe root res =
     (case fe_Canonical fe root res of
        None \<Rightarrow> None
      | Some target \<Rightarrow>
          (case (fe_WriteTime fe target, fe_Open fe target) of
             (Inr t, Some d) \<Rightarrow>
               if length root \<le> length target \<and> take (length root) target = root \<and> fe_Exists fe target \<and> \<not> fe_IsDirectory fe target
                 \<and> fe_Size fe target = Inr (length d) \<and> length d < NO_LENGTH
               then Some (GetMimeType (fe_Extension fe target), t, d) else None
           | _ \<Rightarrow> None))"

definition file_response :: "fs_env \<Rightarrow> (nat \<Rightarrow> char) \<Rightarrow> string \<times> int \<times> string \<Rightarrow> response" where
  "file_response fe junk = (\<lambda>(mime, t, d). fs_response RC_OK mime (length d) (fe_Format fe t) (reader_of (FS_Read junk) (length d, 0, Some d)))"

definition static_page :: response where
  "static_page = StringResponse static_text ''text/html'' (Some ''utf-8'') 200"

definition site_page :: "fs_env \<Rightarrow> (nat \<Rightarrow> char) \<Rightarrow> string list \<Rightarrow> http_request \<Rightarrow> response option" where
  "site_page fe junk root r =
     (if hr_Path r = ''/'' then Some (RedirectResponse ''/test.html'' True)
      else if hr_Path r = ''/static'' then Some static_page
      else if \<not> below [] (hr_Path r) \<or> list_ex (\<lambda>p. below p (hr_Path r)) [''/gallery'', ''/formtest'', ''/echo'', ''/corotest'']
        \<or> list_ex (\<lambda>h. hd_IntName h = HN_IF_MOD_SINCE) (map line_header (hr_Headers r)) then None
      else map_option (file_response fe junk) (site_file fe root (hr_Path r)))"

text \<open>What the client gets behind the header lines.\<close>

definition site_body :: "fs_env \<Rightarrow> string list \<Rightarrow> string \<Rightarrow> string" where
  "site_body fe root res =
     (if res = ''/'' then final_chunk else if res = ''/static'' then static_text
      else case site_file fe root res of None \<Rightarrow> [] | Some (mime, t, d) \<Rightarrow> d)"

section \<open>The site as a response source\<close>

lemma serves_below: "serves h res rest \<Longrightarrow> below (rh_Prefix h) res"
  by (auto simp: serves_def below_def)

lemma serves_exact: "serves h res rest \<Longrightarrow> rh_ExactMatchOnly h \<Longrightarrow> res = rh_Prefix h"
  by (auto simp: serves_def)

lemma no_condition: "\<not> list_ex (\<lambda>h. hd_IntName h = HN_IF_MOD_SINCE) hs \<Longrightarrow> if_modified_since timegm hs = Some 0"
  by (induction hs) auto

lemma FS_Create_file:
  assumes "site_file fe root (rq_Resource rq) = Some f" "if_modified_since (fe_TimeGM fe) (rq_HeaderA rq) = Some 0"
  shows "FS_Create fe junk root rq = Created (file_response fe junk f)"
  using assms by (auto simp: site_file_def FS_Create_def FS_Response_def file_response_def split: option.splits sum.splits if_splits)

lemma site_to_files:
  assumes "res \<noteq> ''/''" "res \<noteq> ''/static''" "\<not> list_ex (\<lambda>p. below p res) [''/gallery'', ''/formtest'', ''/echo'', ''/corotest'']"
    "below [] res" "rq_Resource rq = res"
  shows "Combiner_Create (site_routes g f e fs) rq = fs rq"
proof -
  have "Combiner_Create (site_routes g f e fs) rq = rh_RespSource (cb_HolderA (site_routes g f e fs) ! 5) (rq\<lparr>rq_Resource := res\<rparr>)"
  proof (rule site_source)
    show "\<forall>k \<in> set (take 5 (cb_HolderA (site_routes g f e fs))). \<forall>r. \<not> serves k (rq_Resource rq) r"
      using assms by (auto simp: site_holders(1) dest: serves_below serves_exact)
  qed (use assms in \<open>simp_all add: site_holders(1) serves_def below_def\<close>)
  moreover have "rq\<lparr>rq_Resource := res\<rparr> = rq"
    using assms(5) by (cases rq) simp
  ultimately show ?thesis
    by (simp add: site_holders(1))
qed

interpretation site: resp_source "\<lambda>_. Combiner_Create (site_routes g f e (FS_Create fe junk root))" "site_page fe junk root"
  for g f e fe junk root
proof unfold_locales
  fix rq r rp
  assume a: "asks rq r" and p: "site_page fe junk root r = Some rp"
  let ?c = "site_routes g f e (FS_Create fe junk root)"
  have res: "rq_Resource rq = hr_Path r" "rq_HeaderA rq = map line_header (hr_Headers r)"
    using a by (simp_all add: asks_def)
  consider "hr_Path r = ''/''" | "hr_Path r = ''/static''" | "hr_Path r \<noteq> ''/''" "hr_Path r \<noteq> ''/static''" by blast
  then show "Combiner_Create ?c rq = Created rp"
  proof cases
    case 1
    then show ?thesis
      using p res by (simp add: site_page_def Combiner_Create_def site_holders(2))
  next
    case 2
    then have "Combiner_Create ?c rq = Created static_page"
      using site_source [of rq 3 g f e "FS_Create fe junk root" "[]"] res
      by (simp add: site_holders(1) serves_def Static_Create_def StaticRespSource_view_def RC_OK_def static_page_def)
    then show ?thesis
      using p 2 by (simp add: site_page_def)
  next
    case 3
    then have n: "\<not> list_ex (\<lambda>p. below p (hr_Path r)) [''/gallery'', ''/formtest'', ''/echo'', ''/corotest'']"
        "\<not> list_ex (\<lambda>h. hd_IntName h = HN_IF_MOD_SINCE) (rq_HeaderA rq)" "below [] (hr_Path r)"
      and "map_option (file_response fe junk) (site_file fe root (hr_Path r)) = Some rp"
      using p res(2) unfolding site_page_def by (auto split: if_splits)
    then obtain d where d: "site_file fe root (rq_Resource rq) = Some d" "rp = file_response fe junk d"
      using res(1) by auto
    show ?thesis
      using site_to_files [OF 3 n(1,3) res(1)] FS_Create_file [OF d(1) no_condition [OF n(2)]] d(2) by simp
  qed
qed

section \<open>What is sent\<close>

lemma redirect_wire:
  assumes "ce_Fuel env \<noteq> 0"
  shows "response_wire env count cors (RedirectResponse target b) = Some (head_text env count cors (RedirectResponse target b) @ final_chunk)"
  using assms by (cases "ce_Fuel env") (simp_all add: RedirectResponse_def response_wire_def Redirect_Read_def NO_LENGTH_def)

lemma static_wire:
  assumes "length static_text \<le> ce_Fuel env"
  shows "response_wire env count cors static_page = Some (head_text env count cors static_page @ static_text)"
  by (rule text_body.sent) (use assms in \<open>simp_all add: static_page_def StringResponse_def HTTP_WriteBuffSize_def NO_LENGTH_def static_text_def\<close>)

lemma file_wire:
  assumes "length d \<le> ce_Fuel env" "length d < NO_LENGTH"
  shows "response_wire env count cors (file_response fe junk (mime, t, d)) = Some (head_text env count cors (file_response fe junk (mime, t, d)) @ d)"
proof (cases "d = []")
  case True
  then show ?thesis
    by (simp add: response_wire_def) (simp add: file_response_def fs_response_def)
next
  case False
  show ?thesis
    by (rule file_body.sent [where junk = junk and n = "length d"])
      (use assms False in \<open>simp_all add: file_response_def fs_response_def HTTP_WriteBuffSize_def\<close>)
qed

text \<open>A page whose header lines fit.\<close>

definition page_fits :: "conn_env \<Rightarrow> response \<Rightarrow> bool" where
  "page_fits env rp \<longleftrightarrow> (\<forall>n. head_fits env n True rp \<and> length (head_text env n True rp) < head_limit env)"

lemma site_reply:
  assumes "site_page fe junk root r = Some rp" "page_fits env rp" "length (site_body fe root (hr_Path r)) \<le> ce_Fuel env" "ce_Fuel env \<noteq> 0"
  shows "reply env n rp = Some (head_text env n True rp @ site_body fe root (hr_Path r))"
    "stays_open rp \<longleftrightarrow> site_body fe root (hr_Path r) \<noteq> []"
proof -
  have h: "head_fits env n True rp" "length (head_text env n True rp) < head_limit env"
    using assms(2) by (simp_all add: page_fits_def)
  consider "hr_Path r = ''/''" | "hr_Path r = ''/static''" | "hr_Path r \<noteq> ''/''" "hr_Path r \<noteq> ''/static''" by blast
  then have "(stays_open rp \<longleftrightarrow> site_body fe root (hr_Path r) \<noteq> [])
    \<and> response_wire env n True rp = Some (head_text env n True rp @ site_body fe root (hr_Path r))"
  proof cases
    case 1
    then have rp: "rp = RedirectResponse ''/test.html'' True"
      using assms(1) by (auto simp: site_page_def)
    then show ?thesis
      using 1 redirect_wire [OF assms(4), of n True] unfolding rp
      by (simp add: site_body_def) (simp add: RedirectResponse_def NO_LENGTH_def stays_open_def final_chunk_def)
  next
    case 2
    then have rp: "rp = static_page" and "length static_text \<le> ce_Fuel env"
      using assms(1,3) by (auto simp: site_page_def site_body_def)
    then show ?thesis
      using 2 static_wire [of env n True] unfolding rp
      by (simp add: site_body_def) (simp add: static_page_def StringResponse_def static_text_def stays_open_def)
  next
    case 3
    then obtain mime t d where d: "site_file fe root (hr_Path r) = Some (mime, t, d)" "rp = file_response fe junk (mime, t, d)"
      using assms(1) by (auto simp: site_page_def split: if_splits)
    then have "length d < NO_LENGTH" "site_body fe root (hr_Path r) = d"
      using 3 by (auto simp: site_body_def site_file_def split: option.splits sum.splits if_splits)
    then show ?thesis
      using assms(3) file_wire [of d env n True fe junk mime t] unfolding d(2) by (simp add: file_response_def fs_response_def stays_open_def)
  qed
  then show "reply env n rp = Some (head_text env n True rp @ site_body fe root (hr_Path r))"
    "stays_open rp \<longleftrightarrow> site_body fe root (hr_Path r) \<noteq> []"
    using h by (simp_all add: reply_def)
qed

text \<open>What the client gets for a sequence of requests: an empty file is the last that is answered.\<close>

fun site_answers :: "conn_env \<Rightarrow> fs_env \<Rightarrow> (nat \<Rightarrow> char) \<Rightarrow> string list \<Rightarrow> nat \<Rightarrow> http_request list \<Rightarrow> string" where
  "site_answers env fe junk root n [] = []"
| "site_answers env fe junk root n (r # rs) =
     head_text env n True (the (site_page fe junk root r)) @ site_body fe root (hr_Path r)
       @ (if site_body fe root (hr_Path r) = [] then [] else site_answers env fe junk root (u32_add n 1) rs)"

lemma site_replies:
  assumes "\<forall>r \<in> set rs. \<exists>rp. site_page fe junk root r = Some rp \<and> page_fits env rp \<and> length (site_body fe root (hr_Path r)) \<le> ce_Fuel env"
    "ce_Fuel env \<noteq> 0"
  shows "replies env (site_page fe junk root) n rs = Some (site_answers env fe junk root (u32_add n 1) rs)"
  using assms(1)
proof (induction rs arbitrary: n)
  case (Cons r rs)
  obtain rp where rp: "site_page fe junk root r = Some rp" "page_fits env rp" "length (site_body fe root (hr_Path r)) \<le> ce_Fuel env"
    using Cons.prems(1) by auto
  show ?case
    using Cons.IH [of "u32_add n 1"] Cons.prems site_reply [OF rp assms(2)] rp(1) by simp
qed simp

section \<open>Properties\<close>

text \<open>C8: the site from the socket to the pages. GET requests for the root, the static page and regular files below
  the root directory, without If-Modified-Since, in any number of bursts that each fit into the read buffer and
  in whatever segments, are answered with, for each in its order, the header lines of its page and: the empty
  chunk of the redirect, the static text, or the content of the file, byte for byte; and with nothing else.
  The answer for an empty file is the last one. In the end the connection is closed.\<close>

theorem site_served:
  assumes "\<forall>n. ce_WriteOk env n" "ce_Fuel env \<noteq> 0" "ce_Create env = (\<lambda>_. Combiner_Create (site_routes g f e (FS_Create fe junk root)))"
    "list_all (burst_ok safe) bursts" "concat (map fst bursts) = rs"
    "\<forall>r \<in> set rs. \<exists>rp. site_page fe junk root r = Some rp \<and> page_fits env rp \<and> length (site_body fe root (hr_Path r)) \<le> ce_Fuel env"
    "length rs < fuel"
  shows "\<exists>c. ProtocolHandler env fuel (conn_init env u j (concat (map snd bursts))) = Some c
    \<and> concat (cn_Out c) = site_answers env fe junk root 1 rs \<and> \<not> cn_Open c \<and> cn_IsDeletable c"
proof -
  let ?c = "conn_init env u j (concat (map snd bursts))"
  have "[] \<notin> set (concat (map snd bursts))"
    using assms(4) by (auto simp: list_all_iff burst_ok_def)
  then have B: "inside (concat (map snd bursts)) [] ?c"
    by (rule inside_init)
  have c: "cn_ResponseCount ?c = 0" "cn_Out ?c = []" "u32_add 0 1 = 1"
    by (simp_all add: conn_init_def u32_simps)
  have R: "replies env (site_page fe junk root) (cn_ResponseCount ?c) (concat (map fst bursts)) = Some (site_answers env fe junk root 1 rs)"
    using site_replies [OF assms(6,2), of 0] unfolding assms(5) c(1,3) .
  obtain c' where "protocol_loop env fuel ?c = Throw c' \<or> protocol_loop env fuel ?c = Ret () c'"
      "concat (cn_Out c') = concat (cn_Out ?c) @ site_answers env fe junk root 1 rs"
    using site.answered_all [OF assms(1-4) B R] assms(5,7) by blast
  then show ?thesis
    using c(2) by (auto simp: ProtocolHandler_def)
qed

text \<open>The root and the static page, for a server without a clock.\<close>

definition site_env :: conn_env where
  "site_env = sample_env\<lparr>ce_Create := \<lambda>_. Combiner_Create (site_routes (\<lambda>_. CreatedNull) (\<lambda>_. CreatedNull) (\<lambda>_. CreatedNull)
     (FS_Create sample_fs (\<lambda>_. NUL) [''/'', ''srv''])), ce_Fuel := 100\<rparr>"

definition sample_get :: "string \<Rightarrow> http_request" where
  "sample_get path = sample_request\<lparr>hr_Path := path\<rparr>"

lemma sample_get_ok: "get_ok plain_char (sample_get ''/'')" "get_ok plain_char (sample_get ''/static'')"
    "length (requests_text plain_char [sample_get ''/'', sample_get ''/static'']) < 200"
  using sample_request_facts(1,4)
  by (simp_all add: get_ok_def sample_get_def request_ok_def sample_request_def requests_text_def request_text_def request_line_def url_pair_def
      url_encode_def enc_char_def plain_char_def CRLF_def fm_text_def header_line_def)

lemma site_pages_fit: "page_fits site_env (RedirectResponse ''/test.html'' True)" "page_fits site_env static_page"
proof -
  have d: "dec 301 = ''301''" "dec 200 = ''200''" "dec 57 = ''57''" "dec 0 = ''0''"
    by (simp_all add: dec.simps digit_def char_of_def bit_0)
  have "length static_text = 57"
    by (simp add: static_text_def)
  then have p: "rp_ResponseCode static_page = 200" "rp_ContentType static_page = ''text/html''" "rp_Charset static_page = Some ''utf-8''"
      "rp_Length static_page = 57" "rp_ExtraHeaders static_page = []"
    by (simp_all add: static_page_def StringResponse_def)
  show "page_fits site_env (RedirectResponse ''/test.html'' True)"
    by (simp add: page_fits_def head_fits_def head_text_def head_lines_def status_line_def content_type_line_def date_line_def length_line_def
        extra_text_def site_env_def sample_env_def default_config_def head_limit_def RedirectResponse_def
        d GetResponseName_def RC_defs CRLF_def cstr_def NO_LENGTH_def Redirect_GetExtraHeader_def)
  show "page_fits site_env static_page"
    by (simp add: page_fits_def head_fits_def head_text_def head_lines_def status_line_def content_type_line_def date_line_def length_line_def
        extra_text_def site_env_def sample_env_def default_config_def head_limit_def p
        d GetResponseName_def RC_defs CRLF_def cstr_def NO_LENGTH_def)
qed

theorem site_served_witness:
  "\<exists>c. ProtocolHandler site_env 3 (conn_init site_env (upload_init 0 0) 0
      [request_text plain_char (sample_get ''/''), request_text plain_char (sample_get ''/static'')]) = Some c
    \<and> concat (cn_Out c) = head_text site_env 1 True (RedirectResponse ''/test.html'' True) @ final_chunk
        @ head_text site_env 2 True static_page @ static_text"
proof -
  let ?t = "\<lambda>x. request_text plain_char (sample_get x)" and ?p = "site_page sample_fs (\<lambda>_. NUL) [''/'', ''srv'']"
  let ?bs = "[([sample_get ''/''], [?t ''/'']), ([sample_get ''/static''], [?t ''/static''])]" and ?rs = "[sample_get ''/'', sample_get ''/static'']"
  have p: "?p (sample_get ''/'') = Some (RedirectResponse ''/test.html'' True)" "?p (sample_get ''/static'') = Some static_page"
    by (simp_all add: site_page_def sample_get_def)
  have b: "site_body sample_fs [''/'', ''srv''] ''/'' = final_chunk" "site_body sample_fs [''/'', ''srv''] ''/static'' = static_text"
    by (simp_all add: site_body_def)
  have l: "length final_chunk \<le> 100" "length static_text \<le> 100" "final_chunk \<noteq> []" "static_text \<noteq> []"
    by (simp_all add: final_chunk_def CRLF_def static_text_def)
  have h: "hr_Path (sample_get x) = x" for x
    by (simp add: sample_get_def)
  have "[] \<noteq> ?t x" for x
    by (simp add: request_text_def CRLF_def)
  moreover have "length (?t ''/'') < 200" "length (?t ''/static'') < 200"
    using sample_get_ok(3) by (simp_all add: requests_text_def)
  ultimately have bs: "list_all (burst_ok plain_char) ?bs"
    using sample_get_ok(1,2) by (simp add: burst_ok_def requests_text_def HTTP_ReadBuffSize_def)
  have "\<exists>c. ProtocolHandler site_env 3 (conn_init site_env (upload_init 0 0) 0 (concat (map snd ?bs))) = Some c
    \<and> concat (cn_Out c) = site_answers site_env sample_fs (\<lambda>_. NUL) [''/'', ''srv''] 1 ?rs \<and> \<not> cn_Open c \<and> cn_IsDeletable c"
  proof (rule site_served [OF _ _ _ bs])
    show "\<forall>r \<in> set ?rs. \<exists>rp. ?p r = Some rp \<and> page_fits site_env rp \<and> length (site_body sample_fs [''/'', ''srv''] (hr_Path r)) \<le> ce_Fuel site_env"
      using p b l site_pages_fit by (simp add: h site_env_def)
  qed (simp_all add: site_env_def sample_env_def)
  then show ?thesis
    using l(3,4) by (auto simp: p b h u32_simps numeral_2_eq_2)
qed

end
