(* ===== verification/MultipartForm.thy ===== *)
theory MultipartForm
  imports QueryParams
begin

text \<open>
  The two halves of a multipart form together: the boundary scanner (MultipartScan) and the parser of a
  part (QueryParams), for a body in pieces of any size. First, where the scanner cuts the text of a part:
  a CR that does not begin a boundary ends the piece it is in, so that no piece goes over the beginning of the
  empty line behind the headers. This is what the part parser relies on.
\<close>

section \<open>Where the scanner cuts\<close>

definition ends_cr :: "string \<Rightarrow> bool" where
  "ends_cr u \<longleftrightarrow> u \<noteq> [] \<and> last u = CHR 0x0D"

text \<open>A piece after the text \<open>u\<close> of the same part: at most one CR, and none behind a single LF that
  completes a CR LF.\<close>

definition piece_ok :: "string \<Rightarrow> string \<Rightarrow> bool" where
  "piece_ok u p \<longleftrightarrow> (\<forall>x y. p = x @ CHR 0x0D # y \<longrightarrow> CHR 0x0D \<notin> set x \<and> (x = [CHR 0x0A] \<longrightarrow> \<not> ends_cr u))"

fun cur_text :: "string \<Rightarrow> mp_call list \<Rightarrow> string" where
  "cur_text u [] = u"
| "cur_text u (AppendPart p # cs) = cur_text (u @ p) cs"
| "cur_text u (NewPart # cs) = cur_text [] cs"

fun cuts_ok :: "string \<Rightarrow> mp_call list \<Rightarrow> bool" where
  "cuts_ok u [] \<longleftrightarrow> True"
| "cuts_ok u (AppendPart p # cs) \<longleftrightarrow> piece_ok u p \<and> cuts_ok (u @ p) cs"
| "cuts_ok u (NewPart # cs) \<longleftrightarrow> cuts_ok [] cs"

lemma cur_text_append [simp]: "cur_text u (xs @ ys) = cur_text (cur_text u xs) ys"
  by (induction u xs rule: cur_text.induct) simp_all

lemma cuts_ok_append [simp]: "cuts_ok u (xs @ ys) \<longleftrightarrow> cuts_ok u xs \<and> cuts_ok (cur_text u xs) ys"
  by (induction u xs rule: cur_text.induct) auto

lemma piece_ok_clean [intro]: "CHR 0x0D \<notin> set p \<Longrightarrow> piece_ok u p"
  by (auto simp: piece_ok_def)

lemma piece_ok_one:
  assumes "CHR 0x0D \<notin> set x" "CHR 0x0D \<notin> set w" "x = [CHR 0x0A] \<Longrightarrow> \<not> ends_cr u"
  shows "piece_ok u (x @ CHR 0x0D # w)"
  using assms unfolding piece_ok_def by (metis append_Cons_eq_iff)

lemma ends_cr_append: "ends_cr (u @ p) \<longleftrightarrow> (if p = [] then ends_cr u else last p = CHR 0x0D)"
  by (simp add: ends_cr_def)

lemma ends_cr_clean: "CHR 0x0D \<notin> set p \<Longrightarrow> ends_cr (u @ p) \<Longrightarrow> p = [] \<and> ends_cr u"
  by (metis ends_cr_append last_in_set)

text \<open>The state of the scanner: nothing matched; a match begun in this piece; or one begun in a piece before.\<close>

definition scan_idle :: "string \<Rightarrow> string \<Rightarrow> mp_state \<Rightarrow> bool" where
  "scan_idle u buf s \<longleftrightarrow> mp_Counter s = 0 \<and> mp_ParseTmp s = []
     \<and> CHR 0x0D \<notin> set (seg buf (mp_ContentBegin s) (mp_Pos s - mp_ContentBegin s))
     \<and> (ends_cr u \<longrightarrow> mp_ContentBegin s < length buf \<and> buf ! mp_ContentBegin s \<noteq> CHR 0x0A)"

definition scan_matching :: "string \<Rightarrow> string \<Rightarrow> mp_state \<Rightarrow> bool" where
  "scan_matching u buf s \<longleftrightarrow> mp_ParseTmp s = []
     \<and> (\<exists>x w. CHR 0x0D \<notin> set x \<and> CHR 0x0D \<notin> set w \<and> mp_Counter s = Suc (length w)
          \<and> seg buf (mp_ContentBegin s) (mp_Pos s - mp_ContentBegin s) = x @ CHR 0x0D # w)
     \<and> (ends_cr u \<longrightarrow> buf ! mp_ContentBegin s \<noteq> CHR 0x0A)"

definition held :: "string \<Rightarrow> nat \<Rightarrow> string \<Rightarrow> bool" where
  "held u m t \<longleftrightarrow> (\<exists>w. CHR 0x0D \<notin> set w \<and> (m = Suc (length w) \<and> t = CHR 0x0D # w \<or> m = length w + 2 \<and> u = [] \<and> t = w))"

definition scan_holding :: "string \<Rightarrow> string \<Rightarrow> mp_state \<Rightarrow> bool" where
  "scan_holding u buf s \<longleftrightarrow> mp_ContentBegin s = 0 \<and> CHR 0x0D \<notin> set (take (mp_Pos s) buf)
     \<and> (mp_ParseTmp s = [] \<longrightarrow> u = [] \<and> mp_Counter s = mp_Pos s + 2) \<and> held u (mp_Counter s) (mp_ParseTmp s @ take (mp_Pos s) buf)"

definition cut_inv :: "string \<Rightarrow> string \<Rightarrow> string \<Rightarrow> mp_state \<Rightarrow> bool" where
  "cut_inv bd u0 buf s \<longleftrightarrow> cuts_ok u0 (mp_Calls s) \<and> mp_ContentBegin s \<le> mp_Pos s \<and> mp_Pos s \<le> length buf
     \<and> mp_Counter s < length bd
     \<and> (let u = cur_text u0 (mp_Calls s) in scan_idle u buf s \<or> scan_matching u buf s \<or> scan_holding u buf s)"

lemma heldD:
  assumes "held u m t"
  shows "piece_ok u t" "ends_cr (u @ t) \<Longrightarrow> m = 1" "m \<noteq> 0" "length t \<le> m"
proof -
  obtain w where w: "CHR 0x0D \<notin> set w" "m = Suc (length w) \<and> t = CHR 0x0D # w \<or> m = length w + 2 \<and> u = [] \<and> t = w"
    using assms unfolding held_def by blast
  show "piece_ok u t"
    using w(2) piece_ok_one [of "[]" w u] w(1) by (elim disjE conjE; simp add: piece_ok_clean)
  have "ends_cr ((u @ [CHR 0x0D]) @ w) \<Longrightarrow> w = []"
    by (rule ends_cr_clean [OF w(1), THEN conjunct1])
  moreover have "\<not> ends_cr w"
    using ends_cr_clean [OF w(1), of "[]"] by (auto simp: ends_cr_def)
  ultimately show "ends_cr (u @ t) \<Longrightarrow> m = 1"
    using w(2) by (elim disjE conjE; simp)
  show "m \<noteq> 0" "length t \<le> m"
    using w by auto
qed

lemma held_extend: "held u m t \<Longrightarrow> c \<noteq> CHR 0x0D \<Longrightarrow> held u (Suc m) (t @ [c])"
proof -
  assume h: "held u m t" and c: "c \<noteq> CHR 0x0D"
  obtain w where w: "CHR 0x0D \<notin> set w" "m = Suc (length w) \<and> t = CHR 0x0D # w \<or> m = length w + 2 \<and> u = [] \<and> t = w"
    using h unfolding held_def by blast
  then show ?thesis
    using c unfolding held_def by (intro exI [of _ "w @ [c]"]) auto
qed

lemma skip_cut:
  assumes "boundary_ok bd" "cut_inv bd u0 buf s" "mp_Counter s = 0" "mp_Pos s < length buf"
  shows "cut_inv bd u0 buf (s\<lparr>mp_Pos := fst (skip_to_CR buf (mp_Pos s)), mp_Counter := snd (skip_to_CR buf (mp_Pos s))\<rparr>)"
proof -
  let ?P = "mp_Pos s" and ?cb = "mp_ContentBegin s" and ?u = "cur_text u0 (mp_Calls s)"
  let ?w = "takeWhile (\<lambda>c. c \<noteq> CHR 0x0D) (drop ?P buf)"
  let ?k = "length ?w"
  have I: "scan_idle ?u buf s" "?cb \<le> ?P" "cuts_ok u0 (mp_Calls s)"
    using assms(2,3) by (auto simp: cut_inv_def Let_def scan_matching_def scan_holding_def dest: heldD)
  have w: "?w = seg buf ?P ?k" "CHR 0x0D \<notin> set ?w"
    unfolding seg_def by (rule takeWhile_eq_take, auto dest: set_takeWhileD)
  have sg: "seg buf ?cb (?P - ?cb) @ ?w = seg buf ?cb (?P + ?k - ?cb)"
    using I(2) seg_extend [of ?P ?cb "?P - ?cb" buf ?k] unfolding w(1) [symmetric] by simp
  then have clean: "CHR 0x0D \<notin> set (seg buf ?cb (?P + ?k - ?cb))"
    using I(1) w(2) unfolding sg [symmetric] by (simp add: scan_idle_def)
  have l: "2 < length bd"
    using boundary_okD(1) [OF assms(1)] .
  show ?thesis
  proof (cases "?P + ?k < length buf")
    case False
    then have e: "?P + ?k = length buf"
      using length_takeWhile_le [of "\<lambda>c. c \<noteq> CHR 0x0D" "drop ?P buf"] assms(4) by simp
    then have "skip_to_CR buf ?P = (length buf, 0)"
      by (simp add: skip_to_CR_def Let_def)
    then show ?thesis
      using I l clean assms(4) by (auto simp: cut_inv_def scan_idle_def e)
  next
    case True
    then have sk: "skip_to_CR buf ?P = (?P + ?k + 1, 1)"
      by (simp add: skip_to_CR_def Let_def)
    have "drop ?P buf ! ?k = CHR 0x0D"
      using True nth_length_takeWhile [of "\<lambda>c. c \<noteq> CHR 0x0D" "drop ?P buf"] by simp
    then have "seg buf (?P + ?k) 1 = [CHR 0x0D]"
      using True by (simp add: seg_def take_Suc hd_drop_conv_nth)
    then have "seg buf ?cb (?P + ?k + 1 - ?cb) = seg buf ?cb (?P + ?k - ?cb) @ [CHR 0x0D]"
      using I(2) seg_extend [of "?P + ?k" ?cb "?P + ?k - ?cb" buf 1] by (simp add: Suc_diff_le)
    then have "scan_matching ?u buf (s\<lparr>mp_Pos := ?P + ?k + 1, mp_Counter := 1\<rparr>)"
      using I(1) clean by (auto simp: scan_matching_def scan_idle_def intro!: exI [of _ "seg buf ?cb (?P + ?k - ?cb)"])
    then show ?thesis
      using True I l by (simp add: cut_inv_def sk)
  qed
qed

lemma seg_Suc: "p \<le> q \<Longrightarrow> q < length buf \<Longrightarrow> seg buf p (Suc q - p) = seg buf p (q - p) @ [buf ! q]"
  using seg_extend [of q p "q - p" buf 1] by (simp add: Suc_diff_le seg_def [of buf q] take_Suc hd_drop_conv_nth)

lemma next_not_cr:
  assumes "boundary_ok bd" "0 < m"
  shows "deref (drop m bd) \<noteq> CHR 0x0D"
  using boundary_okD(3) [OF assms] by (cases "m < length bd") (simp add: deref_drop, simp add: deref_def)

lemma scan_matchingD:
  assumes "scan_matching u buf s" "mp_ContentBegin s \<le> mp_Pos s" "mp_Pos s \<le> length buf"
  shows "mp_Counter s \<noteq> 0" "mp_ContentBegin s + mp_Counter s \<le> mp_Pos s"
    "piece_ok u (seg buf (mp_ContentBegin s) (mp_Pos s - mp_ContentBegin s))"
    "CHR 0x0D \<notin> set (seg buf (mp_ContentBegin s) (mp_Pos s - mp_Counter s - mp_ContentBegin s))"
    "ends_cr (u @ seg buf (mp_ContentBegin s) (mp_Pos s - mp_ContentBegin s)) \<Longrightarrow> mp_Counter s = 1"
    "held u (mp_Counter s) (drop (mp_Pos s - mp_Counter s) (take (mp_Pos s) buf))"
proof -
  let ?P = "mp_Pos s" and ?cb = "mp_ContentBegin s" and ?m = "mp_Counter s"
  obtain x w where w: "CHR 0x0D \<notin> set x" "CHR 0x0D \<notin> set w" "?m = Suc (length w)" "seg buf ?cb (?P - ?cb) = x @ CHR 0x0D # w"
    and b: "ends_cr u \<longrightarrow> buf ! ?cb \<noteq> CHR 0x0A"
    using assms(1) by (auto simp: scan_matching_def)
  have l: "?P - ?cb = length x + ?m"
    using arg_cong [OF w(4), of length] assms(3) by (simp add: w(3))
  show "?m \<noteq> 0" by (simp add: w(3))
  show le: "?cb + ?m \<le> ?P"
    using l assms(2) by linarith
  have "x = [CHR 0x0A] \<Longrightarrow> buf ! ?cb = CHR 0x0A"
    using arg_cong [OF w(4), of "\<lambda>t. t ! 0"] l assms(3) by (simp add: seg_def)
  then show "piece_ok u (seg buf ?cb (?P - ?cb))"
    unfolding w(4) using b by (intro piece_ok_one w(1,2)) auto
  have d: "?P - ?m - ?cb = length x"
    using l by simp
  have "take (length x) (seg buf ?cb (?P - ?cb)) = seg buf ?cb (length x)"
    using l by (simp add: take_seg)
  then show "CHR 0x0D \<notin> set (seg buf ?cb (?P - ?m - ?cb))"
    unfolding d using w(1) by (simp add: w(4))
  have "ends_cr ((u @ x @ [CHR 0x0D]) @ w) \<Longrightarrow> w = []"
    by (rule ends_cr_clean [OF w(2), THEN conjunct1])
  then show "ends_cr (u @ seg buf ?cb (?P - ?cb)) \<Longrightarrow> ?m = 1"
    unfolding w(4) by (simp add: w(3))
  have "?P - ?m = ?cb + length x" "?P - (?cb + length x) = ?P - ?cb - length x"
    using l le by linarith+
  then have "drop (?P - ?m) (take ?P buf) = drop (length x) (seg buf ?cb (?P - ?cb))"
    by (simp only: drop_seg) (simp add: seg_def drop_take)
  then show "held u ?m (drop (?P - ?m) (take ?P buf))"
    unfolding w(4) held_def using w(2,3) by auto
qed

lemma scan_holdingD:
  assumes "scan_holding u buf s" "mp_Pos s \<le> length buf"
  shows "mp_Counter s \<noteq> 0" "mp_Pos s < mp_Counter s" "length (mp_ParseTmp s) \<le> mp_Counter s - mp_Pos s"
    "piece_ok u (mp_ParseTmp s)" "piece_ok (u @ mp_ParseTmp s) (seg buf 0 (mp_Pos s))"
    "ends_cr (u @ mp_ParseTmp s @ seg buf 0 (mp_Pos s)) \<Longrightarrow> mp_Counter s = 1"
proof -
  let ?P = "mp_Pos s" and ?t = "mp_ParseTmp s"
  have h: "held u (mp_Counter s) (?t @ take ?P buf)" and c: "CHR 0x0D \<notin> set (take ?P buf)"
    using assms(1) by (simp_all add: scan_holding_def)
  note H = heldD [OF h]
  show "mp_Counter s \<noteq> 0" "length ?t \<le> mp_Counter s - ?P"
    using H(3,4) assms(2) by auto
  show "?P < mp_Counter s"
    using H(4) assms by (cases "?t = []") (auto simp: scan_holding_def Suc_le_eq [symmetric] neq_Nil_conv)
  show "piece_ok u ?t"
    using H(1) unfolding piece_ok_def by (metis append.assoc append_Cons)
  show "piece_ok (u @ ?t) (seg buf 0 ?P)"
    using c by (intro piece_ok_clean) (simp add: seg_def)
  show "ends_cr (u @ ?t @ seg buf 0 ?P) \<Longrightarrow> mp_Counter s = 1"
    using H(2) by (simp add: seg_def)
qed

lemma grow_inv:
  assumes "cut_inv bd u0 buf s" "c = buf ! mp_Pos s" "mp_Pos s < length buf" "mp_Counter s \<noteq> 0" "c \<noteq> CHR 0x0D"
    "s1 = s\<lparr>mp_Counter := Suc (mp_Counter s), mp_Pos := Suc (mp_Pos s)\<rparr>"
  shows "scan_matching (cur_text u0 (mp_Calls s1)) buf s1 \<or> scan_holding (cur_text u0 (mp_Calls s1)) buf s1"
proof -
  let ?u = "cur_text u0 (mp_Calls s)"
  have le: "mp_ContentBegin s \<le> mp_Pos s"
    using assms(1) by (simp add: cut_inv_def)
  have tk: "take (Suc (mp_Pos s)) buf = take (mp_Pos s) buf @ [c]"
    using assms(2,3) by (simp add: take_Suc_conv_app_nth)
  consider "scan_matching ?u buf s" | "scan_holding ?u buf s"
    using assms(1,4) by (auto simp: cut_inv_def Let_def scan_idle_def)
  then show ?thesis
  proof cases
    case 1
    then obtain x w where w: "CHR 0x0D \<notin> set x" "CHR 0x0D \<notin> set w" "mp_Counter s = Suc (length w)"
      "seg buf (mp_ContentBegin s) (mp_Pos s - mp_ContentBegin s) = x @ CHR 0x0D # w"
      unfolding scan_matching_def by blast
    have "seg buf (mp_ContentBegin s) (Suc (mp_Pos s) - mp_ContentBegin s) = x @ CHR 0x0D # (w @ [c])"
      using seg_Suc [OF le assms(3)] by (simp add: w(4) assms(2))
    moreover have "CHR 0x0D \<notin> set (w @ [c])" "Suc (mp_Counter s) = Suc (length (w @ [c]))"
      using w(2,3) assms(5) by simp_all
    ultimately have "\<exists>x w. CHR 0x0D \<notin> set x \<and> CHR 0x0D \<notin> set w \<and> Suc (mp_Counter s) = Suc (length w)
        \<and> seg buf (mp_ContentBegin s) (Suc (mp_Pos s) - mp_ContentBegin s) = x @ CHR 0x0D # w"
      using w(1) by blast
    then have "scan_matching ?u buf s1"
      using 1 by (simp add: scan_matching_def assms(6))
    then show ?thesis
      by (simp add: assms(6))
  next
    case 2
    then have "scan_holding ?u buf s1"
      using held_extend [of ?u "mp_Counter s" "mp_ParseTmp s @ take (mp_Pos s) buf" c] assms(5)
      by (auto simp: scan_holding_def assms(6) tk)
    then show ?thesis
      by (simp add: assms(6))
  qed
qed

lemma round_cut:
  assumes "boundary_ok bd" "bd ! 1 = CHR 0x0A" "cut_inv bd u0 buf s" "mp_Pos s < length buf" "mp_Counter s \<noteq> 0"
  shows "cut_inv bd u0 buf (match_round bd buf s)"
proof -
  let ?u = "cur_text u0 (mp_Calls s)" and ?P = "mp_Pos s" and ?m = "mp_Counter s" and ?cb = "mp_ContentBegin s"
  have I: "cuts_ok u0 (mp_Calls s)" "?cb \<le> ?P" "?m < length bd" "scan_matching ?u buf s \<or> scan_holding ?u buf s" "?P \<le> length buf"
    using assms(3-5) by (auto simp: cut_inv_def Let_def scan_idle_def)
  have m1: "deref (drop 1 bd) = CHR 0x0A"
    using boundary_okD(1) [OF assms(1)] assms(2) by (simp add: deref_drop)
  show ?thesis
  proof (cases "buf ! ?P = deref (drop ?m bd)")
    case True
    define s1 where "s1 = s\<lparr>mp_Counter := Suc ?m, mp_Pos := Suc ?P\<rparr>"
    have g: "scan_matching (cur_text u0 (mp_Calls s1)) buf s1 \<or> scan_holding (cur_text u0 (mp_Calls s1)) buf s1"
      using grow_inv [OF assms(3) refl assms(4,5) _ s1_def] next_not_cr [OF assms(1), of ?m] True assms(5) by simp
    have p: "mp_ContentBegin s1 \<le> mp_Pos s1" "mp_Pos s1 \<le> length buf" "mp_Calls s1 = mp_Calls s" "mp_Counter s1 = Suc ?m"
      using I assms(4) by (simp_all add: s1_def)
    have mr: "match_round bd buf s = (if Suc ?m = length bd then full_match buf s1 else s1)"
      using True by (simp add: match_round_def s1_def)
    show ?thesis
    proof (cases "Suc ?m = length bd")
      case False
      then show ?thesis
        using g p I(1,3) unfolding mr by (auto simp: cut_inv_def Let_def)
    next
      case full: True
      have "cuts_ok u0 (mp_Calls (full_match buf s1))"
        using g
      proof
        assume "scan_matching (cur_text u0 (mp_Calls s1)) buf s1"
        from scan_matchingD [OF this p(1,2)] show ?thesis
          using I(1) p(3) by (auto simp: full_match_def)
      next
        assume "scan_holding (cur_text u0 (mp_Calls s1)) buf s1"
        from scan_holdingD [OF this p(2)] show ?thesis
          using I(1) p(3) by (auto simp: full_match_def)
      qed
      moreover have "scan_idle (cur_text u0 (mp_Calls (full_match buf s1))) buf (full_match buf s1)"
        by (simp add: scan_idle_def full_match_def ends_cr_def)
      ultimately show ?thesis
        using full p I(3) boundary_okD(1) [OF assms(1)] unfolding mr by (auto simp: cut_inv_def Let_def full_match_def)
    qed
  next
    case False
    define t where "t = match_round bd buf s"
    have "cuts_ok u0 (mp_Calls t) \<and> (ends_cr (cur_text u0 (mp_Calls t)) \<longrightarrow> ?m = 1)"
      using I(4)
    proof
      assume "scan_matching ?u buf s"
      from this scan_matchingD [OF this I(2,5)] show ?thesis
        using False I(1) by (auto simp: t_def match_round_def scan_matching_def)
    next
      assume h: "scan_holding ?u buf s"
      from scan_holdingD [OF this I(5)] show ?thesis
        using False I(1) h by (auto simp: t_def match_round_def scan_holding_def)
    qed
    moreover have "mp_Pos t = ?P" "mp_Counter t = 0" "mp_ParseTmp t = []" "mp_ContentBegin t = ?P"
      using False assms(5) by (simp_all add: t_def match_round_def)
    ultimately show ?thesis
      using False m1 assms(4) boundary_okD(1) [OF assms(1)] unfolding t_def [symmetric]
      by (auto simp: cut_inv_def scan_idle_def)
  qed
qed

lemma loop_cut:
  assumes "boundary_ok bd" "bd ! 1 = CHR 0x0A" "cut_inv bd u0 buf s"
  shows "cut_inv bd u0 buf (mp_loop bd buf s) \<and> mp_Pos (mp_loop bd buf s) = length buf"
  using assms
proof (induction bd buf s rule: mp_loop.induct)
  case (1 bd buf s)
  note ok = 1(3,4) and inv = 1(5)
  have le: "mp_Pos s \<le> length buf"
    using inv by (simp add: cut_inv_def)
  let ?sk = "skip_to_CR buf (mp_Pos s)"
  let ?s1 = "s\<lparr>mp_Pos := fst ?sk, mp_Counter := snd ?sk\<rparr>"
  consider (end_) "mp_Pos s = length buf" | (skip) "mp_Pos s < length buf" "mp_Counter s = 0"
    | (round) "mp_Pos s < length buf" "mp_Counter s \<noteq> 0"
    using le by linarith
  then show ?case
  proof cases
    case end_
    then show ?thesis
      using inv by (subst (1 2) mp_loop.simps) simp
  next
    case round
    have "mp_loop bd buf s = mp_loop bd buf (match_round bd buf s)"
      using round by (subst mp_loop.simps) simp
    then show ?thesis
      using 1(2) [OF round ok round_cut [OF ok inv round]] by simp
  next
    case skip
    have S: "cut_inv bd u0 buf ?s1"
      by (rule skip_cut [OF ok(1) inv skip(2,1)])
    have c: "fst ?sk < length buf \<Longrightarrow> snd ?sk = 1" "fst ?sk \<le> length buf"
      by (auto simp: skip_to_CR_def Let_def split: if_splits)
    show ?thesis
    proof (cases "fst ?sk < length buf")
      case False
      then have "mp_loop bd buf s = ?s1"
        using skip by (subst mp_loop.simps) (simp add: case_prod_beta)
      then show ?thesis
        using S False c(2) by simp
    next
      case True
      then have "mp_loop bd buf s = mp_loop bd buf (match_round bd buf ?s1)"
        using skip by (subst mp_loop.simps) (simp add: case_prod_beta)
      moreover have "cut_inv bd u0 buf (match_round bd buf ?s1)"
        using True c(1) by (intro round_cut ok S) simp_all
      ultimately show ?thesis
        using 1(1) [OF skip refl prod.collapse refl True ok] by simp
    qed
  qed
qed

text \<open>What is held back between two pieces of the body, after the text \<open>u\<close> of the current part.\<close>

definition kept_ok :: "string \<Rightarrow> string \<Rightarrow> nat \<times> string \<Rightarrow> bool" where
  "kept_ok bd u st \<longleftrightarrow> fst st < length bd
     \<and> (if fst st = 0 then snd st = [] \<and> \<not> ends_cr u else held u (fst st) (snd st) \<and> (snd st = [] \<longrightarrow> u = []))"

lemma piece_cut:
  assumes "boundary_ok bd" "bd ! 1 = CHR 0x0A" "kept_ok bd u st"
  shows "cuts_ok u (snd (AppendFormMultipart bd x st)) \<and> kept_ok bd (cur_text u (snd (AppendFormMultipart bd x st))) (fst (AppendFormMultipart bd x st))"
proof -
  let ?init = "\<lparr>mp_Pos = 0, mp_ContentBegin = 0, mp_Counter = fst st, mp_ParseTmp = snd st, mp_Calls = []\<rparr>"
  let ?s = "mp_loop bd x ?init"
  let ?u = "cur_text u (mp_Calls ?s)"
  have "held u (fst st) [] \<Longrightarrow> fst st = 2"
    by (auto simp: held_def)
  then have "cut_inv bd u x ?init"
    using assms(3) by (auto simp: cut_inv_def kept_ok_def scan_idle_def scan_holding_def split: if_splits)
  from loop_cut [OF assms(1,2) this] have L: "cut_inv bd u x ?s" "mp_Pos ?s = length x"
    by blast+
  then have I: "cuts_ok u (mp_Calls ?s)" "mp_ContentBegin ?s \<le> length x" "mp_Counter ?s < length bd"
      "scan_idle ?u x ?s \<or> scan_matching ?u x ?s \<or> scan_holding ?u x ?s"
    by (auto simp: cut_inv_def Let_def)
  consider (scan_idle) "scan_idle ?u x ?s" | (scan_matching) "scan_matching ?u x ?s" | (scan_holding) "scan_holding ?u x ?s"
    using I(4) by blast
  then show ?thesis
  proof cases
    case scan_idle
    let ?g = "seg x (mp_ContentBegin ?s) (length x - mp_ContentBegin ?s)"
    have g: "CHR 0x0D \<notin> set ?g" "ends_cr ?u \<Longrightarrow> ?g \<noteq> []"
      using scan_idle L(2) by (auto simp: scan_idle_def seg_def)
    then have "\<not> ends_cr (?u @ ?g)"
      using ends_cr_clean [OF g(1), of ?u] by blast
    moreover have "x = [] \<Longrightarrow> ?g = []"
      by (simp add: seg_def)
    ultimately show ?thesis
      using scan_idle I(1,3) L(2) g(1) by (auto simp: AppendFormMultipart_def Let_def kept_ok_def scan_idle_def)
  next
    case scan_matching
    note D = scan_matchingD [OF scan_matching, unfolded L(2), OF I(2) order_refl]
    have "drop (length x - mp_Counter ?s) x \<noteq> []"
      using D(1,2) by simp
    moreover have "held (?u @ g) (mp_Counter ?s) (drop (length x - mp_Counter ?s) x)" for g
    proof -
      obtain w where "CHR 0x0D \<notin> set w" "mp_Counter ?s = Suc (length w)"
        using scan_matching by (auto simp: scan_matching_def)
      moreover have "length (drop (length x - mp_Counter ?s) x) = mp_Counter ?s"
        using D(2) by simp
      ultimately show ?thesis
        using D(6) by (auto simp: held_def)
    qed
    ultimately show ?thesis
      using scan_matching D(1,4) I(1,3) L(2) by (auto simp: AppendFormMultipart_def Let_def kept_ok_def scan_matching_def)
  next
    case scan_holding
    note D = scan_holdingD [OF scan_holding, unfolded L(2), OF order_refl]
    have "mp_ContentBegin ?s = 0" "held ?u (mp_Counter ?s) (mp_ParseTmp ?s @ x)"
      "mp_ParseTmp ?s = [] \<Longrightarrow> ?u = []"
      using scan_holding L(2) by (simp_all add: scan_holding_def)
    then show ?thesis
      using D(1,2) I(1,3) L(2) by (auto simp: AppendFormMultipart_def Let_def kept_ok_def)
  qed
qed

lemma scan_cut:
  assumes "boundary_ok bd" "bd ! 1 = CHR 0x0A" "kept_ok bd u st"
  shows "cuts_ok u (scan_pieces bd xs st)"
  using assms(3)
proof (induction xs arbitrary: u st)
  case (Cons x xs)
  show ?case
    using piece_cut [OF assms(1,2) Cons.prems, of x] Cons.IH by (simp add: case_prod_beta)
qed simp

lemma scan_cut_start:
  "boundary_ok bd \<Longrightarrow> bd ! 1 = CHR 0x0A \<Longrightarrow> cuts_ok [] (scan_pieces bd xs (2, []))"
  using boundary_okD(1) by (intro scan_cut) (simp_all add: kept_ok_def held_def)

section \<open>Parts as groups of pieces\<close>

abbreviation part_calls :: "string list \<Rightarrow> mp_call list" where
  "part_calls g \<equiv> NewPart # map AppendPart g"

lemma play_groups:
  "fold play cs [[]] = out \<Longrightarrow> \<exists>g0 gs. cs = map AppendPart g0 @ concat (map part_calls gs) \<and> out = concat g0 # map concat gs"
proof (induction cs arbitrary: out rule: rev_induct)
  case Nil
  then show ?case by (intro exI [of _ "[]"]) simp
next
  case (snoc c cs)
  then obtain g0 gs where g: "cs = map AppendPart g0 @ concat (map part_calls gs)" "fold play cs [[]] = concat g0 # map concat gs"
    by blast
  show ?case
  proof (cases c)
    case NewPart
    then show ?thesis
      using g snoc.prems by (intro exI [of _ g0] exI [of _ "gs @ [[]]"]) simp
  next
    case (AppendPart p)
    show ?thesis
    proof (cases gs rule: rev_cases)
      case Nil
      then show ?thesis
        using g snoc.prems AppendPart by (intro exI [of _ "g0 @ [p]"] exI [of _ "[]"]) (simp add: add_part_def)
    next
      case (snoc gs' gl)
      then show ?thesis
        using g \<open>fold play (cs @ [c]) [[]] = out\<close> AppendPart
        by (intro exI [of _ g0] exI [of _ "gs' @ [gl @ [p]]"]) (simp add: add_part_def butlast_append)
    qed
  qed
qed

lemma cur_text_pieces [simp]: "cur_text u (map AppendPart g) = u @ concat g"
  by (induction g arbitrary: u) simp_all

lemma cuts_ok_groups: "cuts_ok u (concat (map part_calls gs)) \<longleftrightarrow> (\<forall>g \<in> set gs. cuts_ok [] (map AppendPart g))"
  by (induction gs arbitrary: u) auto

text \<open>The piece in which a given beginning of the text ends.\<close>

lemma split_pieces:
  "concat g = u @ v \<Longrightarrow> u \<noteq> [] \<Longrightarrow> \<exists>hs h b bs. g = hs @ (h @ b) # bs \<and> concat hs @ h = u \<and> h \<noteq> [] \<and> b @ concat bs = v"
proof (induction g arbitrary: u)
  case (Cons p g)
  then obtain us where "p = u @ us \<and> us @ concat g = v \<or> p @ us = u \<and> concat g = us @ v"
    by (auto simp: append_eq_append_conv2)
  then consider "p = u @ us" "us @ concat g = v" | "us = []" "p = u" "concat g = v" | "us \<noteq> []" "u = p @ us" "concat g = us @ v"
    by (cases "us = []") auto
  then show ?case
  proof cases
    case 3
    then obtain hs h b bs where "g = hs @ (h @ b) # bs" "concat hs @ h = us" "h \<noteq> []" "b @ concat bs = v"
      using Cons.IH [of us] by blast
    then show ?thesis
      using 3(2) by (intro exI [of _ "p # hs"] exI [of _ h] exI [of _ b] exI [of _ bs]) simp
  qed (use Cons.prems(2) in \<open>(intro exI [of _ "[]"] exI [of _ u] exI [of _ us] exI [of _ g], simp)+\<close>)
qed simp

text \<open>The pieces of the scanner never lose the end of the headers.\<close>

lemma cut_good:
  assumes "list_all fm_line_ok ls" "ls \<noteq> []" "concat hs @ h = CHR 0x0D # CHR 0x0A # fm_text ls @ line_end"
    "h \<noteq> []" "piece_ok (concat hs) (h @ b)"
  shows "good_cut h"
proof (rule ccontr)
  assume "\<not> good_cut h"
  then have l: "3 \<le> length h" "length h \<le> 5"
    using assms(4) by (auto simp: good_cut_def)
  obtain ls' l where "ls = ls' @ [l]"
    using assms(2) by (cases ls rule: rev_cases) auto
  moreover obtain name k val where "l = (name, k, val)" by (cases l) auto
  ultimately obtain v where v: "concat hs @ h = v @ [CHR 0x0D, CHR 0x0A, CHR 0x0D, CHR 0x0A]"
    using assms(3) by (auto simp: fm_text_def header_line_def)
  show False
  proof (cases "length h = 3")
    case True
    then have "h = [CHR 0x0A, CHR 0x0D, CHR 0x0A]" "concat hs = v @ [CHR 0x0D]"
      using arg_cong [OF v, of "\<lambda>t. drop (length t - 3) t"] arg_cong [OF v, of "\<lambda>t. take (length t - 3) t"] by simp_all
    then show False
      using assms(5) [unfolded piece_ok_def, rule_format, of "[CHR 0x0A]" "CHR 0x0A # b"] by (simp add: ends_cr_def)
  next
    case False
    then have "h = drop (length (concat hs)) v @ [CHR 0x0D, CHR 0x0A, CHR 0x0D, CHR 0x0A]"
      using l(1) arg_cong [OF v, of length] arg_cong [OF v, of "drop (length (concat hs))"] by simp
    then have hb: "h @ b = (drop (length (concat hs)) v @ [CHR 0x0D, CHR 0x0A]) @ CHR 0x0D # CHR 0x0A # b"
      by simp
    show False
      using assms(5) [unfolded piece_ok_def, rule_format, OF hb] by simp
  qed
qed

section \<open>The part parser and the scanner share nothing but the calls\<close>

definition set_scan :: "string \<Rightarrow> nat \<times> string \<Rightarrow> query_params \<Rightarrow> query_params" where
  "set_scan bd st q = q\<lparr>qp_BoundaryParseCounter := fst st, qp_BoundaryStr := bd, qp_ParseTmp := snd st\<rparr>"

lemma set_scan_simps [simp]:
  "qp_FMParseState (set_scan bd st q) = qp_FMParseState q" "qp_FMParseCounter (set_scan bd st q) = qp_FMParseCounter q"
  "qp_Upload (set_scan bd st q) = qp_Upload q" "qp_HeaderParseTmp (set_scan bd st q) = qp_HeaderParseTmp q"
  "qp_ParamMap (set_scan bd st q) = qp_ParamMap q" "qp_FileMap (set_scan bd st q) = qp_FileMap q"
  "qp_CurrFMPart (set_scan bd st q) = qp_CurrFMPart q" "qp_CurrPartMode (set_scan bd st q) = qp_CurrPartMode q"
  "qp_BoundaryStr (set_scan bd st q) = bd" "qp_BoundaryParseCounter (set_scan bd st q) = fst st" "qp_ParseTmp (set_scan bd st q) = snd st"
  "set_scan bd st (set_scan bd' st' q) = set_scan bd st q"
  by (simp_all add: set_scan_def)

lemma set_scan_self: "set_scan (qp_BoundaryStr q) (qp_BoundaryParseCounter q, qp_ParseTmp q) q = q"
  by (simp add: set_scan_def)

text \<open>Updates of the other fields commute with it.\<close>

lemma set_scan_upd:
  "(set_scan bd st q)\<lparr>qp_FMParseState := a\<rparr> = set_scan bd st (q\<lparr>qp_FMParseState := a\<rparr>)"
  "(set_scan bd st q)\<lparr>qp_FMParseCounter := n\<rparr> = set_scan bd st (q\<lparr>qp_FMParseCounter := n\<rparr>)"
  "(set_scan bd st q)\<lparr>qp_Upload := u\<rparr> = set_scan bd st (q\<lparr>qp_Upload := u\<rparr>)"
  "(set_scan bd st q)\<lparr>qp_HeaderParseTmp := t\<rparr> = set_scan bd st (q\<lparr>qp_HeaderParseTmp := t\<rparr>)"
  "(set_scan bd st q)\<lparr>qp_ParamMap := p\<rparr> = set_scan bd st (q\<lparr>qp_ParamMap := p\<rparr>)"
  "(set_scan bd st q)\<lparr>qp_FileMap := f\<rparr> = set_scan bd st (q\<lparr>qp_FileMap := f\<rparr>)"
  "(set_scan bd st q)\<lparr>qp_CurrFMPart := c\<rparr> = set_scan bd st (q\<lparr>qp_CurrFMPart := c\<rparr>)"
  "(set_scan bd st q)\<lparr>qp_CurrPartMode := m\<rparr> = set_scan bd st (q\<lparr>qp_CurrPartMode := m\<rparr>)"
  by (cases q; simp add: set_scan_def)+

lemma ParseFMHeaders_scan:
  "ParseFMHeaders env h (set_scan bd st q) = map_option (map_prod id (set_scan bd st)) (ParseFMHeaders env h q)"
  by (auto simp: ParseFMHeaders_def set_scan_upd Let_def remove_file_def split: option.split prod.split)

lemma part_loop_scan:
  "part_loop env kept s (set_scan bd st q) = map_option (map_prod id (map_prod id (map_prod id (set_scan bd st)))) (part_loop env kept s q)"
proof (induction env kept s q rule: part_loop.induct)
  case (2 env kept c s q)
  note IH = "2.IH"
  show ?case
  proof (cases "qp_FMParseState q")
    case STATE_HEADERS_END
    show ?thesis
      using IH STATE_HEADERS_END by (simp add: set_scan_upd ParseFMHeaders_scan Let_def split: option.split)
  next
    case STATE_HEADERSTART
    then show ?thesis
      using IH by (auto simp: set_scan_upd)
  qed (simp_all add: set_scan_upd)
qed simp

lemma Append_scan:
  "AppendToCurrentPart env s (set_scan bd st q) = map_option (map_prod id (set_scan bd st)) (AppendToCurrentPart env s q)"
  by (auto simp: AppendToCurrentPart_def part_loop_scan set_scan_upd IsCurrPartValid_def IsCurrPartFile_def append_param_def
      split: option.split prod.split fm_target.split)

lemma mp_apply_scan:
  "mp_apply env cs (set_scan bd st q) = map_option (set_scan bd st) (mp_apply env cs q)"
  by (induction env cs q rule: mp_apply.induct)
    (auto simp: Append_scan StartNewPart_def set_scan_upd split: option.split)

lemma mp_apply_keeps: "mp_apply env cs q = Some q' \<Longrightarrow> qp_BoundaryStr q' = qp_BoundaryStr q"
  using mp_apply_scan [of env cs "qp_BoundaryStr q" "(qp_BoundaryParseCounter q, qp_ParseTmp q)" q]
  by (metis option.inject option.simps(9) set_scan_self set_scan_simps(9))

text \<open>\<open>AppendFormMultipart\<close> on the pieces of a body in turn.\<close>

fun QP_pieces :: "upload_env \<Rightarrow> string list \<Rightarrow> query_params \<Rightarrow> query_params option" where
  "QP_pieces env [] q = Some q"
| "QP_pieces env (x # xs) q = (case QP_AppendFormMultipart env x q of None \<Rightarrow> None | Some q1 \<Rightarrow> QP_pieces env xs q1)"

lemma pieces_apply:
  "\<exists>st. QP_pieces env xs q = map_option (set_scan (qp_BoundaryStr q) st)
     (mp_apply env (scan_pieces (qp_BoundaryStr q) xs (qp_BoundaryParseCounter q, qp_ParseTmp q)) q)"
proof (induction xs arbitrary: q)
  case Nil
  show ?case
    by (intro exI [of _ "(qp_BoundaryParseCounter q, qp_ParseTmp q)"]) (simp add: set_scan_self)
next
  case (Cons x xs)
  let ?bd = "qp_BoundaryStr q"
  obtain st calls where A: "AppendFormMultipart ?bd x (qp_BoundaryParseCounter q, qp_ParseTmp q) = (st, calls)"
    by fastforce
  have own: "qp_BoundaryStr q1 = bd \<Longrightarrow> q1\<lparr>qp_BoundaryParseCounter := fst st, qp_ParseTmp := snd st\<rparr> = set_scan bd st q1" for q1 bd
    by (cases q1) (simp add: set_scan_def)
  have app: "QP_AppendFormMultipart env x q = map_option (set_scan ?bd st) (mp_apply env calls q)"
    using mp_apply_keeps [of env calls q] own
    by (cases "mp_apply env calls q") (simp_all add: QP_AppendFormMultipart_def A case_prod_beta)
  show ?case
  proof (cases "mp_apply env calls q")
    case None
    then show ?thesis
      by (simp add: app A mp_apply_append)
  next
    case (Some q1)
    obtain st' where "QP_pieces env xs (set_scan ?bd st q1) = map_option (set_scan ?bd st') (mp_apply env (scan_pieces ?bd xs st) (set_scan ?bd st q1))"
      using Cons [of "set_scan ?bd st q1"] by auto
    then show ?thesis
      using Some by (intro exI [of _ st']) (simp add: app A mp_apply_append mp_apply_scan option.map_comp comp_def)
  qed
qed

section \<open>A form and what it stores\<close>

record form_part =
  pt_Lines :: "fm_line list"
  pt_Name :: string
  pt_FileName :: "string option"
  pt_Mime :: "string option"
  pt_Content :: string

definition part_wf :: "form_part \<Rightarrow> bool" where
  "part_wf p \<longleftrightarrow> one_disposition (pt_Lines p) (pt_Name p) (pt_FileName p) (pt_Mime p)"

definition part_text :: "form_part \<Rightarrow> string" where
  "part_text p = (CHR 0x0D # CHR 0x0A # fm_text (pt_Lines p) @ line_end) @ pt_Content p"

text \<open>What a user of the class sees: parameters, file entries, and the temporary files.\<close>

record form_store =
  form_Params :: "string \<rightharpoonup> string"
  form_Files :: "string \<rightharpoonup> uploaded_file"
  form_Disk :: "string \<rightharpoonup> string"
  form_Created :: nat

definition form_view :: "query_params \<Rightarrow> form_store" where
  "form_view q = \<lparr>form_Params = qp_ParamMap q, form_Files = qp_FileMap q, form_Disk = up_Files (qp_Upload q),
     form_Created = up_Created (qp_Upload q)\<rparr>"

text \<open>The effect of a part: a field is a parameter; a file is a new temporary file and an entry, and the
  file of an older entry with that name is removed.\<close>

definition store_part :: "(nat \<Rightarrow> string) \<Rightarrow> form_part \<Rightarrow> form_store \<Rightarrow> form_store" where
  "store_part path p st = (case pt_FileName p of
      None \<Rightarrow> st\<lparr>form_Params := (form_Params st)(pt_Name p \<mapsto> pt_Content p)\<rparr>
    | Some fn \<Rightarrow> st\<lparr>
        form_Files := (form_Files st)(pt_Name p \<mapsto> \<lparr>uf_MimeType = (case pt_Mime p of Some t \<Rightarrow> t | None \<Rightarrow> []),
          uf_OrigFileName = fn, uf_Path = path (form_Created st)\<rparr>),
        form_Disk := (case form_Files st (pt_Name p) of None \<Rightarrow> form_Disk st | Some f \<Rightarrow> (form_Disk st)(uf_Path f := None))
          (path (form_Created st) \<mapsto> pt_Content p),
        form_Created := Suc (form_Created st)\<rparr>)"

text \<open>The conditions for files: paths are fresh, the files can be written, and the limits are not exceeded.\<close>

definition file_bytes :: "form_part list \<Rightarrow> nat" where
  "file_bytes parts = sum_list (map (\<lambda>p. if pt_FileName p = None then 0 else length (pt_Content p)) parts)"

definition uploads_fit :: "upload_env \<Rightarrow> (nat \<Rightarrow> string) \<Rightarrow> form_part list \<Rightarrow> query_params \<Rightarrow> bool" where
  "uploads_fit env path parts q \<longleftrightarrow> (\<forall>p \<in> set parts. pt_FileName p = None) \<or>
     (inj path \<and> (\<forall>n. env_path env n = Some (path n, True) \<and> env_write env (path n) \<and> path n \<noteq> [])
      \<and> up_MaxUploadSize (qp_Upload q) \<noteq> 0 \<and> up_MaxTotalUploadSize (qp_Upload q) \<noteq> 0
      \<and> upload_room (qp_Upload q) (file_bytes parts)
      \<and> (\<forall>f \<in> ran (qp_FileMap q). uf_Path f \<noteq> [] \<and> (\<forall>n \<ge> up_Created (qp_Upload q). uf_Path f \<noteq> path n)))"

lemma part_step:
  assumes "part_wf p" "concat g = part_text p" "cuts_ok [] (map AppendPart g)" "uploads_fit env path (p # parts) q"
  shows "\<exists>q'. mp_apply env (part_calls g) q = Some q' \<and> form_view q' = store_part path p (form_view q)
    \<and> uploads_fit env path parts q'"
proof -
  note wf = assms(1) [unfolded part_wf_def]
  note D = one_dispositionD [OF wf]
  let ?t = "CHR 0x0D # CHR 0x0A # fm_text (pt_Lines p) @ line_end"
  obtain hs h b bs where g: "g = hs @ (h @ b) # bs" "concat hs @ h = ?t" "h \<noteq> []" "b @ concat bs = pt_Content p"
    using split_pieces [of g ?t "pt_Content p"] assms(2) by (auto simp: part_text_def)
  have cut: "good_cut h"
    using assms(3) by (intro cut_good [OF D(2,3) g(2,3), of b]) (simp add: g(1))
  show ?thesis
  proof (cases "pt_FileName p")
    case None
    then obtain q' where q': "mp_apply env (part_calls g) q = Some q'" "qp_ParamMap q' = (qp_ParamMap q)(pt_Name p \<mapsto> pt_Content p)"
      "qp_FileMap q' = qp_FileMap q" "qp_Upload q' \<in> {qp_Upload q, OnFileEnd (qp_Upload q)}"
      using field_run [of "pt_Lines p" "pt_Name p" "pt_Mime p" hs h env b bs q] wf g cut by auto
    have "form_view q' = store_part path p (form_view q)" "uploads_fit env path parts q'"
      using q'(2-4) None assms(4)
      by (auto simp: form_view_def store_part_def OnFileEnd_def uploads_fit_def upload_room_def file_bytes_def)
    then show ?thesis
      using q'(1) by blast
  next
    case (Some fn)
    let ?n = "up_Created (qp_Upload q)"
    have F: "inj path" "\<And>n. env_path env n = Some (path n, True) \<and> env_write env (path n) \<and> path n \<noteq> []"
      "up_MaxUploadSize (qp_Upload q) \<noteq> 0" "up_MaxTotalUploadSize (qp_Upload q) \<noteq> 0"
      "upload_room (qp_Upload q) (length (pt_Content p) + file_bytes parts)"
      "\<And>f. f \<in> ran (qp_FileMap q) \<Longrightarrow> uf_Path f \<noteq> [] \<and> (\<forall>n \<ge> ?n. uf_Path f \<noteq> path n)"
      using assms(4) Some by (auto simp: uploads_fit_def file_bytes_def)
    have old: "old_path (pt_Name p) q = [] \<or> old_path (pt_Name p) q \<noteq> path ?n"
      using F(6) by (auto simp: old_path_def ranI split: option.splits)
    have "upload_room (qp_Upload q) (length (b @ concat bs))"
      using F(5) by (simp add: g(4) upload_room_def)
    then obtain q' where q': "mp_apply env (part_calls g) q = Some q'"
      "qp_FileMap q' = (qp_FileMap q)(pt_Name p \<mapsto> \<lparr>uf_MimeType = (case pt_Mime p of Some t \<Rightarrow> t | None \<Rightarrow> []), uf_OrigFileName = fn, uf_Path = path ?n\<rparr>)"
      "qp_ParamMap q' = qp_ParamMap q" "qp_Upload q' = stored_upload (old_path (pt_Name p) q) (path ?n) (pt_Content p) (qp_Upload q)"
      using file_run [of "pt_Lines p" "pt_Name p" fn "pt_Mime p" hs h env q "path ?n" b bs] wf Some g cut F(2-4) old by auto
    have "form_view q' = store_part path p (form_view q)"
      using q'(2-4) Some F(6) by (cases "qp_FileMap q (pt_Name p)")
        (simp_all add: form_view_def store_part_def stored_upload_def old_path_def ranI)
    moreover have "uf_Path f \<noteq> [] \<and> (\<forall>n \<ge> Suc ?n. uf_Path f \<noteq> path n)" if "f \<in> ran (qp_FileMap q')" for f
    proof -
      have "f \<in> ran (qp_FileMap q) \<or> uf_Path f = path ?n"
        using that unfolding q'(2) by (auto simp: ran_def split: if_splits)
      then show ?thesis
        using F(6) [of f] F(2) [of ?n] inj_eq [OF F(1), of ?n] by (metis Suc_leD Suc_n_not_le_n)
    qed
    then have "uploads_fit env path parts q'"
      using F by (auto simp: uploads_fit_def q'(4) stored_upload_def upload_room_def add.assoc)
    ultimately show ?thesis
      using q'(1) by blast
  qed
qed

lemma parts_run:
  assumes "list_all2 (\<lambda>g p. part_wf p \<and> concat g = part_text p \<and> cuts_ok [] (map AppendPart g)) gs parts"
    "uploads_fit env path parts q"
  shows "\<exists>q'. mp_apply env (concat (map part_calls gs)) q = Some q' \<and> form_view q' = fold (store_part path) parts (form_view q)"
  using assms
proof (induction gs parts arbitrary: q rule: list_all2_induct)
  case (Cons g gs p parts)
  then obtain q1 where q1: "mp_apply env (part_calls g) q = Some q1" "form_view q1 = store_part path p (form_view q)"
    "uploads_fit env path parts q1"
    using part_step [of p g env path parts q] by blast
  then obtain q' where "mp_apply env (concat (map part_calls gs)) q1 = Some q'"
    "form_view q' = fold (store_part path) parts (form_view q1)"
    using Cons.IH by blast
  then show ?case
    using q1 mp_apply_append [of env "part_calls g" "concat (map part_calls gs)" q] by simp
qed simp

lemma empty_pieces: "concat g = [] \<Longrightarrow> mp_apply env (map AppendPart g) q = Some q"
  by (induction g) (simp_all add: AppendToCurrentPart_def)

text \<open>Behind the last boundary: the two hyphens, and what follows them.\<close>

definition closing :: "query_params \<Rightarrow> string \<Rightarrow> bool" where
  "closing q t \<longleftrightarrow> qp_FMParseState q = STATE_FINISHED
     \<or> qp_FMParseState q = STATE_HEADERSTART
       \<and> (qp_FMParseCounter q = 0 \<and> (t = [] \<or> t = ''-'' \<or> (\<exists>r. t = CHR ''-'' # CHR ''-'' # r))
        \<or> qp_FMParseCounter q = 1 \<and> (t = [] \<or> (\<exists>r. t = CHR ''-'' # r)))"

lemma closing_piece:
  assumes "closing q (p @ t)"
  shows "\<exists>r q'. AppendToCurrentPart env p q = Some (r, q') \<and> closing q' t \<and> form_view q' = form_view q"
proof (cases "p = [] \<or> qp_FMParseState q = STATE_FINISHED")
  case True
  then show ?thesis
    using assms by (intro exI [of _ True] exI [of _ q]) (auto simp: AppendToCurrentPart_def closing_def)
next
  case False
  have fin: "\<exists>r k q'. part_loop env kept s (q\<lparr>qp_FMParseCounter := n, qp_FMParseState := STATE_FINISHED, qp_Upload := OnFileEnd (qp_Upload q)\<rparr>) =
      Some (r, k, s, q') \<and> qp_FMParseState q' = STATE_FINISHED \<and> form_view q' = form_view q" for kept s n
    by (cases s) (auto simp: form_view_def OnFileEnd_def)
  then have fin1: "\<exists>r k q'. part_loop env kept s (q\<lparr>qp_FMParseState := STATE_FINISHED, qp_Upload := OnFileEnd (qp_Upload q)\<rparr>) =
      Some (r, k, s, q') \<and> qp_FMParseState q' = STATE_FINISHED \<and> form_view q' = form_view q" for kept s
    by (cases s) (auto simp: form_view_def OnFileEnd_def)
  consider "p = ''-''" "qp_FMParseCounter q = 0" "t = [] \<or> (\<exists>r. t = CHR ''-'' # r)"
    | r where "p = CHR ''-'' # CHR ''-'' # r" "qp_FMParseCounter q = 0"
    | r where "p = CHR ''-'' # r" "qp_FMParseCounter q = 1"
    using assms False by (auto simp: closing_def append_eq_Cons_conv Cons_eq_append_conv)
  then show ?thesis
  proof cases
    case 1
    then show ?thesis
      using assms False by (auto simp: AppendToCurrentPart_def closing_def form_view_def)
  next
    case (2 r)
    from fin [of "''--''" r 1] obtain a k q' where "part_loop env ''--'' r (q\<lparr>qp_FMParseCounter := 1, qp_FMParseState := STATE_FINISHED,
        qp_Upload := OnFileEnd (qp_Upload q)\<rparr>) = Some (a, k, r, q')" "qp_FMParseState q' = STATE_FINISHED" "form_view q' = form_view q"
      by blast
    then show ?thesis
      using 2 assms False by (cases a) (auto simp: AppendToCurrentPart_def closing_def)
  next
    case (3 r)
    from fin1 [of "''-''" r] obtain a k q' where "part_loop env ''-'' r (q\<lparr>qp_FMParseState := STATE_FINISHED,
        qp_Upload := OnFileEnd (qp_Upload q)\<rparr>) = Some (a, k, r, q')" "qp_FMParseState q' = STATE_FINISHED" "form_view q' = form_view q"
      by blast
    then show ?thesis
      using 3 assms False by (cases a) (auto simp: AppendToCurrentPart_def closing_def)
  qed
qed

lemma closing_run:
  "closing q (concat g) \<Longrightarrow> \<exists>q'. mp_apply env (map AppendPart g) q = Some q' \<and> form_view q' = form_view q"
proof (induction g arbitrary: q)
  case (Cons p g)
  obtain r q1 where "AppendToCurrentPart env p q = Some (r, q1)" "closing q1 (concat g)" "form_view q1 = form_view q"
    using closing_piece [of q p "concat g" env] Cons.prems by auto
  then show ?case
    using Cons.IH [of q1] by simp
qed simp

text \<open>The text of a form, as a browser sends it.\<close>

definition form_body :: "string \<Rightarrow> form_part list \<Rightarrow> string \<Rightarrow> string" where
  "form_body boundary parts epilogue = ''--'' @ boundary
     @ concat (map (\<lambda>p. p @ OnBoundaryParsed boundary) (map part_text parts)) @ ''--'' @ epilogue"

definition form_wf :: "string \<Rightarrow> form_part list \<Rightarrow> string \<Rightarrow> bool" where
  "form_wf boundary parts epilogue \<longleftrightarrow> CHR 0x0D \<notin> set boundary \<and> list_all part_wf parts
     \<and> (\<forall>t \<in> set (map part_text parts). \<not> sublist (OnBoundaryParsed boundary) t)
     \<and> \<not> sublist (OnBoundaryParsed boundary) (''--'' @ epilogue)"

lemma form_run:
  assumes "form_wf boundary parts epilogue" "uploads_fit env path parts q" "concat pieces = form_body boundary parts epilogue"
  shows "\<exists>q'. mp_apply env (scan_pieces (OnBoundaryParsed boundary) pieces (2, [])) q = Some q'
    \<and> form_view q' = fold (store_part path) parts (form_view q)"
proof -
  let ?bd = "OnBoundaryParsed boundary" and ?ps = "map part_text parts"
  let ?cs = "scan_pieces ?bd pieces (2, [])"
  note wf = assms(1) [unfolded form_wf_def]
  have B: "boundary_ok ?bd" "parts_of ?bd pieces = snd (snd (fold (ref_step ?bd) (''--'' @ epilogue) (0, [], ([] # ?ps) @ [[]])))"
    using body_ref [of boundary ?ps pieces "''--'' @ epilogue"] wf assms(3) by (auto simp: form_body_def)
  from ref_inside [OF B(1), of "''--'' @ epilogue" "([] # ?ps) @ [[]]"] wf obtain m e where
    e: "fold (ref_step ?bd) (''--'' @ epilogue) (0, [], ([] # ?ps) @ [[]]) = (m, take m ?bd, add_part e (([] # ?ps) @ [[]]))"
      "e @ take m ?bd = ''--'' @ epilogue"
    by blast
  then have "fold play ?cs [[]] = ([] # ?ps) @ [e]"
    using B(2) by (simp add: parts_of_def add_part_def)
  from play_groups [OF this] obtain g0 gs where G: "?cs = map AppendPart g0 @ concat (map part_calls gs)"
    "concat g0 = []" "map concat gs = ?ps @ [e]"
    by auto
  then obtain gs' gl where gs: "gs = gs' @ [gl]" "map concat gs' = ?ps" "concat gl = e"
    by (cases gs rule: rev_cases) auto
  have cuts: "\<forall>g \<in> set gs. cuts_ok [] (map AppendPart g)"
    using scan_cut_start [OF B(1), of pieces] G(1) by (simp add: OnBoundaryParsed_def cuts_ok_groups)
  have "list_all2 (\<lambda>g p. concat g = part_text p) gs' parts"
    using gs(2) by (simp add: list_all2_eq list.rel_map)
  then have "list_all2 (\<lambda>g p. part_wf p \<and> concat g = part_text p \<and> cuts_ok [] (map AppendPart g)) gs' parts"
    using cuts wf gs(1) by (elim list.rel_mono_strong) (auto simp: list_all_iff)
  from parts_run [OF this assms(2)] obtain q1 where q1: "mp_apply env (concat (map part_calls gs')) q = Some q1"
    "form_view q1 = fold (store_part path) parts (form_view q)"
    by blast
  have "hd (take m ?bd) = CHR 0x0D \<or> take m ?bd = []"
    by (cases m) (simp_all add: OnBoundaryParsed_def)
  then have "e = [] \<or> e = ''-'' \<or> (\<exists>r. e = CHR ''-'' # CHR ''-'' # r)"
    using e(2) by (cases e; cases "tl e") auto
  then have "closing (StartNewPart q1) (concat gl)"
    by (simp add: closing_def StartNewPart_def gs(3))
  from closing_run [OF this, of env] obtain q' where "mp_apply env (map AppendPart gl) (StartNewPart q1) = Some q'"
    "form_view q' = form_view (StartNewPart q1)"
    by blast
  then show ?thesis
    using q1 G(1) empty_pieces [OF G(2), of env q]
    by (simp add: gs(1) mp_apply_append StartNewPart_def form_view_def)
qed

text \<open>The same for the calls of \<open>AppendFormMultipart\<close>.\<close>

lemma form_pieces:
  assumes "form_wf boundary parts epilogue" "uploads_fit env path parts q" "concat pieces = form_body boundary parts epilogue"
    "qp_BoundaryStr q = OnBoundaryParsed boundary" "qp_BoundaryParseCounter q = 2" "qp_ParseTmp q = []"
  shows "\<exists>q'. QP_pieces env pieces q = Some q' \<and> form_view q' = fold (store_part path) parts (form_view q)"
proof -
  obtain q' where q': "mp_apply env (scan_pieces (OnBoundaryParsed boundary) pieces (2, [])) q = Some q'"
    "form_view q' = fold (store_part path) parts (form_view q)"
    using form_run [OF assms(1-3)] by blast
  have "form_view (set_scan bd st q') = form_view q'" for bd st
    by (simp add: form_view_def)
  then show ?thesis
    using pieces_apply [of env pieces q] q' by (auto simp: assms(4-6))
qed

section \<open>Properties\<close>

text \<open>C13: a multipart form is stored as it was sent, in whatever pieces the body arrives. For a form of any
  number of fields and files, whose texts do not contain the boundary, the parameters, the file entries
  and the temporary files afterwards are those of the specification: every part stores its content, in
  order, under its name. For files the paths must be new and the limits large enough.\<close>

theorem multipart_form_stored:
  assumes "form_wf boundary parts epilogue" "uploads_fit env path parts q" "concat pieces = form_body boundary parts epilogue"
    "qp_BoundaryStr q = OnBoundaryParsed boundary" "qp_BoundaryParseCounter q = 2" "qp_ParseTmp q = []"
  shows "\<exists>q'. QP_pieces env pieces q = Some q' \<and> form_view q' = fold (store_part path) parts (form_view q)"
  by (rule form_pieces [OF assms])

text \<open>A form with a field and a file.\<close>

definition sample_form :: "form_part list" where
  "sample_form = [\<lparr>pt_Lines = [cd_line ''u'' None], pt_Name = ''u'', pt_FileName = None, pt_Mime = None, pt_Content = ''Jo''\<rparr>,
     \<lparr>pt_Lines = [cd_line ''f'' (Some ''a'')], pt_Name = ''f'', pt_FileName = Some ''a'', pt_Mime = None, pt_Content = ''Hi''\<rparr>]"

definition sample_uploads :: upload_env where
  "sample_uploads = \<lparr>env_path = (\<lambda>n. Some (replicate (Suc n) (CHR ''t''), True)), env_write = (\<lambda>_. True)\<rparr>"

definition sample_path :: "nat \<Rightarrow> string" where
  "sample_path n = replicate (Suc n) (CHR ''t'')"

lemma sample_form_wf: "form_wf ''X'' sample_form line_end"
proof -
  have "part_wf p" if "p \<in> set sample_form" for p
    using that cd_line_single [of "''u''" None] cd_line_single [of "''f''" "Some ''a''"]
    by (auto simp: sample_form_def part_wf_def cd_text_ok_def cd_value_def dkv_last_def)
  then show ?thesis
    by (simp add: form_wf_def list_all_iff) (simp add: sample_form_def part_text_def fm_text_def cd_line_def cd_value_def
      dkv_last_def header_line_def OnBoundaryParsed_def sublist_code)
qed

lemma sample_form_fits:
  "qp_Upload q = upload_init 100 100 \<Longrightarrow> qp_FileMap q = Map.empty \<Longrightarrow> uploads_fit sample_uploads sample_path sample_form q"
  by (simp add: uploads_fit_def sample_uploads_def sample_path_def file_bytes_def sample_form_def upload_room_def upload_init_def UINTMAX_def inj_def)

theorem multipart_form_stored_witness:
  "\<exists>q'. QP_pieces sample_uploads [take 50 (form_body ''X'' sample_form line_end), drop 50 (form_body ''X'' sample_form line_end)]
      ((qp_init 7 (upload_init 100 100))\<lparr>qp_BoundaryStr := OnBoundaryParsed ''X''\<rparr>) = Some q'
    \<and> qp_ParamMap q' = [''u'' \<mapsto> ''Jo''] \<and> up_Files (qp_Upload q') = [''t'' \<mapsto> ''Hi'']"
proof -
  let ?q = "(qp_init 7 (upload_init 100 100))\<lparr>qp_BoundaryStr := OnBoundaryParsed ''X''\<rparr>"
  let ?b = "form_body ''X'' sample_form line_end"
  have v: "form_view ?q = \<lparr>form_Params = Map.empty, form_Files = Map.empty, form_Disk = Map.empty, form_Created = 0\<rparr>"
    by (simp add: form_view_def qp_init_def upload_init_def)
  obtain q' where "QP_pieces sample_uploads [take 50 ?b, drop 50 ?b] ?q = Some q'" "form_view q' = fold (store_part sample_path) sample_form (form_view ?q)"
    using multipart_form_stored [OF sample_form_wf sample_form_fits, of ?q "[take 50 ?b, drop 50 ?b]"] by (auto simp: qp_init_def)
  then show ?thesis
    unfolding v by (auto simp: form_view_def store_part_def sample_form_def sample_path_def)
qed

end
