(* ===== verification/FormPost.thy ===== *)
theory FormPost
  imports HttpProtocol MultipartForm
begin

text \<open>
  A multipart form sent to the server: the block loop of \<open>ContentHandler\<close> (Connection.cpp) hands what each
  read brings to the query parameters. Together with MultipartForm: every field and file of the form is stored,
  in whatever segments the request arrives, and nothing behind the content is taken.
\<close>

section \<open>The block loop\<close>

lemma RequestData_position:
  assumes "srb_inv b" "srb_may_request n b"
  shows "rb_ReqDataEndPos (snd (RequestData junk n b)) \<le> rb_ReqDataEndPos b + n"
    "rb_DataEndPos (snd (RequestData junk n b)) \<le> rb_DataEndPos b"
    "rb_RelevantLength (snd (RequestData junk n b)) = rb_RelevantLength b"
proof -
  let ?g = "GetAvailableDataLength b"
  consider (enough) "n \<le> ?g" | (place) "?g < n" "rb_ReqDataEndPos b + (n - ?g) \<le> length (rb_buf b)"
    | (shift) "?g < n" "length (rb_buf b) < rb_ReqDataEndPos b + (n - ?g)"
    by linarith
  then have "rb_ReqDataEndPos (snd (RequestData junk n b)) \<le> rb_ReqDataEndPos b + n
    \<and> rb_DataEndPos (snd (RequestData junk n b)) \<le> rb_DataEndPos b \<and> rb_RelevantLength (snd (RequestData junk n b)) = rb_RelevantLength b"
  proof cases
    case enough
    then show ?thesis by (simp add: RequestData_enough)
  next
    case place
    then show ?thesis by (simp add: RequestData_in_place [OF assms])
  next
    case shift
    from RequestData_shifted [OF assms shift, of junk] show ?thesis by auto
  qed
  then show "rb_ReqDataEndPos (snd (RequestData junk n b)) \<le> rb_ReqDataEndPos b + n"
    "rb_DataEndPos (snd (RequestData junk n b)) \<le> rb_DataEndPos b" "rb_RelevantLength (snd (RequestData junk n b)) = rb_RelevantLength b"
    by blast+
qed

lemma RequestData_grows:
  assumes "srb_inv b" "srb_may_request n b"
  shows "rb_ReqDataEndPos (snd (RequestData junk n b)) \<le> rb_ReqDataEndPos b + (n - GetAvailableDataLength b)"
    "length (rb_buf b) \<le> length (rb_buf (snd (RequestData junk n b)))"
    "length (rb_buf (snd (RequestData junk n b))) \<le> max (length (rb_buf b)) (rb_ReqDataEndPos b + n + 1023)"
proof -
  let ?g = "GetAvailableDataLength b"
  consider (enough) "n \<le> ?g" | (place) "?g < n" "rb_ReqDataEndPos b + (n - ?g) \<le> length (rb_buf b)"
    | (shift) "?g < n" "length (rb_buf b) < rb_ReqDataEndPos b + (n - ?g)"
    by linarith
  then have "rb_ReqDataEndPos (snd (RequestData junk n b)) \<le> rb_ReqDataEndPos b + (n - ?g)
    \<and> length (rb_buf b) \<le> length (rb_buf (snd (RequestData junk n b)))
    \<and> length (rb_buf (snd (RequestData junk n b))) \<le> max (length (rb_buf b)) (rb_ReqDataEndPos b + n + 1023)"
  proof cases
    case enough
    then show ?thesis by (simp add: RequestData_enough)
  next
    case place
    then show ?thesis by (simp add: RequestData_in_place [OF assms])
  next
    case shift
    have "rb_ReqDataEndPos b + (n - ?g) + 1023 \<le> rb_ReqDataEndPos b + n + 1023" by simp
    with RequestData_shifted [OF assms shift, of junk] show ?thesis by fastforce
  qed
  then show "rb_ReqDataEndPos (snd (RequestData junk n b)) \<le> rb_ReqDataEndPos b + (n - ?g)"
    "length (rb_buf b) \<le> length (rb_buf (snd (RequestData junk n b)))"
    "length (rb_buf (snd (RequestData junk n b))) \<le> max (length (rb_buf b)) (rb_ReqDataEndPos b + n + 1023)"
    by blast+
qed

text \<open>Every round asks for up to 16 KiB more, whatever the reads before have brought. The positions do
  not overflow as long as there are not too many segments.\<close>

definition read_limit :: "char srb \<Rightarrow> string list \<Rightarrow> nat" where
  "read_limit b i = rb_ReqDataEndPos b + HTTP_ReadBuffSize * length i + length (concat i)"

definition reads_ok :: "char srb \<Rightarrow> string list \<Rightarrow> bool" where
  "reads_ok b i \<longleftrightarrow> srb_inv b \<and> [] \<notin> set i \<and> read_limit b i + HTTP_ReadBuffSize + 1023 < U32"

definition blocks_ok :: "char srb \<Rightarrow> string list \<Rightarrow> bool" where
  "blocks_ok b i \<longleftrightarrow> reads_ok b i \<and> rb_RelevantLength b = 0"

text \<open>One more read, behind a block that is taken whole.\<close>

lemma block_read:
  assumes "blocks_ok b i" "i \<noteq> []" "0 < n" "n \<le> HTTP_ReadBuffSize"
  shows "\<exists>b' i'. ContinueRead (io (snd (RequestData junk n (snd (Consume (length (GetAvailableData b)) False b)))) i t c) = Ret () (io b' i' 0 c)
    \<and> blocks_ok b' i' \<and> GetAvailableData b' @ concat i' = concat i \<and> length (concat i') < length (concat i)"
proof -
  let ?b0 = "snd (Consume (length (GetAvailableData b)) False b)"
  let ?b1 = "snd (RequestData junk n ?b0)"
  have b: "srb_inv b" "[] \<notin> set i" "read_limit b i + HTTP_ReadBuffSize + 1023 < U32" "rb_RelevantLength b = 0"
    using assms(1) by (simp_all add: blocks_ok_def reads_ok_def)
  have b0: "srb_inv ?b0" "GetAvailableData ?b0 = []" "rb_ReqDataEndPos ?b0 = rb_ReqDataEndPos b"
      "rb_DataEndPos ?b0 = rb_DataEndPos b" "rb_RelevantLength ?b0 = 0"
    using Consume_inv [OF b(1)] Consume_ready [OF b(1), of "length (GetAvailableData b)" False]
    by (blast, simp, simp_all add: Consume_state [OF b(1)] b(4))
  have may: "srb_may_request n ?b0"
    using b(3) assms(4) by (simp add: srb_may_request_def b0(3) read_limit_def)
  note R = RequestData_sound [OF b0(1) may, of junk]
  have b1: "srb_inv ?b1" "GetAvailableData ?b1 = []" "n \<le> srb_room ?b1" "rb_ReqDataEndPos ?b1 \<le> rb_ReqDataEndPos b + n"
      "rb_DataEndPos ?b1 \<le> rb_ReqDataEndPos b" "rb_RelevantLength ?b1 = 0"
    using R b0(2-5) assms(3) RequestData_position [OF b0(1) may, of junk] srb_invD(5) [OF b(1)] by auto
  have room: "rb_DataEndPos ?b1 < length (rb_buf ?b1)"
    using b1(3) assms(3) srb_room_eq [OF b1(1)] by linarith
  obtain y i' where y: "ContinueRead (io ?b1 i t c) = Ret () (io (srb_feed y ?b1) i' 0 c)" "y \<noteq> []" "y @ concat i' = concat i"
      "[] \<notin> set i'" "length y \<le> srb_room ?b1" "length i' < length i \<or> length y = srb_room ?b1 \<and> length i' = length i"
    using read_some [OF b1(1) room assms(2) b(2), of t c] by blast
  let ?b' = "srb_feed y ?b1"
  have f: "srb_inv ?b'" "GetAvailableData ?b' = y"
    using srb_feed_inv [OF b1(1) y(5)] srb_feed_ready [OF b1(1) y(5)] b1(2) by simp_all
  have l: "length (concat i) = length y + length (concat i')"
    using arg_cong [OF y(3), of length] by simp
  have "rb_ReqDataEndPos ?b' = max (rb_ReqDataEndPos ?b1) (rb_DataEndPos ?b1 + length y)"
    using srb_feed_state [OF b1(1) y(5)] by simp
  then have p: "rb_ReqDataEndPos ?b' \<le> rb_ReqDataEndPos b + max n (length y)"
    using b1(4,5) by linarith
  have "read_limit ?b' i' \<le> read_limit b i"
    using y(6)
  proof
    assume "length i' < length i"
    then have "HTTP_ReadBuffSize * length i' + HTTP_ReadBuffSize \<le> HTTP_ReadBuffSize * length i"
      by (metis Suc_leI mult_Suc_right mult_le_mono2 add.commute)
    then show ?thesis
      using p assms(4) l by (simp add: read_limit_def max_def split: if_splits)
  next
    assume "length y = srb_room ?b1 \<and> length i' = length i"
    then show ?thesis
      using p b1(3) l by (simp add: read_limit_def max_def split: if_splits)
  qed
  then have "blocks_ok ?b' i'"
    using f(1) y(4) b(3) b1(6) srb_feed_state [OF b1(1) y(5)] by (simp add: blocks_ok_def reads_ok_def)
  then show ?thesis
    using y(1,2,3) f(2) l by (intro exI [of _ ?b'] exI [of _ i']) simp
qed

text \<open>The loop: the content in pieces, and the rest of the stream as it was.\<close>

lemma io_query: "(io b i t c)\<lparr>cn_CurrQuery := q, cn_ReadBuff := b'\<rparr> = io b' i t (c\<lparr>cn_CurrQuery := q\<rparr>)"
  by (cases c) (simp add: io_def)

lemma multipart_blocks:
  assumes "blocks_ok b i" "Suc (length (concat i)) < fuel" "n \<le> length (GetAvailableData b @ concat i)"
  shows "\<exists>pieces. concat pieces = take n (GetAvailableData b @ concat i) \<and> (\<forall>q. QP_pieces (ce_Upload env) pieces (cn_CurrQuery c) = Some q \<longrightarrow>
    (\<exists>b' i' t'. multipart_loop env fuel n (io b i t c) = Ret () (io b' i' t' (c\<lparr>cn_CurrQuery := q\<rparr>))
      \<and> blocks_ok b' i' \<and> GetAvailableData b' @ concat i' = drop n (GetAvailableData b @ concat i)))"
  using assms
proof (induction fuel arbitrary: b i t c n)
  case (Suc fuel)
  let ?a = "GetAvailableData b"
  have inv: "srb_inv b"
    using Suc.prems(1) by (simp add: blocks_ok_def reads_ok_def)
  consider (none) "n = 0" | (last) "0 < n" "n \<le> length ?a" | (more) "length ?a < n"
    by linarith
  then show ?case
  proof cases
    case none
    then show ?thesis
      using Suc.prems(1) by (intro exI [of _ "[]"]) (auto simp: io_def)
  next
    case last
    have "length ?a < U32"
      using length_GetAvailableData [OF inv] GetAvailableDataLength_eq [OF inv] srb_invD(7) [OF inv] by simp
    then have u: "u32_of n = n"
      using last by (simp add: u32_of_exact)
    obtain f where f: "fuel = Suc f"
      using Suc.prems(2) by (cases fuel) auto
    let ?b = "snd (Consume n False b)"
    have "multipart_loop env (Suc fuel) n (io b i t c) = Ret () (io ?b i t (c\<lparr>cn_CurrQuery := q\<rparr>))"
      if "QP_AppendFormMultipart (ce_Upload env) (take n ?a) (cn_CurrQuery c) = Some q" for q
      using last that by (simp add: f u io_updates io_query)
    moreover have "blocks_ok ?b i"
      using Suc.prems(1) Consume_inv [OF inv, of n False] Consume_state [OF inv, of n False] by (simp add: blocks_ok_def reads_ok_def read_limit_def)
    ultimately show ?thesis
      using last Consume_ready [OF inv, of n False]
      by (intro exI [of _ "[take n ?a]"]) (auto split: option.splits)
  next
    case more
    then have i: "i \<noteq> []"
      using Suc.prems(3) by auto
    let ?rest = "n - length ?a"
    let ?k = "if ?rest < HTTP_ReadBuffSize then u32_of ?rest else HTTP_ReadBuffSize"
    have k: "0 < ?k" "?k \<le> HTTP_ReadBuffSize"
      using more by (simp_all add: HTTP_ReadBuffSize_def u32_of_exact)
    show ?thesis
    proof (cases "QP_AppendFormMultipart (ce_Upload env) ?a (cn_CurrQuery c)")
      case None
      then show ?thesis
        using more by (intro exI [of _ "[?a, take ?rest (concat i)]"]) simp
    next
      case (Some q)
      let ?c = "c\<lparr>cn_CurrQuery := q\<rparr>"
      obtain b1 i1 where r: "ContinueRead (io (snd (RequestData (ce_Junk env) ?k (snd (Consume (length ?a) False b)))) i t ?c) = Ret () (io b1 i1 0 ?c)"
        "blocks_ok b1 i1" "GetAvailableData b1 @ concat i1 = concat i" "length (concat i1) < length (concat i)"
        using block_read [OF Suc.prems(1) i k, of "ce_Junk env" t ?c] by blast
      have "Suc (length (concat i1)) < fuel" "?rest \<le> length (GetAvailableData b1 @ concat i1)"
        using r(4) Suc.prems(2,3) by (simp_all add: r(3))
      then obtain pieces where p: "concat pieces = take ?rest (concat i)"
        "\<And>q'. QP_pieces (ce_Upload env) pieces q = Some q' \<Longrightarrow> (\<exists>b' i' t'. multipart_loop env fuel ?rest (io b1 i1 0 ?c) = Ret () (io b' i' t' (?c\<lparr>cn_CurrQuery := q'\<rparr>))
          \<and> blocks_ok b' i' \<and> GetAvailableData b' @ concat i' = drop ?rest (concat i))"
        using Suc.IH [OF r(2), of ?rest ?c 0] unfolding r(3) by auto
      have "multipart_loop env (Suc fuel) n (io b i t c) = multipart_loop env fuel ?rest (io b1 i1 0 ?c)"
        using more r(1) Some by (simp add: io_updates io_query Let_def)
      then show ?thesis
        using more p Some by (intro exI [of _ "?a # pieces"]) simp
    qed
  qed
qed simp

text \<open>The whole handler, with the state it leaves.\<close>

lemma multipart_received:
  assumes "filter content_header (cn_HeaderA c) = [ht, hl] \<or> filter content_header (cn_HeaderA c) = [hl, ht]"
    "hd_IntName ht = HN_CONTENT_TYPE" "hd_IntName hl = HN_CONTENT_LENGTH" "GetULongLong hl = Some (Inr n)"
    "GetContentType ht (qp_BoundaryStr (cn_CurrQuery c)) = Some (CT_FORM_MULTIPART, bd)" "n \<le> cc_MaxPostBodyLength (ce_Conf env)"
    "\<forall>h \<in> set (cn_HeaderA c). hd_Value h \<noteq> None"
    "reads_ok (cn_ReadBuff c) (cn_In c)" "Suc (length (concat (cn_In c))) < ce_Fuel env"
    "form_wf bd parts epilogue" "uploads_fit (ce_Upload env) path parts (cn_CurrQuery c)"
    "qp_BoundaryParseCounter (cn_CurrQuery c) = 2" "qp_ParseTmp (cn_CurrQuery c) = []"
    "stream c = form_body bd parts epilogue @ rest" "n = length (form_body bd parts epilogue)"
  shows "\<exists>b i t q. ContentHandler env c = Ret True (io b i t ((save_headers (content_start n bd c))\<lparr>cn_CurrQuery := q\<rparr>))
    \<and> blocks_ok b i \<and> GetAvailableData b @ concat i = rest \<and> form_view q = fold (store_part path) parts (form_view (cn_CurrQuery c))"
proof -
  let ?q = "(cn_CurrQuery c)\<lparr>qp_BoundaryStr := OnBoundaryParsed bd\<rparr>" and ?b = "ResetRelevant (cn_ReadBuff c)"
  let ?c = "save_headers (content_start n bd c)"
  have inv: "srb_inv (cn_ReadBuff c)"
    using assms(8) by (simp add: reads_ok_def)
  have b: "blocks_ok ?b (cn_In c)" "GetAvailableData ?b @ concat (cn_In c) = form_body bd parts epilogue @ rest"
  proof -
    have "rb_ReqDataEndPos ?b = rb_ReqDataEndPos (cn_ReadBuff c)" "rb_RelevantLength ?b = 0"
      using srb_invD(1) [OF inv] by (auto simp: ResetRelevant_def Let_def)
    then show "blocks_ok ?b (cn_In c)"
      using assms(8) ResetRelevant_inv [OF inv] by (simp add: blocks_ok_def reads_ok_def read_limit_def)
    show "GetAvailableData ?b @ concat (cn_In c) = form_body bd parts epilogue @ rest"
      using ResetRelevant_ready [OF inv] assms(14) by (simp add: stream_def)
  qed
  have c: "io ?b (cn_In c) (cn_SilentTime c) ?c = ?c" "cn_CurrQuery ?c = ?q"
    by (simp_all add: save_headers_def content_start_def io_def Let_def)
  obtain pieces where p: "concat pieces = form_body bd parts epilogue"
    "\<And>q. QP_pieces (ce_Upload env) pieces ?q = Some q \<Longrightarrow> (\<exists>b' i' t'. multipart_loop env (ce_Fuel env) n ?c = Ret () (io b' i' t' (?c\<lparr>cn_CurrQuery := q\<rparr>))
      \<and> blocks_ok b' i' \<and> GetAvailableData b' @ concat i' = rest)"
    using multipart_blocks [OF b(1) assms(9), of n env ?c "cn_SilentTime c"] unfolding b(2) c by (auto simp: assms(15))
  have "uploads_fit (ce_Upload env) path parts ?q" "form_view ?q = form_view (cn_CurrQuery c)"
    using assms(11) by (simp_all add: uploads_fit_def form_view_def)
  then obtain q where q: "QP_pieces (ce_Upload env) pieces ?q = Some q"
    "form_view q = fold (store_part path) parts (form_view (cn_CurrQuery c))"
    using form_pieces [OF assms(10) _ p(1), of "ce_Upload env" path ?q] assms(12,13) by auto
  then obtain b' i' t' where l: "multipart_loop env (ce_Fuel env) n ?c = Ret () (io b' i' t' (?c\<lparr>cn_CurrQuery := q\<rparr>))"
    "blocks_ok b' i'" "GetAvailableData b' @ concat i' = rest"
    using p(2) by blast
  have "content_headers (cn_HeaderA c) CT_UNKNOWN False False c = Ret (CT_FORM_MULTIPART, True) (c\<lparr>cn_ContentLength := n, cn_CurrQuery := ?q\<rparr>)"
    by (rule content_headers_found [OF assms(1-5)])
  moreover have "0 < n"
    by (simp add: assms(15) form_body_def)
  ultimately have "ContentHandler env c = Ret True (io b' i' t' (?c\<lparr>cn_CurrQuery := q\<rparr>))"
    using assms(6) l(1) assms(7) by (auto simp: ContentHandler_def content_start_def Let_def)
  then show ?thesis
    using l(2,3) q(2) by blast
qed

section \<open>Properties\<close>

text \<open>C4: a posted form is stored. For a request with a multipart content type and the length of the form, the
  handler waits for the content, in whatever segments it arrives, and leaves in the query parameters
  exactly what the form holds: every field is a parameter, every file an entry with its temporary file.
  What follows the content stays in the stream for the next request.\<close>

theorem multipart_post_received:
  assumes "filter content_header (cn_HeaderA c) = [ht, hl] \<or> filter content_header (cn_HeaderA c) = [hl, ht]"
    "hd_IntName ht = HN_CONTENT_TYPE" "hd_IntName hl = HN_CONTENT_LENGTH" "GetULongLong hl = Some (Inr n)"
    "GetContentType ht (qp_BoundaryStr (cn_CurrQuery c)) = Some (CT_FORM_MULTIPART, bd)" "n \<le> cc_MaxPostBodyLength (ce_Conf env)"
    "\<forall>h \<in> set (cn_HeaderA c). hd_Value h \<noteq> None" "reads_ok (cn_ReadBuff c) (cn_In c)" "Suc (length (concat (cn_In c))) < ce_Fuel env"
    "form_wf bd parts epilogue" "uploads_fit (ce_Upload env) path parts (cn_CurrQuery c)"
    "qp_BoundaryParseCounter (cn_CurrQuery c) = 2" "qp_ParseTmp (cn_CurrQuery c) = []"
    "stream c = form_body bd parts epilogue @ rest" "n = length (form_body bd parts epilogue)"
  shows "\<exists>c'. ContentHandler env c = Ret True c' \<and> stream c' = rest
    \<and> form_view (cn_CurrQuery c') = fold (store_part path) parts (form_view (cn_CurrQuery c))"
  using multipart_received [OF assms] by (auto simp: stream_def io_updates)

text \<open>The sample form, of which twenty characters are in the buffer, in two segments, with the next request behind it.\<close>

definition sample_body :: string where
  "sample_body = form_body ''X'' sample_form line_end"

definition sample_type :: header where
  "sample_type = \<lparr>hd_Name = ''content-type'', hd_Value = Some (''multipart/form-data'' @ CHR '';'' # '' '' @ dkv_last ''boundary'' False ''X''),
     hd_IntName = HN_CONTENT_TYPE\<rparr>"

definition sample_length :: header where
  "sample_length = \<lparr>hd_Name = ''content-length'', hd_Value = Some (dec (length sample_body)), hd_IntName = HN_CONTENT_LENGTH\<rparr>"

definition form_env :: conn_env where
  "form_env = sample_env\<lparr>ce_Upload := sample_uploads, ce_Fuel := 1000\<rparr>"

definition sample_form_post :: conn where
  "sample_form_post = (conn_init form_env (upload_init 100 100) 0
     [take 50 (drop 20 sample_body), drop 70 sample_body @ ''GET''])\<lparr>cn_HeaderA := [sample_type, sample_length],
     cn_ReadBuff := srb_feed (take 20 sample_body) (srb_init (ce_Junk form_env) HTTP_ReadBuffSize)\<rparr>"

lemma sample_body_length: "length sample_body = 127"
  by code_simp

lemma sample_type_parsed: "GetContentType sample_type out = Some (CT_FORM_MULTIPART, ''X'')"
  by (rule GetContentType_multipart [where items = "[]" and quoted = False and mt = "''multipart/form-data''"])
    (simp_all add: sample_type_def tolower_def char_of_def bit_0 key_char_def)

lemma sample_header_names: "hd_IntName sample_type = HN_CONTENT_TYPE" "hd_IntName sample_length = HN_CONTENT_LENGTH"
  by (simp_all add: sample_type_def sample_length_def)

lemma sample_length_parsed: "GetULongLong sample_length = Some (Inr 127)"
  using strtoull_dec [of 127 "[]"] by (simp add: GetULongLong_def sample_length_def sample_body_length)

lemma sample_buffer:
  "reads_ok (cn_ReadBuff sample_form_post) (cn_In sample_form_post)" "stream sample_form_post = sample_body @ ''GET''"
proof -
  let ?b = "srb_init (ce_Junk form_env) HTTP_ReadBuffSize" and ?t = "take 20 sample_body"
  have r: "length ?t \<le> srb_room ?b"
    using srb_room_eq [OF fresh_read_buffer(1) [of "ce_Junk form_env"]] by (simp add: srb_init_def HTTP_ReadBuffSize_def)
  have "rb_ReqDataEndPos (srb_feed ?t ?b) \<le> 20"
    by (simp add: srb_feed_state [OF fresh_read_buffer(1) r]) (simp add: srb_init_def)
  then show "reads_ok (cn_ReadBuff sample_form_post) (cn_In sample_form_post)"
    using srb_feed_inv [OF fresh_read_buffer(1) r] sample_body_length
    by (auto simp: reads_ok_def read_limit_def sample_form_post_def conn_init_def HTTP_ReadBuffSize_def)
  have "?t @ take 50 (drop 20 sample_body) @ drop 70 sample_body = sample_body"
    using append_take_drop_id [of 50 "drop 20 sample_body"] append_take_drop_id [of 20 sample_body] by simp
  then show "stream sample_form_post = sample_body @ ''GET''"
    using srb_feed_ready [OF fresh_read_buffer(1) r] fresh_read_buffer(2)
    by (simp add: stream_def sample_form_post_def conn_init_def)
qed

theorem multipart_post_received_witness:
  "\<exists>c'. ContentHandler form_env sample_form_post = Ret True c' \<and> stream c' = ''GET''
    \<and> qp_ParamMap (cn_CurrQuery c') = [''u'' \<mapsto> ''Jo''] \<and> up_Files (qp_Upload (cn_CurrQuery c')) = [''t'' \<mapsto> ''Hi'']"
proof -
  let ?q = "cn_CurrQuery sample_form_post"
  have q: "qp_Upload ?q = upload_init 100 100" "qp_FileMap ?q = Map.empty" "qp_ParamMap ?q = Map.empty"
    "qp_BoundaryParseCounter ?q = 2" "qp_ParseTmp ?q = []"
    by (simp_all add: sample_form_post_def conn_init_def qp_init_def)
  have v: "form_view ?q = \<lparr>form_Params = Map.empty, form_Files = Map.empty, form_Disk = Map.empty, form_Created = 0\<rparr>"
    by (simp add: form_view_def q) (simp add: upload_init_def)
  have "\<exists>c'. ContentHandler form_env sample_form_post = Ret True c' \<and> stream c' = ''GET''
    \<and> form_view (cn_CurrQuery c') = fold (store_part sample_path) sample_form (form_view ?q)"
  proof (rule multipart_post_received [where ht = sample_type and hl = sample_length and n = 127 and bd = "''X''" and epilogue = line_end])
    show "filter content_header (cn_HeaderA sample_form_post) = [sample_type, sample_length] \<or>
        filter content_header (cn_HeaderA sample_form_post) = [sample_length, sample_type]"
      by (simp add: sample_form_post_def content_header_def sample_header_names)
    show "\<forall>h \<in> set (cn_HeaderA sample_form_post). hd_Value h \<noteq> None"
      by (simp add: sample_form_post_def sample_type_def sample_length_def)
    show "Suc (length (concat (cn_In sample_form_post))) < ce_Fuel form_env"
      using sample_body_length by (simp add: sample_form_post_def conn_init_def form_env_def)
    show "uploads_fit (ce_Upload form_env) sample_path sample_form ?q"
      using sample_form_fits [OF q(1,2)] by (simp add: form_env_def)
  qed (use sample_buffer sample_form_wf sample_body_length q in
      \<open>simp_all add: sample_type_parsed sample_length_parsed sample_body_def [symmetric] sample_header_names form_env_def sample_env_def default_config_def\<close>)
  then show ?thesis
    unfolding v by (auto simp: form_view_def store_part_def sample_form_def sample_path_def)
qed

end
