(* ===== verification/FormSession.thy ===== *)
theory FormSession
  imports SiteSession FormPost
begin

text \<open>
  A form from the socket to the page: a POST request with a multipart form, cut into any segments, is parsed,
  its content is received and stored, the response source is asked with what the form holds, and the
  response goes back. With the routes of the demonstration program, the test page lists the fields of the form.
\<close>

section \<open>A posted form on a new connection\<close>

definition form_request_ok :: "(char \<Rightarrow> bool) \<Rightarrow> http_request \<Rightarrow> string \<Rightarrow> nat \<Rightarrow> bool" where
  "form_request_ok safe r bd n \<longleftrightarrow> request_ok safe r \<and> hr_Method r = ''POST'' \<and> hr_Version r = ''1.1'' \<and> hr_Query r = None
     \<and> keep_alive (map line_header (hr_Headers r)) True = Some True
     \<and> (\<exists>ht hl. filter content_header (map line_header (hr_Headers r)) \<in> {[ht, hl], [hl, ht]}
          \<and> hd_IntName ht = HN_CONTENT_TYPE \<and> hd_IntName hl = HN_CONTENT_LENGTH \<and> GetULongLong hl = Some (Inr n)
          \<and> GetContentType ht [] = Some (CT_FORM_MULTIPART, bd))"

text \<open>What the source is asked: the request, and the form as it was stored.\<close>

definition posts :: "request \<Rightarrow> http_request \<Rightarrow> form_store \<Rightarrow> bool" where
  "posts rq r st \<longleftrightarrow> rq_Method rq = METHOD_POST \<and> rq_Resource rq = hr_Path r \<and> form_view (rq_Query rq) = st
     \<and> rq_HeaderA rq = map line_header (hr_Headers r) \<and> rq_Content rq = None"

text \<open>The connection before a request of \<open>k\<close> characters, with what is still to come.\<close>

definition awaiting :: "nat \<Rightarrow> string \<Rightarrow> conn \<Rightarrow> bool" where
  "awaiting k s c \<longleftrightarrow> srb_inv (cn_ReadBuff c) \<and> rb_RelevantLength (cn_ReadBuff c) = 0 \<and> [] \<notin> set (cn_In c) \<and> stream c = s
     \<and> idle (cn_WriteBuff c) \<and> rb_ReadPos (cn_ReadBuff c) + k \<le> length (rb_buf (cn_ReadBuff c))"

lemma form_headers:
  assumes "form_request_ok safe r bd n" "awaiting (length (request_text safe r)) (request_text safe r @ body) c" "qp_BoundaryStr (cn_CurrQuery c) = []" "cn_HeaderA c = []"
  shows "\<exists>c'. HeaderHandler c = Ret True c' \<and> cn_CurrMethod c' = METHOD_POST \<and> cn_CurrResource c' = hr_Path r
    \<and> cn_CurrVersion c' = VERSION_11 \<and> cn_CurrQuery c' = cn_CurrQuery c \<and> cn_HeaderA c' = map line_header (hr_Headers r)
    \<and> srb_inv (cn_ReadBuff c') \<and> [] \<notin> set (cn_In c') \<and> stream c' = body \<and> cn_Out c' = cn_Out c \<and> cn_WriteBuff c' = cn_WriteBuff c
    \<and> cn_ResponseCount c' = cn_ResponseCount c \<and> reads_on (cn_ReadBuff c) (cn_In c) (cn_ReadBuff c') (cn_In c')"
  using HeaderHandler_request [of safe r c body] assms
  by (auto simp: form_request_ok_def awaiting_def ParseMethod_def stream_def)

lemma form_content_received:
  assumes "form_request_ok safe r bd n" "cn_HeaderA c = map line_header (hr_Headers r)" "n \<le> cc_MaxPostBodyLength (ce_Conf env)"
    "reads_ok (cn_ReadBuff c) (cn_In c)" "Suc (length (concat (cn_In c))) < ce_Fuel env"
    "form_wf bd parts epilogue" "uploads_fit (ce_Upload env) path parts (cn_CurrQuery c)"
    "qp_BoundaryStr (cn_CurrQuery c) = []" "qp_BoundaryParseCounter (cn_CurrQuery c) = 2" "qp_ParseTmp (cn_CurrQuery c) = []"
    "stream c = form_body bd parts epilogue @ rest" "n = length (form_body bd parts epilogue)"
  shows "\<exists>b i t q. ContentHandler env c = Ret True (io b i t ((save_headers (content_start n bd c))\<lparr>cn_CurrQuery := q\<rparr>))
    \<and> blocks_ok b i \<and> GetAvailableData b @ concat i = rest \<and> form_view q = fold (store_part path) parts (form_view (cn_CurrQuery c))"
proof -
  obtain ht hl where h: "filter content_header (cn_HeaderA c) = [ht, hl] \<or> filter content_header (cn_HeaderA c) = [hl, ht]"
      "hd_IntName ht = HN_CONTENT_TYPE" "hd_IntName hl = HN_CONTENT_LENGTH" "GetULongLong hl = Some (Inr n)"
      "GetContentType ht (qp_BoundaryStr (cn_CurrQuery c)) = Some (CT_FORM_MULTIPART, bd)"
    using assms(1,2,8) by (auto simp: form_request_ok_def)
  have "\<forall>h \<in> set (cn_HeaderA c). hd_Value h \<noteq> None"
    by (auto simp: assms(2) line_header_def)
  from multipart_received [OF h assms(3) this assms(4-7,9-12)] show ?thesis .
qed

text \<open>The limits of a connection for a form of \<open>n\<close> bytes in \<open>k\<close> segments.\<close>

definition form_fits :: "conn_env \<Rightarrow> nat \<Rightarrow> nat \<Rightarrow> bool" where
  "form_fits env n k \<longleftrightarrow> n \<le> cc_MaxPostBodyLength (ce_Conf env) \<and> Suc n < ce_Fuel env
     \<and> HTTP_ReadBuffSize * (k + 2) + n + 1023 < U32"

lemma headers_reads_ok:
  assumes "reads_on b i b' i'" "srb_inv b'" "[] \<notin> set i'" "length (rb_buf b) = HTTP_ReadBuffSize" "rb_ReqDataEndPos b \<le> HTTP_ReadBuffSize"
    "length (concat i') \<le> n" "form_fits env n (length i)"
  shows "reads_ok b' i'"
proof -
  have "HTTP_ReadBuffSize * length i' \<le> HTTP_ReadBuffSize * length i" "rb_ReqDataEndPos b' \<le> HTTP_ReadBuffSize"
    using assms(1,4,5) by (auto simp: reads_on_def)
  then have "read_limit b' i' + HTTP_ReadBuffSize + 1023 \<le> HTTP_ReadBuffSize + HTTP_ReadBuffSize * length i + n + HTTP_ReadBuffSize + 1023"
    using assms(6) unfolding read_limit_def by linarith
  also have "\<dots> = HTTP_ReadBuffSize * (length i + 2) + n + 1023"
    by simp
  finally show ?thesis
    using assms(2,3,7) by (simp add: reads_ok_def form_fits_def)
qed

text \<open>The form up to the response: it is received, and the source is asked for the response.\<close>

lemma form_received:
  assumes "form_request_ok safe r bd n" "form_wf bd parts epilogue" "n = length (form_body bd parts epilogue)"
    "awaiting (length (request_text safe r)) (request_text safe r @ form_body bd parts epilogue) c"
    "length (rb_buf (cn_ReadBuff c)) = HTTP_ReadBuffSize" "rb_ReqDataEndPos (cn_ReadBuff c) \<le> HTTP_ReadBuffSize"
    "form_fits env n (length (cn_In c))" "qp_BoundaryStr (cn_CurrQuery c) = []" "qp_BoundaryParseCounter (cn_CurrQuery c) = 2"
    "qp_ParseTmp (cn_CurrQuery c) = []" "cn_HeaderA c = []" "uploads_fit (ce_Upload env) path parts (cn_CurrQuery c)"
    "\<And>k rq. posts rq r (fold (store_part path) parts (form_view (cn_CurrQuery c))) \<Longrightarrow> ce_Create env k rq = Created rp"
  shows "\<exists>c1 c2. HeaderHandler c = Ret True c1 \<and> cn_CurrMethod c1 = METHOD_POST \<and> ContentHandler env c1 = Ret True c2
    \<and> cn_CurrVersion c2 = VERSION_11 \<and> cn_HeaderA c2 = map line_header (hr_Headers r)
    \<and> awaiting 0 [] c2 \<and> cn_Out c2 = cn_Out c \<and> cn_ResponseCount c2 = cn_ResponseCount c
    \<and> choose_response env (cn_ResponseCount (counted c2)) (conn_request (counted c2)) = Some (Responder rp True)"
proof -
  let ?body = "form_body bd parts epilogue"
  obtain c1 where c1: "HeaderHandler c = Ret True c1" "cn_CurrMethod c1 = METHOD_POST" "cn_CurrResource c1 = hr_Path r"
      "cn_CurrVersion c1 = VERSION_11" "cn_CurrQuery c1 = cn_CurrQuery c" "cn_HeaderA c1 = map line_header (hr_Headers r)"
      "srb_inv (cn_ReadBuff c1)" "[] \<notin> set (cn_In c1)" "stream c1 = ?body" "cn_Out c1 = cn_Out c" "cn_WriteBuff c1 = cn_WriteBuff c"
      "cn_ResponseCount c1 = cn_ResponseCount c" "reads_on (cn_ReadBuff c) (cn_In c) (cn_ReadBuff c1) (cn_In c1)"
    using form_headers [OF assms(1,4,8,11)] by blast
  have l: "length (concat (cn_In c1)) \<le> n"
    using arg_cong [OF c1(9), of length] assms(3) by (simp add: stream_def)
  have "reads_ok (cn_ReadBuff c1) (cn_In c1)"
    by (rule headers_reads_ok [OF c1(13,7,8) assms(5,6) l assms(7)])
  then obtain b i t q where c2: "ContentHandler env c1 = Ret True (io b i t ((save_headers (content_start n bd c1))\<lparr>cn_CurrQuery := q\<rparr>))"
      "blocks_ok b i" "GetAvailableData b @ concat i = []" "form_view q = fold (store_part path) parts (form_view (cn_CurrQuery c))"
    using form_content_received [OF assms(1) c1(6), of env parts epilogue path "[]"] l assms(2,3,7-10,12) c1(5,9) by (auto simp: form_fits_def)
  let ?c2 = "io b i t ((save_headers (content_start n bd c1))\<lparr>cn_CurrQuery := q\<rparr>)"
  have f: "cn_CurrMethod ?c2 = METHOD_POST" "cn_CurrResource ?c2 = hr_Path r" "cn_CurrVersion ?c2 = VERSION_11" "cn_CurrQuery ?c2 = q"
      "cn_HeaderA ?c2 = map line_header (hr_Headers r)" "cn_Out ?c2 = cn_Out c" "cn_WriteBuff ?c2 = cn_WriteBuff c"
      "cn_ResponseCount ?c2 = cn_ResponseCount c" "cn_Content ?c2 = None" "cn_ReadBuff ?c2 = b" "cn_In ?c2 = i"
    using c1(2-4,6,10-12) by (simp_all add: io_def save_headers_def content_start_def Let_def)
  have rq: "posts (conn_request (counted ?c2)) r (fold (store_part path) parts (form_view (cn_CurrQuery c)))"
    using f c2(4) by (simp add: posts_def conn_request_def counted_def)
  have ch: "choose_response env (cn_ResponseCount (counted ?c2)) (conn_request (counted ?c2)) = Some (Responder rp True)"
  proof -
    have "CORSPreflight_Create (conn_request (counted ?c2)) = None"
      using f(1) by (simp add: conn_request_def counted_def CORSPreflight_Create_def)
    then show ?thesis
      using assms(13) [OF rq] by (simp add: choose_response_def Let_def)
  qed
  have "awaiting 0 [] ?c2"
    using f c2(2,3) assms(4) srb_invD(2,3) [of b] by (auto simp: awaiting_def stream_def blocks_ok_def reads_ok_def)
  then show ?thesis
    using c1(1,2) c2(1) ch f by (intro exI [of _ c1] exI [of _ ?c2]) simp
qed

lemma awaiting_end:
  assumes "awaiting 0 [] c"
  shows "between [] (c\<lparr>cn_ReadBuff := ResetRelevant (cn_ReadBuff c)\<rparr>)"
proof -
  have "ResetRelevant (cn_ReadBuff c) = cn_ReadBuff c"
    using assms by (simp add: awaiting_def ResetRelevant_def)
  then show ?thesis
    using assms by (simp add: awaiting_def between_def stream_def)
qed

text \<open>A response handler that sends \<open>w\<close> for a response, and what it returns.\<close>

definition sends :: "conn_env \<Rightarrow> response \<Rightarrow> string \<Rightarrow> bool \<Rightarrow> bool" where
  "sends env rp w keep \<longleftrightarrow> (\<forall>c. idle (cn_WriteBuff c) \<and> cn_ResponseCount c = 0
     \<and> choose_response env (cn_ResponseCount (counted c)) (conn_request (counted c)) = Some (Responder rp True)
     \<longrightarrow> (\<exists>sent q out t. ResponseHandler env c = Ret keep (responded rp sent q out t c) \<and> idle q \<and> concat out = concat (cn_Out c) @ w))"

text \<open>A new connection on which a POST request with a multipart form arrives, cut into any segments, asks its
  source for the response with the request and with exactly what the form holds, sends the response and
  nothing else, and is then closed. The form may be larger than the read buffer.\<close>

lemma form_post_answered:
  assumes "form_request_ok safe r bd n" "form_wf bd parts epilogue" "n = length (form_body bd parts epilogue)"
    "[] \<notin> set segs" "concat segs = request_text safe r @ form_body bd parts epilogue" "length (request_text safe r) \<le> HTTP_ReadBuffSize"
    "form_fits env n (length segs)" "uploads_fit (ce_Upload env) path parts (qp_init 0 (default_upload u))"
    "\<forall>k rq. posts rq r (fold (store_part path) parts (form_view (qp_init 0 u))) \<longrightarrow> ce_Create env k rq = Created rp"
    "sends env rp w keep" "1 < fuel"
  shows "\<exists>c. ProtocolHandler env fuel (conn_init env u junk segs) = Some c \<and> concat (cn_Out c) = w \<and> \<not> cn_Open c \<and> cn_IsDeletable c"
proof -
  let ?c = "ResetRequestData env (conn_init env u junk segs)"
  obtain f where f: "fuel = Suc (Suc f)"
    using assms(11) by (cases fuel; cases "fuel - 1") auto
  have A: "awaiting (length (request_text safe r)) (request_text safe r @ form_body bd parts epilogue) ?c"
    using assms(4-6) fresh_read_buffer [of "ce_Junk env"] idle_init [of HTTP_WriteBuffSize "ce_Junk env"]
    by (simp add: awaiting_def ResetRequestData_def conn_init_def stream_def HTTP_WriteBuffSize_def) (simp add: srb_init_def)
  have q: "qp_BoundaryStr (cn_CurrQuery ?c) = []" "qp_BoundaryParseCounter (cn_CurrQuery ?c) = 2" "qp_ParseTmp (cn_CurrQuery ?c) = []"
      "form_view (cn_CurrQuery ?c) = form_view (qp_init 0 u)" "cn_HeaderA ?c = []" "cn_Out ?c = []" "cn_ResponseCount ?c = 0"
      "length (rb_buf (cn_ReadBuff ?c)) = HTTP_ReadBuffSize" "rb_ReqDataEndPos (cn_ReadBuff ?c) \<le> HTTP_ReadBuffSize" "cn_In ?c = segs"
    by (simp_all add: ResetRequestData_def conn_init_def move_assign_def qp_init_def form_view_def default_upload_def upload_init_def)
      (simp_all add: srb_init_def)
  have up: "uploads_fit (ce_Upload env) path parts (cn_CurrQuery ?c)"
    using assms(8) by (simp add: uploads_fit_def ResetRequestData_def conn_init_def move_assign_def qp_init_def)
  obtain c1 c2 where C: "HeaderHandler ?c = Ret True c1" "cn_CurrMethod c1 = METHOD_POST" "ContentHandler env c1 = Ret True c2"
      "cn_CurrVersion c2 = VERSION_11" "cn_HeaderA c2 = map line_header (hr_Headers r)"
      "awaiting 0 [] c2" "cn_Out c2 = []" "cn_ResponseCount c2 = 0"
      "choose_response env (cn_ResponseCount (counted c2)) (conn_request (counted c2)) = Some (Responder rp True)"
    using form_received [OF assms(1-3) A q(8,9) _ q(1-3,5) up, of rp] assms(7,9) by (auto simp: q(4,6,7,10))
  have "idle (cn_WriteBuff c2)"
    using C(6) by (simp add: awaiting_def)
  then obtain sent wq out t where R: "ResponseHandler env c2 = Ret keep (responded rp sent wq out t c2)" "idle wq" "concat out = w"
    using assms(10) C(7,8,9) unfolding sends_def by force
  let ?c3 = "responded rp sent wq out t c2"
  show ?thesis
  proof (cases keep)
    case False
    then have "protocol_loop env fuel (conn_init env u junk segs) = Ret () ?c3"
      using C(1-3) R(1) unfolding f by simp
    then show ?thesis
      using R(3) by (auto simp: ProtocolHandler_def)
  next
    case True
    have A3: "awaiting 0 [] ?c3"
      using C(6) R(2) by (simp add: awaiting_def stream_def)
    let ?d = "next_request ?c3"
    have "protocol_loop env fuel (conn_init env u junk segs) = protocol_loop env (Suc f) ?d"
      using C(1-5) R(1) True assms(1) unfolding f by (simp add: Let_def form_request_ok_def next_request_def)
    moreover have "between [] (ResetRequestData env ?d)"
      unfolding next_request_def by (rule ResetRequestData_keeps(1) [OF awaiting_end [OF A3]])
    from HeaderHandler_end [OF this] have "protocol_loop env (Suc f) ?d = Throw (ResetRequestData env ?d)
        \<or> protocol_loop env (Suc f) ?d = Ret () (ResetRequestData env ?d)"
      by auto
    ultimately show ?thesis
      using R(3) ResetRequestData_keeps(2) [of env ?d] by (auto simp: ProtocolHandler_def)
  qed
qed

section \<open>The test page\<close>

text \<open>The text of the test page for what a form holds.\<close>

definition form_page :: "(string \<Rightarrow> string \<times> string) \<Rightarrow> form_store \<Rightarrow> string option" where
  "form_page err st =
     (case file_lines (file_size err (form_Disk st)) (map_entries (form_Files st)) of
        Inl _ \<Rightarrow> None
      | Inr fls \<Rightarrow> Some (''Got method POST.'' @ nl @ nl @ ''Params:'' @ nl @ concat (map param_line (map_entries (form_Params st)))
          @ nl @ ''Files:'' @ nl @ fls))"

lemma form_page_asked:
  assumes "posts rq r st" "hr_Path r = ''/formtest''" "form_page err st = Some s"
  shows "Combiner_Create (site_routes g (FormTest_Create err) e fs) rq = Created (SStreamResp s)"
proof -
  have res: "rq_Resource rq = ''/formtest''"
    using assms(1,2) by (simp add: posts_def)
  have v: "qp_ParamMap (rq_Query rq) = form_Params st" "qp_FileMap (rq_Query rq) = form_Files st" "rq_Method rq = METHOD_POST"
      "up_Files (qp_Upload (rq_Query rq)) = form_Disk st"
    using assms(1) by (auto simp: posts_def form_view_def)
  have "Combiner_Create (site_routes g (FormTest_Create err) e fs) rq = FormTest_Create err (rq\<lparr>rq_Resource := []\<rparr>)"
    using site_source [of rq 1 g "FormTest_Create err" e fs "[]"] res by (simp add: site_holders(1) serves_def)
  then show ?thesis
    using v assms(3) by (simp add: FormTest_Create_def form_page_def split: sum.splits)
qed

lemma form_page_not_empty: "form_page err st = Some s \<Longrightarrow> s \<noteq> []"
  by (auto simp: form_page_def split: sum.splits)

text \<open>The body of the page is one read.\<close>

lemma SStream_body:
  assumes "writes_ok env" "idle q" "s \<noteq> []" "fuel \<noteq> 0"
  shows "\<exists>q' out' t'. length_body env fuel (reader_of SStream_Read s) (length s) 0 (wio q out t c)
      = Ret (length s \<le> HTTP_WriteBuffSize, min (length s) HTTP_WriteBuffSize) (wio q' out' t' c) \<and> idle q'
    \<and> concat out' = concat out @ take HTTP_WriteBuffSize s"
proof -
  let ?p = "take HTTP_WriteBuffSize s"
  obtain f where f: "fuel = Suc f"
    using assms(4) by (cases fuel) auto
  have p: "?p \<noteq> []" "length ?p = min (length s) HTTP_WriteBuffSize" "HTTP_WriteBuffSize + 255 < U32"
    using assms(3) by (simp_all add: HTTP_WriteBuffSize_def)
  obtain q1 out1 t1 where w: "WriteNext env (put env HTTP_WriteBuffSize ?p (wio q out 0 c)) = Ret () (wio q1 out1 t1 c)" "idle q1"
      "concat out1 = concat out @ ?p"
    using WriteNext_put [OF assms(1,2) p(3), of ?p out 0 c] by auto
  have "length_body env fuel (reader_of SStream_Read s) (length s) 0 (wio q out t c)
      = Ret (length s \<le> HTTP_WriteBuffSize, min (length s) HTTP_WriteBuffSize) (wio q1 out1 t1 c)"
    using assms(3) p(1) w(1) by (auto simp: f SStream_Read_def Let_def)
  then show ?thesis
    using w(2,3) by blast
qed

lemma form_page_sent:
  assumes "writes_ok env" "s \<noteq> []" "length s < NO_LENGTH" "ce_Fuel env \<noteq> 0" "page_fits env (SStreamResp s)"
  shows "sends env (SStreamResp s) (head_text env 1 True (SStreamResp s) @ take HTTP_WriteBuffSize s) (length s \<le> HTTP_WriteBuffSize)"
  unfolding sends_def
proof (intro allI impI, elim conjE)
  fix c
  let ?rp = "SStreamResp s"
  assume c: "idle (cn_WriteBuff c)" "cn_ResponseCount c = 0"
    "choose_response env (cn_ResponseCount (counted c)) (conn_request (counted c)) = Some (Responder ?rp True)"
  have n: "cn_ResponseCount (counted c) = 1"
    using c(2) by (simp add: counted_def u32_simps)
  have h: "head_fits env 1 True ?rp" "length (head_text env 1 True ?rp) < head_limit env"
    using assms(5) by (simp_all add: page_fits_def)
  have rp: "rp_Length ?rp = length s" "rp_Read ?rp = reader_of SStream_Read s" "rp_Upgrade ?rp = None"
    by (simp_all add: SStreamResp_def)
  obtain q1 out1 t1 where w1: "idle q1" "concat out1 = concat (cn_Out c) @ head_text env 1 True ?rp"
      and R: "ResponseHandler env c = seq (length_body env (ce_Fuel env) (rp_Read ?rp) (rp_Length ?rp) 0 (wio q1 out1 t1 (counted c)))
              (\<lambda>y c2. case y of (keep, sent) \<Rightarrow> finish_response env ?rp keep sent c2)"
    using ResponseHandler_head [OF assms(1) c(1,3)] h assms(3) rp(1) unfolding n by auto
  let ?keep = "length s \<le> HTTP_WriteBuffSize" and ?sent = "min (length s) HTTP_WriteBuffSize"
  obtain q2 out2 t2 where b: "length_body env (ce_Fuel env) (rp_Read ?rp) (rp_Length ?rp) 0 (wio q1 out1 t1 (counted c))
      = Ret (?keep, ?sent) (wio q2 out2 t2 (counted c))" "idle q2" "concat out2 = concat out1 @ take HTTP_WriteBuffSize s"
    using SStream_body [OF assms(1) w1(1) assms(2,4), of out1 t1 "counted c"] unfolding rp(1,2) by blast
  have q2: "wq_inv q2" "wq_inflight q2 = []" "wq_pending q2 = []"
    using b(2) idle_queues by (auto simp: idle_def)
  obtain q out t where F: "finish_response env ?rp ?keep ?sent (wio q2 out2 t2 (counted c))
      = Ret (?keep \<and> rp_Upgrade ?rp = None) (logged ?rp ?sent (wio q out t (counted c)))" "idle q" "concat out = concat out2 @ wq_pending q2"
    using finish_response_sent [OF assms(1) q2(1,2), of ?rp ?keep ?sent out2 t2 "counted c"] by blast
  have "ResponseHandler env c = Ret ?keep (responded ?rp ?sent q out t c)"
    using R b(1) F(1) rp(3) by (simp add: responded_def)
  then show "\<exists>sent q out t. ResponseHandler env c = Ret ?keep (responded ?rp sent q out t c) \<and> idle q
      \<and> concat out = concat (cn_Out c) @ head_text env 1 True ?rp @ take HTTP_WriteBuffSize s"
    using F(2,3) b(3) w1(2) q2(3) by (intro exI [of _ ?sent] exI [of _ q] exI [of _ out] exI [of _ t]) simp
qed

section \<open>Properties\<close>

text \<open>C5: a form from the socket to the page. When the demonstration program gets a POST request for its form
  test with a multipart form, cut into any segments (and larger than the read buffer, if need be), it
  answers with the header lines and, byte for byte, the page that lists the fields and files of that form in
  the order of their names, with the sizes of the files as they were stored, and with nothing else; then the
  connection is closed. Of a page longer than one write buffer only the first buffer is sent, although the
  header lines announce all of it.\<close>

theorem form_page_served:
  assumes "\<forall>n. ce_WriteOk env n" "ce_Create env = (\<lambda>_. Combiner_Create (site_routes g (FormTest_Create err) e fs))"
    "form_request_ok safe r bd n" "hr_Path r = ''/formtest''" "form_wf bd parts epilogue" "n = length (form_body bd parts epilogue)"
    "[] \<notin> set segs" "concat segs = request_text safe r @ form_body bd parts epilogue" "length (request_text safe r) \<le> HTTP_ReadBuffSize"
    "form_fits env n (length segs)" "uploads_fit (ce_Upload env) path parts (qp_init 0 (default_upload u))"
    "form_page err (fold (store_part path) parts (form_view (qp_init 0 u))) = Some s" "length s < NO_LENGTH"
    "page_fits env (SStreamResp s)" "1 < fuel"
  shows "\<exists>c. ProtocolHandler env fuel (conn_init env u junk segs) = Some c
    \<and> concat (cn_Out c) = head_text env 1 True (SStreamResp s) @ take HTTP_WriteBuffSize s \<and> \<not> cn_Open c \<and> cn_IsDeletable c"
proof (rule form_post_answered [OF assms(3,5-11) _ _ assms(15)])
  show "\<forall>k rq. posts rq r (fold (store_part path) parts (form_view (qp_init 0 u))) \<longrightarrow> ce_Create env k rq = Created (SStreamResp s)"
    using form_page_asked [OF _ assms(4,12)] by (simp add: assms(2))
  show "sends env (SStreamResp s) (head_text env 1 True (SStreamResp s) @ take HTTP_WriteBuffSize s) (length s \<le> HTTP_WriteBuffSize)"
    by (rule form_page_sent [OF assms(1) form_page_not_empty [OF assms(12)] assms(13) _ assms(14)]) (use assms(10) in \<open>simp add: form_fits_def\<close>)
qed

text \<open>The sample form, posted to the demonstration program.\<close>

definition form_site_env :: conn_env where
  "form_site_env = sample_env\<lparr>ce_Create := \<lambda>_. Combiner_Create (site_routes (\<lambda>_. CreatedNull) (FormTest_Create (\<lambda>_. ([], []))) (\<lambda>_. CreatedNull) (\<lambda>_. CreatedNull)),
     ce_Upload := sample_uploads, ce_Fuel := 1000\<rparr>"

definition posted_form :: http_request where
  "posted_form = \<lparr>hr_Method = ''POST'', hr_Path = ''/formtest'', hr_Query = None, hr_Version = ''1.1'',
     hr_Headers = [(''Content-Type'', 1, ''multipart/form-data'' @ CHR '';'' # '' '' @ dkv_last ''boundary'' False ''X''), (''Content-Length'', 1, dec 127)]\<rparr>"

definition sample_page :: string where
  "sample_page = ''Got method POST.'' @ nl @ nl @ ''Params:'' @ nl @ ''u: '' @ quoted ''Jo'' @ nl @ nl @ ''Files:'' @ nl
     @ ''f: OrigFileName: '' @ quoted ''a'' @ '', Path: '' @ quoted ''t'' @ '', MimeType: '' @ quoted [] @ '', [Size]: 2'' @ nl"

lemma posted_form_ok: "form_request_ok plain_char posted_form ''X'' 127" "length (request_text plain_char posted_form) < 200"
    "request_text plain_char posted_form \<noteq> []" "hr_Path posted_form = ''/formtest''"
proof -
  have d: "dec 127 = ''127''"
    by (simp add: dec.simps digit_def char_of_def bit_0)
  have h: "map line_header (hr_Headers posted_form) = [sample_type, sample_length]"
    using sample_body_length by (simp add: posted_form_def line_header_def sample_type_def sample_length_def d) code_simp
  have ok: "request_ok plain_char posted_form"
    by (simp add: request_ok_def posted_form_def plain_char_def fm_line_ok_def value_ok_def d dkv_last_def)
  have k: "keep_alive [sample_type, sample_length] True = Some True"
    by (simp add: sample_header_names)
  have f: "filter content_header [sample_type, sample_length] = [sample_type, sample_length]"
    by (simp add: content_header_def sample_header_names)
  have r: "hr_Method posted_form = ''POST''" "hr_Version posted_form = ''1.1''" "hr_Query posted_form = None"
    by (simp_all add: posted_form_def)
  have "filter content_header (map line_header (hr_Headers posted_form)) \<in> {[sample_type, sample_length], [sample_length, sample_type]}
      \<and> hd_IntName sample_type = HN_CONTENT_TYPE \<and> hd_IntName sample_length = HN_CONTENT_LENGTH \<and> GetULongLong sample_length = Some (Inr 127)
      \<and> GetContentType sample_type [] = Some (CT_FORM_MULTIPART, ''X'')"
    using f sample_header_names sample_length_parsed sample_type_parsed by (simp add: h)
  then show "form_request_ok plain_char posted_form ''X'' 127"
    using ok r k unfolding form_request_ok_def h by blast
  show "length (request_text plain_char posted_form) < 200" "request_text plain_char posted_form \<noteq> []" "hr_Path posted_form = ''/formtest''"
    by (simp_all add: request_text_def request_line_def posted_form_def CRLF_def fm_text_def header_line_def d dkv_last_def)
qed

lemma sample_page_listed:
  "form_page (\<lambda>_. ([], [])) (fold (store_part sample_path) sample_form (form_view (qp_init 0 (upload_init 0 0)))) = Some sample_page"
proof -
  have "dec (Suc (Suc 0)) = ''2''"
    by (simp add: dec.simps digit_def char_of_def bit_0)
  then show ?thesis
    by (simp add: form_page_def file_size_def sample_form_def store_part_def form_view_def qp_init_def upload_init_def map_entries_def
        sample_path_def sample_page_def file_line_def param_line_def)
qed

lemma sample_page_length: "length sample_page = 99"
  by (simp add: sample_page_def nl_def quoted_def)

lemma sample_page_fits: "page_fits form_site_env (SStreamResp sample_page)"
proof -
  have d: "dec 200 = ''200''" "dec 99 = ''99''" "dec 0 = ''0''"
    by (simp_all add: dec.simps digit_def char_of_def bit_0)
  have p: "rp_ResponseCode (SStreamResp sample_page) = 200" "rp_ContentType (SStreamResp sample_page) = ''text/plain''"
      "rp_Charset (SStreamResp sample_page) = Some ''utf-8''" "rp_Length (SStreamResp sample_page) = 99" "rp_ExtraHeaders (SStreamResp sample_page) = []"
    by (simp_all add: SStreamResp_def sample_page_length RC_defs)
  show ?thesis
    by (simp add: page_fits_def head_fits_def head_text_def head_lines_def status_line_def content_type_line_def date_line_def length_line_def
        extra_text_def form_site_env_def sample_env_def default_config_def head_limit_def p
        d GetResponseName_def RC_defs CRLF_def cstr_def NO_LENGTH_def)
qed

lemma sample_uploads_fit: "uploads_fit sample_uploads sample_path sample_form (qp_init 0 (default_upload (upload_init 0 0)))"
  by (simp add: uploads_fit_def sample_uploads_def sample_path_def file_bytes_def sample_form_def upload_room_def upload_init_def UINTMAX_def inj_def
      qp_init_def default_upload_def)

theorem form_page_served_witness:
  "\<exists>c. ProtocolHandler form_site_env 2 (conn_init form_site_env (upload_init 0 0) 0
        [take 50 (request_text plain_char posted_form @ sample_body), drop 50 (request_text plain_char posted_form @ sample_body)]) = Some c
    \<and> concat (cn_Out c) = head_text form_site_env 1 True (SStreamResp sample_page) @ sample_page"
proof -
  let ?t = "request_text plain_char posted_form @ sample_body"
  have "\<exists>c. ProtocolHandler form_site_env 2 (conn_init form_site_env (upload_init 0 0) 0 [take 50 ?t, drop 50 ?t]) = Some c
    \<and> concat (cn_Out c) = head_text form_site_env 1 True (SStreamResp sample_page) @ take HTTP_WriteBuffSize sample_page \<and> \<not> cn_Open c \<and> cn_IsDeletable c"
  proof (rule form_page_served [where bd = "''X''" and n = 127 and parts = sample_form and epilogue = line_end and path = sample_path])
    show "form_fits form_site_env 127 (length [take 50 ?t, drop 50 ?t])"
      by (simp add: form_fits_def form_site_env_def sample_env_def default_config_def HTTP_ReadBuffSize_def)
    show "length (request_text plain_char posted_form) \<le> HTTP_ReadBuffSize"
      using posted_form_ok(2) by (simp add: HTTP_ReadBuffSize_def)
    show "length sample_page < NO_LENGTH"
      by (simp add: sample_page_length NO_LENGTH_def)
    show "concat [take 50 ?t, drop 50 ?t] = request_text plain_char posted_form @ form_body ''X'' sample_form line_end"
      unfolding sample_body_def by (simp only: concat.simps append_Nil2 append_take_drop_id)
    show "[] \<notin> set [take 50 ?t, drop 50 ?t]"
      using sample_body_length posted_form_ok(3) by auto
  qed (use posted_form_ok sample_form_wf sample_body_length sample_page_listed sample_page_fits sample_uploads_fit in
      \<open>simp_all add: sample_body_def [symmetric]\<close>, simp_all add: form_site_env_def sample_env_def)
  then show ?thesis
    by (auto simp: sample_page_length HTTP_WriteBuffSize_def)
qed

end
