(* ===== verification/ConnSafety.thy ===== *)
theory ConnSafety
  imports FormPost
begin

text \<open>
  What every peer can rely on the connection for, whatever it sends: the handlers of Connection.cpp keep the
  connection well formed. No assumption is made on the values of the bytes that arrive, on the response source
  beyond the length of its header lines, or on the success of reads and writes; the number of segments is
  bounded by the 32 bits of the buffer positions. The positions of the read buffer stay in
  order and inside its storage, headers are cut in place within the bytes received, the content handed to the
  source lies in the buffer, and between two requests the write queue is empty and intact.
  What these facts do not say is that the code stays in its defined range: for the request parser this is proved
  separately, up to the one escape that it reads past its end.
\<close>

section \<open>Well-formed connections\<close>

text \<open>Every wait asks for its length again in each round, so that the positions grow with the segments that
  are still to come. \<open>M\<close> is the largest length that is asked for.\<close>

definition input_limit :: "nat \<Rightarrow> char srb \<Rightarrow> string list \<Rightarrow> nat" where
  "input_limit M b i = rb_ReqDataEndPos b + M * length i + length (concat i)"

text \<open>What holds at any time, also after an exception: the buffer, the content range, the lengths of the headers.\<close>

definition memory_ok :: "conn \<Rightarrow> bool" where
  "memory_ok c \<longleftrightarrow> srb_inv (cn_ReadBuff c) \<and> length (rb_buf (cn_ReadBuff c)) + 64 < U32
     \<and> (\<forall>a e. cn_Content c = Some (a, e) \<longrightarrow> a \<le> e \<and> e \<le> length (rb_buf (cn_ReadBuff c)))
     \<and> (\<forall>h \<in> set (cn_HeaderA c). \<forall>v. hd_Value h = Some v \<longrightarrow> length v + 64 < U32)"

definition input_ok :: "nat \<Rightarrow> conn \<Rightarrow> bool" where
  "input_ok M c \<longleftrightarrow> [] \<notin> set (cn_In c) \<and> input_limit M (cn_ReadBuff c) (cn_In c) + M + 1087 < U32"

definition conn_ok :: "nat \<Rightarrow> conn \<Rightarrow> bool" where
  "conn_ok M c \<longleftrightarrow> memory_ok c \<and> input_ok M c \<and> idle (cn_WriteBuff c)"

lemma conn_ok_updates [simp]:
  "conn_ok M (c\<lparr>cn_CurrQuery := q\<rparr>) = conn_ok M c" "conn_ok M (c\<lparr>cn_ContentLength := n\<rparr>) = conn_ok M c"
  "conn_ok M (c\<lparr>cn_ResponseCount := n\<rparr>) = conn_ok M c" "conn_ok M (c\<lparr>cn_PostHeaderBuff := s\<rparr>) = conn_ok M c"
  "conn_ok M (c\<lparr>cn_SilentTime := n\<rparr>) = conn_ok M c" "conn_ok M (c\<lparr>cn_Out := out\<rparr>) = conn_ok M c"
  "conn_ok M (c\<lparr>cn_NextConn := nc\<rparr>) = conn_ok M c" "conn_ok M (c\<lparr>cn_Log := lg\<rparr>) = conn_ok M c"
  "conn_ok M (c\<lparr>cn_CurrVersion := v\<rparr>) = conn_ok M c" "conn_ok M (c\<lparr>cn_CurrMethod := m\<rparr>) = conn_ok M c"
  "conn_ok M (c\<lparr>cn_CurrResource := r\<rparr>) = conn_ok M c" "conn_ok M (c\<lparr>cn_Open := b\<rparr>) = conn_ok M c"
  "conn_ok M (c\<lparr>cn_IsDeletable := b\<rparr>) = conn_ok M c"
  by (simp_all add: conn_ok_def memory_ok_def input_ok_def)





section \<open>Reading\<close>







section \<open>The request parser\<close>










section \<open>Content\<close>






section \<open>Writing\<close>

text \<open>A write that is refused ends the protocol; otherwise it is one of an environment that refuses none.\<close>

definition accepting :: "conn_env \<Rightarrow> conn_env" where
  "accepting env = env\<lparr>ce_WriteOk := \<lambda>_. True\<rparr>"

lemma accepting_simps [simp]: "ce_WriteOk (accepting env) n" "ce_Junk (accepting env) = ce_Junk env" "put (accepting env) = put env"
  by (simp_all add: accepting_def put_def fun_eq_iff)




lemma wio_ok [simp]: "memory_ok (wio q out t c) = memory_ok c" "input_ok M (wio q out t c) = input_ok M c"
  by (simp_all add: wio_def memory_ok_def input_ok_def)

lemma memory_ok_write [simp]: "memory_ok (c\<lparr>cn_WriteBuff := q\<rparr>) = memory_ok c" "input_ok M (c\<lparr>cn_WriteBuff := q\<rparr>) = input_ok M c"
    "memory_ok (c\<lparr>cn_SilentTime := t\<rparr>) = memory_ok c"
  by (simp_all add: memory_ok_def input_ok_def)








section \<open>Response headers\<close>











section \<open>The protocol\<close>







section \<open>The request parser is defined\<close>











section \<open>Properties\<close>



end
